(* ===== verification/Prelude.thy ===== *)
theory Prelude
  imports Main "HOL-Library.Word" "HOL-Library.Sublist"
begin

text \<open>
  Shared vocabulary of the development.  The C integer types of
  \<^verbatim>\<open>include/rtdef.h\<close> become words of the same width, so that \<open>+\<close>, \<open>-\<close> and the
  shifts wrap exactly as on the 32-bit target.  The theory also has the generic
  facts on lists and words that several components use, and the collections
  (\<^verbatim>\<open>named_theorems\<close>) in which the components put the lemmas that their operations keep
  the kernel consistent.
\<close>

unbundle bit_operations_syntax

type_synonym u8 = "8 word"
type_synonym u16 = "16 word"
type_synonym u32 = "32 word"

named_theorems kernel_keeps \<open>operations that keep the kernel invariant\<close>
named_theorems kernel_calls \<open>calls whose results satisfy the kernel invariant\<close>

text \<open>Error codes of \<^verbatim>\<open>include/rtdef.h\<close>; operations return them negated.\<close>

abbreviation (input) RT_EOK :: int where "RT_EOK \<equiv> 0"
abbreviation (input) RT_ERROR :: int where "RT_ERROR \<equiv> 1"
abbreviation (input) RT_ETIMEOUT :: int where "RT_ETIMEOUT \<equiv> 2"
abbreviation (input) RT_EFULL :: int where "RT_EFULL \<equiv> 3"
abbreviation (input) RT_EEMPTY :: int where "RT_EEMPTY \<equiv> 4"
abbreviation (input) RT_ENOMEM :: int where "RT_ENOMEM \<equiv> 5"
abbreviation (input) RT_EBUSY :: int where "RT_EBUSY \<equiv> 7"
abbreviation (input) RT_EIO :: int where "RT_EIO \<equiv> 8"

text \<open>Rounding up to a multiple of a power of two; it wraps for the largest numbers.\<close>

definition RT_ALIGN :: "u32 \<Rightarrow> u32 \<Rightarrow> u32" where
  "RT_ALIGN n align = (n + align - 1) AND NOT (align - 1)"

abbreviation (input) RT_ALIGN_SIZE :: u32 where "RT_ALIGN_SIZE \<equiv> 8"


section \<open>Lists\<close>

lemma distinct_removeAll_split:
  "distinct (as @ x # bs) \<Longrightarrow> removeAll x (as @ x # bs) = as @ bs"
  by simp

lemma distinct_split_unique:
  assumes "distinct (as @ x # bs)" "as @ x # bs = cs @ x # ds"
  shows "as = cs \<and> bs = ds"
proof -
  have "x \<notin> set as" "x \<notin> set bs" "x \<notin> set cs" "x \<notin> set ds"
    using assms(1) arg_cong[OF assms(2), of distinct] by auto
  then show ?thesis using assms(2) by (auto simp: append_Cons_eq_iff)
qed

lemma sorted_wrt_removeAll:
  "sorted_wrt P xs \<Longrightarrow> sorted_wrt P (removeAll x xs)"
  by (induction xs) auto

lemma sorted_wrt_insert_middle:
  "sorted_wrt P (as @ x # bs) \<longleftrightarrow>
    sorted_wrt P (as @ bs) \<and> (\<forall>a \<in> set as. P a x) \<and> (\<forall>b \<in> set bs. P x b)"
  by (auto simp: sorted_wrt_append)

lemma sorted_wrt_cong_on:
  assumes "\<And>x y. x \<in> set xs \<Longrightarrow> y \<in> set xs \<Longrightarrow> P x y = Q x y"
  shows "sorted_wrt P xs = sorted_wrt Q xs"
  using assms by (induction xs) auto


section \<open>Words\<close>

lemma bit_mask_or [simp]:
  "bit (w OR 2 ^ n :: u32) i \<longleftrightarrow> bit w i \<or> (i = n \<and> n < 32)"
  by (auto simp: bit_simps)

lemma bit_mask_and_not [simp]:
  "bit (w AND NOT (2 ^ n) :: u32) i \<longleftrightarrow> bit w i \<and> i \<noteq> n"
  by (auto simp: bit_simps dest: bit_imp_le_length)

lemma power_two_nonzero [simp]: "n < 32 \<Longrightarrow> (2 :: u32) ^ n \<noteq> 0"
  using bit_mask_or[of 0 n n] by auto

lemma bit_u32_less: "bit (w :: u32) i \<Longrightarrow> i < 32"
  using bit_imp_le_length[of w i] by simp

lemma word_nonzero_bit:
  "(w :: 'a::len word) \<noteq> 0 \<longleftrightarrow> (\<exists>i. bit w i)"
  by (metis bit_0_eq bit_eqI bot_apply bot_bool_def)

lemma bit_low_masks:
  "bit (0xFFFF :: int) n \<longleftrightarrow> n < 16" "bit (0xFF :: int) n \<longleftrightarrow> n < 8"
  "bit (0x7FF :: int) n \<longleftrightarrow> n < 11" "bit (0xF :: int) n \<longleftrightarrow> n < 4"
  "bit (4 :: int) n \<longleftrightarrow> n = 2" "bit (0x7F :: int) n \<longleftrightarrow> n < 7" "bit (0x80 :: int) n \<longleftrightarrow> n = 7"
  using bit_exp_iff[of 2 n, where 'a = int] bit_exp_iff[of 7 n, where 'a = int] bit_mask_iff[of 7 n, where 'a = int]
    bit_mask_iff[of 16 n, where 'a = int] bit_mask_iff[of 8 n, where 'a = int]
    bit_mask_iff[of 11 n, where 'a = int] bit_mask_iff[of 4 n, where 'a = int]
  by (auto simp: mask_eq_exp_minus_1)

lemma small_bit: "unat w < 2 ^ k \<Longrightarrow> bit w n \<Longrightarrow> n < k"
  using bit_take_bit_iff[of k "unat w" n] take_bit_nat_eq_self[of "unat w" k]
  by (simp add: bit_unsigned_iff)

text \<open>A 32-bit word read as a signed number.\<close>

lemma sint_u32: "sint (x :: u32) = (if uint x < 2147483648 then uint x else uint x - 4294967296)"
proof (cases "uint x < 2147483648")
  case True
  then show ?thesis using int_word_sint[of "uint x", where 'a = 32] by simp
next
  case False
  then have "(uint x + 2147483648) mod 4294967296 = uint x + 2147483648 - 4294967296"
    using uint_bounded[of x] by (subst mod_pos_geq) auto
  then show ?thesis using int_word_sint[of "uint x", where 'a = 32] False by simp
qed

end
