(* ===== verification/RtList.thy ===== *)
theory RtList
  imports Prelude
begin

text \<open>
  The intrusive doubly linked lists of \<^verbatim>\<open>include/rtservice.h\<close>, on which every
  queue of the kernel rests.  The first part is the code itself: a store with
  the \<open>next\<close> and \<open>prev\<close> pointer of every node and the five inline functions as
  sequences of pointer writes.  The second part is the abstract view that the
  other kernel theories use: a function from list heads to the sequence of
  nodes linked behind them.  The refinement relation \<open>rings\<close> connects the two,
  and the locale \<open>list_interface\<close> states what a client may rely on.
\<close>


section \<open>The pointer operations\<close>

record 'n rt_list_store =
  rl_next :: "'n \<Rightarrow> 'n"
  rl_prev :: "'n \<Rightarrow> 'n"

definition rt_list_init :: "'n \<Rightarrow> 'n rt_list_store \<Rightarrow> 'n rt_list_store" where
  "rt_list_init l s =
    (let s = s\<lparr>rl_prev := (rl_prev s)(l := l)\<rparr>
     in s\<lparr>rl_next := (rl_next s)(l := rl_prev s l)\<rparr>)"

definition rt_list_insert_after ::
  "'n \<Rightarrow> 'n \<Rightarrow> 'n rt_list_store \<Rightarrow> 'n rt_list_store" where
  "rt_list_insert_after l n s =
    (let s = s\<lparr>rl_prev := (rl_prev s)(rl_next s l := n)\<rparr>;
         s = s\<lparr>rl_next := (rl_next s)(n := rl_next s l)\<rparr>;
         s = s\<lparr>rl_next := (rl_next s)(l := n)\<rparr>
     in s\<lparr>rl_prev := (rl_prev s)(n := l)\<rparr>)"

definition rt_list_insert_before ::
  "'n \<Rightarrow> 'n \<Rightarrow> 'n rt_list_store \<Rightarrow> 'n rt_list_store" where
  "rt_list_insert_before l n s =
    (let s = s\<lparr>rl_next := (rl_next s)(rl_prev s l := n)\<rparr>;
         s = s\<lparr>rl_prev := (rl_prev s)(n := rl_prev s l)\<rparr>;
         s = s\<lparr>rl_prev := (rl_prev s)(l := n)\<rparr>
     in s\<lparr>rl_next := (rl_next s)(n := l)\<rparr>)"

definition rt_list_remove :: "'n \<Rightarrow> 'n rt_list_store \<Rightarrow> 'n rt_list_store" where
  "rt_list_remove n s =
    (let s = s\<lparr>rl_prev := (rl_prev s)(rl_next s n := rl_prev s n)\<rparr>;
         s = s\<lparr>rl_next := (rl_next s)(rl_prev s n := rl_next s n)\<rparr>;
         s = s\<lparr>rl_prev := (rl_prev s)(n := n)\<rparr>
     in s\<lparr>rl_next := (rl_next s)(n := rl_prev s n)\<rparr>)"

definition rt_list_isempty :: "'n \<Rightarrow> 'n rt_list_store \<Rightarrow> bool" where
  "rt_list_isempty l s \<longleftrightarrow> rl_next s l = l"


section \<open>Rings\<close>

text \<open>\<open>linked s xs\<close>: every node of \<open>xs\<close> points to its successor in \<open>xs\<close> by
  \<open>next\<close>, and the successor points back by \<open>prev\<close>.  A ring starts and ends in
  the list head.\<close>

fun linked :: "'n rt_list_store \<Rightarrow> 'n list \<Rightarrow> bool" where
  "linked s (x # y # zs) \<longleftrightarrow> rl_next s x = y \<and> rl_prev s y = x \<and> linked s (y # zs)"
| "linked s _ \<longleftrightarrow> True"

definition ring :: "'n rt_list_store \<Rightarrow> 'n \<Rightarrow> 'n list \<Rightarrow> bool" where
  "ring s h xs \<longleftrightarrow> distinct (h # xs) \<and> linked s (h # xs @ [h])"

lemma linked_append:
  "linked s (xs @ [a] @ b # ys) \<longleftrightarrow>
    linked s (xs @ [a]) \<and> rl_next s a = b \<and> rl_prev s b = a \<and> linked s (b # ys)"
  by (induction s "xs @ [a]" arbitrary: xs rule: linked.induct)
     (auto simp: Cons_eq_append_conv append_eq_Cons_conv)

lemma linked_frame:
  assumes "\<And>x. x \<in> set (butlast xs) \<Longrightarrow> rl_next s' x = rl_next s x"
    "\<And>x. x \<in> set (tl xs) \<Longrightarrow> rl_prev s' x = rl_prev s x"
  shows "linked s' xs = linked s xs"
  using assms by (induction s xs rule: linked.induct) auto

lemma linked_insert:
  assumes "linked s (P @ [a] @ b # Q)"
    "a \<notin> set P" "b \<notin> set Q" "b \<notin> set (tl (P @ [a]))" "a \<notin> set (butlast (b # Q))"
    "n \<notin> set (P @ [a] @ b # Q)"
    "rl_next s' = (rl_next s)(n := b, a := n)"
    "rl_prev s' = (rl_prev s)(b := n, n := a)"
  shows "linked s' (P @ [a] @ n # b # Q)"
proof -
  have ne: "n \<noteq> a" "n \<noteq> b" "n \<notin> set P" "n \<notin> set Q" using assms(6) by auto
  have sub: "set (butlast (b # Q)) \<subseteq> set (b # Q)" "set (tl (P @ [a])) \<subseteq> set (P @ [a])"
    by (auto dest!: in_set_butlastD simp: tl_append split: list.splits)
  have "linked s' (P @ [a]) = linked s (P @ [a])"
    using assms(2,4) ne sub(2) by (intro linked_frame) (auto simp: assms(7,8))
  moreover have "linked s' (b # Q) = linked s (b # Q)"
    using assms(3,5) ne sub(1) by (intro linked_frame) (auto simp: assms(7,8))
  ultimately show ?thesis using assms(1) ne
    by (simp only: linked_append linked.simps) (simp add: assms(7,8))
qed

lemma ring_frame:
  assumes "\<And>x. x \<in> set (h # xs) \<Longrightarrow> rl_next s' x = rl_next s x \<and> rl_prev s' x = rl_prev s x"
  shows "ring s' h xs = ring s h xs"
proof -
  have "linked s' (h # xs @ [h]) = linked s (h # xs @ [h])"
    by (rule linked_frame) (use assms in auto)
  then show ?thesis by (simp add: ring_def)
qed

lemma linked_delete:
  assumes "linked s (P @ [a] @ n # b # Q)"
    "a \<notin> set P" "b \<notin> set Q" "b \<notin> set (tl (P @ [a]))" "a \<notin> set (butlast (b # Q))"
    "n \<notin> set (P @ [a] @ b # Q)"
    "rl_next s' = (rl_next s)(a := b, n := n)"
    "rl_prev s' = (rl_prev s)(b := a, n := n)"
  shows "linked s' (P @ [a] @ b # Q)"
proof -
  have ne: "n \<noteq> a" "n \<noteq> b" "n \<notin> set P" "n \<notin> set Q" using assms(6) by auto
  have sub: "set (butlast (b # Q)) \<subseteq> set (b # Q)" "set (tl (P @ [a])) \<subseteq> set (P @ [a])"
    by (auto dest!: in_set_butlastD simp: tl_append split: list.splits)
  have "linked s' (P @ [a]) = linked s (P @ [a])"
    using assms(2,4) ne sub(2) by (intro linked_frame) (auto simp: assms(7,8))
  moreover have "linked s' (b # Q) = linked s (b # Q)"
    using assms(3,5) ne sub(1) by (intro linked_frame) (auto simp: assms(7,8))
  ultimately show ?thesis using assms(1) ne
    by (simp only: linked_append linked.simps) (simp add: assms(7,8))
qed

text \<open>A position inside a ring: the node before it, the node after it, and what
  is needed to change the links there.\<close>

lemma ring_position:
  assumes "distinct (h # as @ bs)"
  obtains P a b Q where "h # as = P @ [a]" "bs @ [h] = b # Q"
    "a = last (h # as)" "b = hd (bs @ [h])"
    "a \<notin> set P" "b \<notin> set Q" "b \<notin> set (tl (P @ [a]))" "a \<notin> set (butlast (b # Q))"
proof -
  obtain P a where P: "h # as = P @ [a]" by (metis append_butlast_last_id list.distinct(1))
  obtain b Q where Q: "bs @ [h] = b # Q" by (cases bs) auto
  have dP: "distinct (P @ [a])" and dis: "set (P @ [a]) \<inter> set bs = {}"
    using assms by (auto simp flip: P)
  have "a \<notin> set (butlast (b # Q))" using dis by (simp flip: Q)
  moreover have "b \<notin> set Q" "b \<notin> set (tl (P @ [a]))"
    using assms Q by (cases bs; auto simp flip: P)+
  ultimately show ?thesis using that[OF P Q] P Q dP by (metis distinct_append last_snoc
        list.sel(1) not_distinct_conv_prefix distinct1_rotate rotate1.simps(2) distinct.simps(2))
qed

text \<open>Inserting \<open>n\<close> between two neighbours of a ring, and taking it out again.\<close>

lemma ring_insert:
  assumes "ring s h (as @ bs)" "n \<notin> set (h # as @ bs)"
    "rl_next s' = (rl_next s)(n := hd (bs @ [h]), last (h # as) := n)"
    "rl_prev s' = (rl_prev s)(hd (bs @ [h]) := n, n := last (h # as))"
  shows "ring s' h (as @ n # bs)"
proof -
  have d: "distinct (h # as @ bs)" and l: "linked s ((h # as) @ bs @ [h])"
    using assms(1) by (auto simp: ring_def)
  obtain P a b Q where pos: "h # as = P @ [a]" "bs @ [h] = b # Q"
    "a = last (h # as)" "b = hd (bs @ [h])"
    "a \<notin> set P" "b \<notin> set Q" "b \<notin> set (tl (P @ [a]))" "a \<notin> set (butlast (b # Q))"
    by (rule ring_position[OF d])
  have "n \<notin> set (P @ [a]) \<union> set (b # Q)" using assms(2) by (simp flip: pos(1,2))
  then have "linked s' (P @ [a] @ n # b # Q)"
    using l pos(1,2) assms(3,4)[folded pos(3,4)]
    by (intro linked_insert[OF _ pos(5-8)]) auto
  then have "linked s' ((h # as) @ n # bs @ [h])" unfolding pos(1,2) by simp
  then show ?thesis using d assms(2) by (auto simp: ring_def)
qed

lemma ring_delete:
  assumes "ring s h (as @ n # bs)"
    "rl_next s' = (rl_next s)(last (h # as) := hd (bs @ [h]), n := n)"
    "rl_prev s' = (rl_prev s)(hd (bs @ [h]) := last (h # as), n := n)"
  shows "ring s' h (as @ bs)"
proof -
  have d: "distinct (h # as @ bs)" and n: "n \<notin> set (h # as @ bs)"
    and l: "linked s ((h # as) @ n # bs @ [h])"
    using assms(1) by (auto simp: ring_def)
  obtain P a b Q where pos: "h # as = P @ [a]" "bs @ [h] = b # Q"
    "a = last (h # as)" "b = hd (bs @ [h])"
    "a \<notin> set P" "b \<notin> set Q" "b \<notin> set (tl (P @ [a]))" "a \<notin> set (butlast (b # Q))"
    by (rule ring_position[OF d])
  have "n \<notin> set (P @ [a]) \<union> set (b # Q)" using n by (simp flip: pos(1,2))
  then have "linked s' (P @ [a] @ b # Q)"
    using l pos(1,2) assms(2,3)[folded pos(3,4)]
    by (intro linked_delete[OF _ pos(5-8)]) auto
  then have "linked s' ((h # as) @ bs @ [h])" unfolding pos(1,2) by simp
  then show ?thesis using d by (simp add: ring_def)
qed

lemma ring_neighbours:
  assumes "ring s h (as @ n # bs)"
  shows "rl_prev s n = last (h # as)" "rl_next s n = hd (bs @ [h])"
proof -
  have l: "linked s ((h # as) @ n # bs @ [h])" using assms by (simp add: ring_def)
  obtain P a where P: "h # as = P @ [a]" by (metis append_butlast_last_id list.distinct(1))
  obtain b Q where Q: "bs @ [h] = b # Q" by (cases bs) auto
  have "linked s (P @ [a] @ n # b # Q)" using l unfolding P Q by simp
  then show "rl_prev s n = last (h # as)" "rl_next s n = hd (bs @ [h])"
    unfolding P Q linked_append by auto
qed

lemma ring_ends:
  assumes "ring s h xs"
  shows "rl_next s h = hd (xs @ [h])" "rl_prev s h = last (h # xs)"
proof -
  have l: "linked s ([] @ [h] @ xs @ [h])" using assms by (simp add: ring_def)
  obtain b Q where Q: "xs @ [h] = b # Q" by (cases xs) auto
  show "rl_next s h = hd (xs @ [h])" using l unfolding Q linked_append by simp
  obtain P a where P: "h # xs = P @ [a]" by (metis append_butlast_last_id list.distinct(1))
  have "linked s ((h # xs) @ [h])" using l by simp
  then show "rl_prev s h = last (h # xs)" using linked_append[of s P a h "[]"] unfolding P by simp
qed


section \<open>The abstract view\<close>

text \<open>Clients see every list head \<open>h\<close> with the sequence \<open>L h\<close> of the elements
  behind it.  In the store a node is either a head or the node of an element.\<close>

datatype ('h, 'e) node = Head 'h | Elem 'e

definition linked_in :: "'e \<Rightarrow> ('h \<Rightarrow> 'e list) \<Rightarrow> bool" where
  "linked_in e L \<longleftrightarrow> (\<exists>h. e \<in> set (L h))"

definition push_back :: "'h \<Rightarrow> 'e \<Rightarrow> ('h \<Rightarrow> 'e list) \<Rightarrow> 'h \<Rightarrow> 'e list" where
  "push_back h e L = L(h := L h @ [e])"

definition push_front :: "'h \<Rightarrow> 'e \<Rightarrow> ('h \<Rightarrow> 'e list) \<Rightarrow> 'h \<Rightarrow> 'e list" where
  "push_front h e L = L(h := e # L h)"

definition unlink :: "'e \<Rightarrow> ('h \<Rightarrow> 'e list) \<Rightarrow> 'h \<Rightarrow> 'e list" where
  "unlink e L = (\<lambda>h. removeAll e (L h))"

text \<open>Each element is on at most one list and at most once.\<close>

definition exclusive :: "('h \<Rightarrow> 'e list) \<Rightarrow> bool" where
  "exclusive L \<longleftrightarrow> (\<forall>h. distinct (L h)) \<and> (\<forall>h h'. h \<noteq> h' \<longrightarrow> set (L h) \<inter> set (L h') = {})"

definition rings :: "('h, 'e) node rt_list_store \<Rightarrow> ('h \<Rightarrow> 'e list) \<Rightarrow> bool" where
  "rings s L \<longleftrightarrow> exclusive L \<and> (\<forall>h. ring s (Head h) (map Elem (L h))) \<and>
    (\<forall>e. \<not> linked_in e L \<longrightarrow> rl_next s (Elem e) = Elem e \<and> rl_prev s (Elem e) = Elem e)"

lemma linked_in_upd:
  "linked_in x (L(h := ys)) \<longleftrightarrow> x \<in> set ys \<or> (\<exists>g. g \<noteq> h \<and> x \<in> set (L g))"
  by (auto simp: linked_in_def)

lemma not_linkedD: "\<not> linked_in e L \<Longrightarrow> e \<notin> set (L h)"
  by (auto simp: linked_in_def)

lemma exclusiveD:
  "exclusive L \<Longrightarrow> e \<in> set (L h) \<Longrightarrow> e \<in> set (L h') \<Longrightarrow> h = h'"
  "exclusive L \<Longrightarrow> distinct (L h)"
  by (auto simp: exclusive_def disjoint_iff)

lemma exclusive_insert:
  assumes "exclusive L" "L h = as @ bs" "\<not> linked_in e L"
  shows "exclusive (L(h := as @ e # bs))"
  unfolding exclusive_def
proof (intro conjI allI impI)
  have ne: "e \<notin> set (L g)" for g using assms(3) by (auto simp: linked_in_def)
  have "distinct (as @ bs)" using exclusiveD(2)[OF assms(1), of h] assms(2) by simp
  then show "distinct ((L(h := as @ e # bs)) g)" for g
    using ne[of h] assms(2) exclusiveD(2)[OF assms(1), of g] by simp
  have dis: "(set as \<union> set bs) \<inter> set (L g) = {}" if "g \<noteq> h" for g
    using exclusiveD(1)[OF assms(1), of _ h g] assms(2) that by auto
  show "set ((L(h := as @ e # bs)) g) \<inter> set ((L(h := as @ e # bs)) g') = {}"
    if "g \<noteq> g'" for g g'
    using dis[of g] dis[of g'] ne[of g] ne[of g'] exclusiveD(1)[OF assms(1), of _ g g'] that
    by (cases "g = h"; cases "g' = h") auto
qed

lemma exclusive_push [simp, intro]:
  "exclusive L \<Longrightarrow> \<not> linked_in e L \<Longrightarrow> exclusive (push_back h e L)"
  "exclusive L \<Longrightarrow> \<not> linked_in e L \<Longrightarrow> exclusive (push_front h e L)"
  using exclusive_insert[of L h "L h" "[]" e] exclusive_insert[of L h "[]" "L h" e]
  by (simp_all add: push_back_def push_front_def)

lemma exclusive_unlink [simp, intro]: "exclusive L \<Longrightarrow> exclusive (unlink e L)"
  by (auto simp: exclusive_def unlink_def distinct_removeAll)

lemma linked_in_unlink [simp]: "linked_in x (unlink e L) \<longleftrightarrow> linked_in x L \<and> x \<noteq> e"
  by (auto simp: linked_in_def unlink_def)

lemma linked_in_push [simp]:
  "linked_in x (push_back h e L) \<longleftrightarrow> x = e \<or> linked_in x L"
  "linked_in x (push_front h e L) \<longleftrightarrow> x = e \<or> linked_in x L"
  by (auto simp: linked_in_def push_back_def push_front_def)

lemma unlink_eq:
  assumes "exclusive L" "L h = as @ e # bs"
  shows "unlink e L = L(h := as @ bs)"
proof
  fix g
  have "distinct (as @ e # bs)" using exclusiveD(2)[OF assms(1), of h] assms(2) by simp
  moreover have "e \<notin> set (L g)" if "g \<noteq> h"
    using exclusiveD(1)[OF assms(1), of e g h] assms(2) that by auto
  ultimately show "unlink e L g = (L(h := as @ bs)) g"
    using assms(2) by (simp add: unlink_def)
qed

lemma unlink_id [simp]: "\<not> linked_in e L \<Longrightarrow> unlink e L = L"
  by (auto simp: linked_in_def unlink_def)


section \<open>Refinement\<close>

lemma rings_insert:
  assumes "rings s L" "L h = as @ bs" "\<not> linked_in e L"
    "a = last (Head h # map Elem as)" "b = hd (map Elem bs @ [Head h])"
    "rl_next s' = (rl_next s)(Elem e := b, a := Elem e)"
    "rl_prev s' = (rl_prev s)(b := Elem e, Elem e := a)"
  shows "rings s' (L(h := as @ e # bs))"
proof -
  have ex: "exclusive L" and r: "\<And>g. ring s (Head g) (map Elem (L g))"
    using assms(1) by (auto simp: rings_def)
  have ne: "e \<notin> set (L g)" for g using assms(3) by (auto simp: linked_in_def)
  have a: "a \<in> {Head h} \<union> Elem ` set (L h)" using assms(2,4) by (auto simp: last_map)
  have b: "b \<in> {Head h} \<union> Elem ` set (L h)" using assms(2,5) by (cases bs) auto
  have "ring s' (Head h) (map Elem as @ Elem e # map Elem bs)"
    using r[of h] ne[of h] assms(2,6,7) by (intro ring_insert) (auto simp: assms(4,5))
  moreover have "ring s' (Head g) (map Elem (L g))" if "g \<noteq> h" for g
  proof -
    have "x \<noteq> a \<and> x \<noteq> b \<and> x \<noteq> Elem e" if "x \<in> set (Head g # map Elem (L g))" for x
      using that a b ne[of g] \<open>g \<noteq> h\<close> exclusiveD(1)[OF ex, of _ g h] by auto
    then have "ring s' (Head g) (map Elem (L g)) = ring s (Head g) (map Elem (L g))"
      by (intro ring_frame) (simp add: assms(6,7))
    then show ?thesis using r[of g] by simp
  qed
  moreover have "rl_next s' (Elem x) = Elem x \<and> rl_prev s' (Elem x) = Elem x"
    if "\<not> linked_in x (L(h := as @ e # bs))" for x
  proof -
    have x: "x \<notin> set (L h)" "x \<noteq> e" "\<And>g. g \<noteq> h \<Longrightarrow> x \<notin> set (L g)"
      using that assms(2) by (auto simp: linked_in_upd)
    then have "\<not> linked_in x L" unfolding linked_in_def by metis
    moreover have "Elem x \<noteq> a" "Elem x \<noteq> b" using x(1) a b by auto
    ultimately show ?thesis using assms(1,6,7) x(2) by (simp add: rings_def)
  qed
  ultimately show ?thesis using exclusive_insert[OF ex assms(2,3)] by (simp add: rings_def)
qed

lemma rings_insert_before_head:
  assumes "rings s L" "\<not> linked_in e L"
  shows "rings (rt_list_insert_before (Head h) (Elem e) s) (push_back h e L)"
proof -
  have r: "ring s (Head h) (map Elem (L h))" using assms(1) by (auto simp: rings_def)
  have ne: "e \<notin> set (L h)" using assms(2) by (auto simp: linked_in_def)
  have "last (Head h # map Elem (L h)) \<noteq> Elem e"
    using ne by (auto simp: last_map)
  then show ?thesis unfolding push_back_def using r
    by (intro rings_insert[OF assms(1) _ assms(2)])
       (auto simp: rt_list_insert_before_def Let_def ring_ends fun_upd_twist)
qed

lemma rings_insert_after_head:
  assumes "rings s L" "\<not> linked_in e L"
  shows "rings (rt_list_insert_after (Head h) (Elem e) s) (push_front h e L)"
proof -
  have r: "ring s (Head h) (map Elem (L h))" using assms(1) by (auto simp: rings_def)
  have ne: "e \<notin> set (L h)" using assms(2) by (auto simp: linked_in_def)
  have "hd (map Elem (L h) @ [Head h]) \<noteq> Elem e" using ne by (cases "L h") auto
  then show ?thesis unfolding push_front_def using r
    by (intro rings_insert[OF assms(1) _ assms(2), of h "[]", simplified])
       (auto simp: rt_list_insert_after_def Let_def ring_ends fun_upd_twist)
qed

text \<open>The two insertions in the middle of a list, used where a list is kept in
  order: the new element goes directly before (after) an element that is on it.\<close>

lemma rings_insert_before_elem:
  assumes "rings s L" "L h = as @ m # bs" "\<not> linked_in e L"
  shows "rings (rt_list_insert_before (Elem m) (Elem e) s) (L(h := as @ e # m # bs))"
proof -
  have r: "ring s (Head h) (map Elem as @ Elem m # map Elem bs)"
    using assms(1,2) by (metis rings_def list.simps(9) map_append)
  have ne: "e \<notin> set as" "e \<noteq> m" using not_linkedD[OF assms(3), of h] assms(2) by auto
  then have "last (Head h # map Elem as) \<noteq> Elem e" by (auto simp: last_map)
  then show ?thesis using ring_neighbours[OF r] ne
    by (intro rings_insert[OF assms(1,2,3)])
       (auto simp: rt_list_insert_before_def Let_def fun_upd_twist)
qed

lemma rings_insert_after_elem:
  assumes "rings s L" "L h = as @ m # bs" "\<not> linked_in e L"
  shows "rings (rt_list_insert_after (Elem m) (Elem e) s) (L(h := as @ m # e # bs))"
proof -
  have r: "ring s (Head h) (map Elem as @ Elem m # map Elem bs)"
    using assms(1,2) by (metis rings_def list.simps(9) map_append)
  have ne: "e \<notin> set bs" "e \<noteq> m" using not_linkedD[OF assms(3), of h] assms(2) by auto
  then have "hd (map Elem bs @ [Head h]) \<noteq> Elem e" by (cases bs) auto
  moreover have "L h = (as @ [m]) @ bs" using assms(2) by simp
  ultimately show ?thesis using ring_neighbours[OF r] ne
    using rings_insert[OF assms(1) \<open>L h = (as @ [m]) @ bs\<close> assms(3)]
    by (auto simp: rt_list_insert_after_def Let_def fun_upd_twist)
qed

lemma rings_remove_linked:
  assumes "rings s L" "L h = as @ e # bs"
  shows "rings (rt_list_remove (Elem e) s) (L(h := as @ bs))"
proof -
  have ex: "exclusive L" and r: "\<And>g. ring s (Head g) (map Elem (L g))"
    using assms(1) by (auto simp: rings_def)
  have d: "distinct (as @ e # bs)" using exclusiveD(2)[OF ex, of h] assms(2) by simp
  define a where "a = last (Head h # map Elem as)"
  define b where "b = hd (map Elem bs @ [Head h])"
  have re: "ring s (Head h) (map Elem as @ Elem e # map Elem bs)" using r[of h] assms(2) by simp
  have a: "a \<in> {Head h} \<union> Elem ` set (L h)" "a \<noteq> Elem e"
    using d by (auto simp: a_def assms(2) last_map)
  have b: "b \<in> {Head h} \<union> Elem ` set (L h)" "b \<noteq> Elem e"
    using d by (cases bs; auto simp: b_def assms(2))+
  let ?s = "rt_list_remove (Elem e) s"
  have s': "rl_next ?s = (rl_next s)(a := b, Elem e := Elem e)"
    "rl_prev ?s = (rl_prev s)(b := a, Elem e := Elem e)"
    using ring_neighbours[OF re] a(2) b(2)
    by (auto simp: rt_list_remove_def Let_def a_def b_def)
  have "ring ?s (Head h) (map Elem as @ map Elem bs)"
    by (rule ring_delete[OF re]) (use s' in \<open>simp_all add: a_def b_def\<close>)
  moreover have "ring ?s (Head g) (map Elem (L g))" if "g \<noteq> h" for g
  proof -
    have "x \<noteq> a \<and> x \<noteq> b \<and> x \<noteq> Elem e" if "x \<in> set (Head g # map Elem (L g))" for x
      using that a b \<open>g \<noteq> h\<close> exclusiveD(1)[OF ex, of _ g h] assms(2) by auto
    then show ?thesis using r[of g] ring_frame[of "Head g" "map Elem (L g)" ?s s] s' by simp
  qed
  moreover have "rl_next ?s (Elem x) = Elem x \<and> rl_prev ?s (Elem x) = Elem x"
    if "\<not> linked_in x (L(h := as @ bs))" for x
  proof (cases "x = e")
    case False
    then have x: "x \<notin> set (L h)" "\<And>g. g \<noteq> h \<Longrightarrow> x \<notin> set (L g)"
      using that assms(2) by (auto simp: linked_in_upd)
    then have "\<not> linked_in x L" unfolding linked_in_def by metis
    moreover have "Elem x \<noteq> a" "Elem x \<noteq> b" using x(1) a b by auto
    ultimately show ?thesis using assms(1) False s' by (simp add: rings_def)
  qed (simp add: s')
  moreover have "exclusive (L(h := as @ bs))"
    using exclusive_unlink[OF ex, of e] unlink_eq[OF ex assms(2)] by simp
  ultimately show ?thesis by (simp add: rings_def)
qed

lemma rings_remove:
  assumes "rings s L"
  shows "rings (rt_list_remove (Elem e) s) (unlink e L)"
proof (cases "linked_in e L")
  case True
  then obtain h as bs where "L h = as @ e # bs" by (auto simp: linked_in_def in_set_conv_decomp)
  then show ?thesis using rings_remove_linked[OF assms] unlink_eq assms
    by (metis rings_def)
next
  case False
  then have "rl_next s (Elem e) = Elem e" "rl_prev s (Elem e) = Elem e"
    using assms by (auto simp: rings_def)
  then have "rt_list_remove (Elem e) s = s" by (simp add: rt_list_remove_def fun_upd_idem)
  then show ?thesis using assms False by simp
qed

lemma rings_ring: "rings s L \<Longrightarrow> ring s (Head h) (map Elem (L h))"
  by (simp add: rings_def)

lemma rings_isempty: "rings s L \<Longrightarrow> rt_list_isempty (Head h) s \<longleftrightarrow> L h = []"
  using ring_ends(1)[OF rings_ring, of s L h]
  by (cases "L h") (simp_all add: rt_list_isempty_def)

lemma rings_first: "rings s L \<Longrightarrow> L h \<noteq> [] \<Longrightarrow> rl_next s (Head h) = Elem (hd (L h))"
  using ring_ends(1)[OF rings_ring, of s L h] by (cases "L h") simp_all

text \<open>An element whose two pointers are equal is alone on its list (or on none).
  This is the test by which \<^verbatim>\<open>rt_thread_yield\<close> decides whether to rotate.\<close>

lemma rings_alone:
  assumes "rings s L" "L h = as @ e # bs"
  shows "rl_next s (Elem e) = rl_prev s (Elem e) \<longleftrightarrow> as = [] \<and> bs = []"
proof -
  have "ring s (Head h) (map Elem as @ Elem e # map Elem bs)"
    using assms by (metis rings_def list.simps(9) map_append)
  moreover have "distinct (as @ e # bs)" using assms exclusiveD(2) by (metis rings_def)
  ultimately show ?thesis using ring_neighbours[of s "Head h" "map Elem as" "Elem e" "map Elem bs"]
    by (cases as rule: rev_cases; cases bs) auto
qed


section \<open>The list interface\<close>

text \<open>What the kernel relies on: a representation \<open>rep\<close> of the lists, the two
  insertions at a head, removal of an element wherever it is, and the emptiness
  test.  The lemmas of the locale are the queue disciplines the kernel builds
  from these operations.\<close>

locale list_interface =
  fixes ins_back :: "'h \<Rightarrow> 'e \<Rightarrow> 's \<Rightarrow> 's"
    and ins_front :: "'h \<Rightarrow> 'e \<Rightarrow> 's \<Rightarrow> 's"
    and del :: "'e \<Rightarrow> 's \<Rightarrow> 's"
    and empty :: "'h \<Rightarrow> 's \<Rightarrow> bool"
    and rep :: "'s \<Rightarrow> ('h \<Rightarrow> 'e list) \<Rightarrow> bool"
  assumes rep_exclusive: "rep s L \<Longrightarrow> exclusive L"
    and rep_back: "rep s L \<Longrightarrow> \<not> linked_in e L \<Longrightarrow> rep (ins_back h e s) (push_back h e L)"
    and rep_front: "rep s L \<Longrightarrow> \<not> linked_in e L \<Longrightarrow> rep (ins_front h e s) (push_front h e L)"
    and rep_del: "rep s L \<Longrightarrow> rep (del e s) (unlink e L)"
    and rep_empty: "rep s L \<Longrightarrow> empty h s \<longleftrightarrow> L h = []"
begin

text \<open>Appending a batch keeps its order: the list is a FIFO queue.\<close>

lemma fifo:
  assumes "rep s L" "distinct es" "\<forall>e \<in> set es. \<not> linked_in e L"
  shows "rep (fold (ins_back h) es s) (L(h := L h @ es))"
  using assms
proof (induction es arbitrary: s L)
  case (Cons e es)
  have "rep (fold (ins_back h) es (ins_back h e s)) ((push_back h e L)(h := push_back h e L h @ es))"
    using Cons.prems by (intro Cons.IH rep_back) auto
  moreover have "(push_back h e L)(h := push_back h e L h @ es) = L(h := L h @ e # es)"
    by (simp add: push_back_def)
  ultimately show ?case by (simp only: fold.simps o_apply)
qed (simp add: fun_upd_idem)

text \<open>Taking an element out and appending it moves it to the end of its list and
  leaves every other list alone: the round-robin rotation.\<close>

lemma rotate:
  assumes "rep s L" "L h = as @ e # bs"
  shows "rep (ins_back h e (del e s)) (L(h := as @ bs @ [e]))"
proof -
  have "unlink e L = L(h := as @ bs)" by (rule unlink_eq[OF rep_exclusive[OF assms(1)] assms(2)])
  moreover have "rep (ins_back h e (del e s)) (push_back h e (unlink e L))"
    using assms(1) by (intro rep_back rep_del) simp_all
  ultimately show ?thesis by (simp add: push_back_def)
qed

lemma insert_then_remove:
  assumes "rep s L" "\<not> linked_in e L"
  shows "rep (del e (ins_back h e s)) L" "rep (del e (ins_front h e s)) L"
proof -
  have "unlink e (push_back h e L) = L" "unlink e (push_front h e L) = L"
    using not_linkedD[OF assms(2)] by (auto simp: unlink_def push_back_def push_front_def)
  then show "rep (del e (ins_back h e s)) L" "rep (del e (ins_front h e s)) L"
    using rep_del[OF rep_back[OF assms]] rep_del[OF rep_front[OF assms]] by metis+
qed

end

text \<open>The pointer code provides the interface, and so does the abstract view the
  other kernel theories compute with.\<close>

interpretation ptr: list_interface
  "\<lambda>h e. rt_list_insert_before (Head h) (Elem e)"
  "\<lambda>h e. rt_list_insert_after (Head h) (Elem e)"
  "\<lambda>e. rt_list_remove (Elem e)" "\<lambda>h. rt_list_isempty (Head h)" rings
  by unfold_locales (auto simp: rings_isempty rings_insert_before_head rings_insert_after_head
      rings_remove rings_def[THEN iffD1])

interpretation abs: list_interface push_back push_front unlink "\<lambda>h L. L h = []"
  "\<lambda>L L'. L = L' \<and> exclusive L"
  by unfold_locales auto



section \<open>Ordered insertion\<close>

text \<open>Two places of the kernel walk a list to find the position of a new element:
  \<^verbatim>\<open>rt_timer_start\<close> and the priority branch of \<^verbatim>\<open>rt_ipc_list_suspend\<close>.  Both stop
  at the first element \<open>y\<close> the new element \<open>x\<close> has to precede, which the code
  tests as \<open>precedes x y\<close>, and append at the end if there is none.\<close>

locale ordered_insertion =
  fixes precedes :: "'e \<Rightarrow> 'e \<Rightarrow> bool" and ins :: "'e \<Rightarrow> 'e list \<Rightarrow> 'e list"
  assumes ins_Nil: "ins x [] = [x]"
    and ins_Cons: "ins x (y # ys) = (if precedes x y then x # y # ys else y # ins x ys)"
begin

lemma ins_split:
  "ins x ys = takeWhile (\<lambda>y. \<not> precedes x y) ys @ x # dropWhile (\<lambda>y. \<not> precedes x y) ys"
  by (induction ys) (auto simp: ins_Nil ins_Cons)

lemma set_ins [simp]: "set (ins x ys) = insert x (set ys)"
  by (induction ys) (auto simp: ins_Nil ins_Cons)

lemma distinct_ins [simp]: "distinct (ins x ys) \<longleftrightarrow> x \<notin> set ys \<and> distinct ys"
  by (induction ys) (auto simp: ins_Nil ins_Cons)

lemma filter_ins: "\<not> P x \<Longrightarrow> filter P (ins x ys) = filter P ys"
  by (induction ys) (auto simp: ins_Nil ins_Cons)

lemma removeAll_ins: "x \<notin> set ys \<Longrightarrow> removeAll x (ins x ys) = ys"
  by (induction ys) (auto simp: ins_Nil ins_Cons)

text \<open>Where the test compares a key, the list stays sorted by it and elements with
  equal keys stay in the order of their arrival.\<close>

lemma ins_by_key:
  fixes key :: "'e \<Rightarrow> 'k :: linorder"
  assumes "sorted (map key ys)" "\<forall>y \<in> set ys. precedes x y \<longleftrightarrow> key x < key y"
  shows "ins x ys = filter (\<lambda>y. key y \<le> key x) ys @ x # filter (\<lambda>y. key x < key y) ys"
  using assms
proof (induction ys)
  case (Cons y ys)
  show ?case
  proof (cases "key x < key y")
    case True
    then have "filter (\<lambda>z. key z \<le> key x) ys = []" "filter (\<lambda>z. key x < key z) ys = ys"
      using Cons.prems(1) by (fastforce simp: filter_empty_conv filter_id_conv)+
    then show ?thesis using True Cons.prems by (simp add: ins_Cons)
  next
    case False
    then show ?thesis using Cons by (simp add: ins_Cons)
  qed
qed (simp add: ins_Nil)

lemma ins_sorted:
  fixes key :: "'e \<Rightarrow> 'k :: linorder"
  assumes "sorted (map key ys)" "\<forall>y \<in> set ys. precedes x y \<longleftrightarrow> key x < key y"
  shows "sorted (map key (ins x ys))"
proof -
  have "sorted (map key (filter P ys))" for P
    using assms(1) by (induction ys) auto
  then show ?thesis unfolding ins_by_key[OF assms]
    by (auto simp: sorted_append intro: order.trans less_imp_le)
qed

end

section \<open>The refinement\<close>

text \<open>C2: The pointer lists behave like lists.  If the pointers represent some lists, then inserting
  a free element before a list head appends it, inserting it after the head prepends it,
  removing an element takes it out of whatever list it is on (and does no harm if it is
  on none), the emptiness test is exact, and no other list changes.\<close>

theorem list_code_refines:
  assumes "rings s L" "\<not> linked_in e L"
  shows "rings (rt_list_insert_before (Head h) (Elem e) s) (L(h := L h @ [e])) \<and>
    rings (rt_list_insert_after (Head h) (Elem e) s) (L(h := e # L h)) \<and>
    rings (rt_list_remove (Elem x) s) (\<lambda>g. removeAll x (L g)) \<and>
    (rt_list_isempty (Head h) s \<longleftrightarrow> L h = [])"
  using ptr.rep_back[OF assms] ptr.rep_front[OF assms] ptr.rep_del[OF assms(1)] ptr.rep_empty[OF assms(1)]
  by (simp add: push_back_def push_front_def unlink_def)

theorem list_code_refines_witness:
  "rings (rt_list_insert_after (Head 0) (Elem (7 :: nat)) \<lparr>rl_next = id, rl_prev = id\<rparr>)
    ((\<lambda>_ :: nat. [])(0 := [7]))"
proof -
  have "rings \<lparr>rl_next = id, rl_prev = id\<rparr> (\<lambda>_ :: nat. [] :: nat list)"
    by (simp add: rings_def ring_def exclusive_def linked_in_def)
  moreover have "\<not> linked_in (7 :: nat) (\<lambda>_ :: nat. [])" by (simp add: linked_in_def)
  ultimately show ?thesis using list_code_refines[of _ "\<lambda>_ :: nat. [] :: nat list" 7 0 0] by fastforce
qed

end
