(* ===== verification/Object.thy ===== *)
theory Object
  imports RtList
begin

text \<open>
  The object system of \<^verbatim>\<open>src/object.c\<close>.  Every kernel object carries a name and a
  type byte and is linked into the container of its class.  Objects are named
  by references (which class, which instance); the container lists are the
  abstract lists of \<^verbatim>\<open>RtList\<close>, one head per class number.

  A string is the sequence of its characters before the terminating \<^verbatim>\<open>NUL\<close>; the
  bounded copy into \<^verbatim>\<open>name[RT_NAME_MAX]\<close> keeps at most \<^verbatim>\<open>RT_NAME_MAX\<close> of them,
  and the bounded comparison looks at no more.

  \<^verbatim>\<open>RT_USING_MODULE\<close> is off and no hook is installed in this configuration.  The
  memory of a dynamic object comes from the kernel heap, so the two operations
  that use the heap take the allocator's answer as an argument and record the
  blocks they give back in \<^verbatim>\<open>k_freed\<close>.
\<close>

datatype rt_timer_ref = ThreadTimer nat | UserTimer nat

datatype rt_object_ref =
    ThreadObj nat | SemObj nat | MutexObj nat | EventObj nat | MailBoxObj nat
  | MqObj nat | MemPoolObj nat | DeviceObj nat | TimerObj rt_timer_ref

datatype heap_ref = ObjMem rt_object_ref | StackMem nat | PoolMem rt_object_ref

abbreviation (input) RT_NAME_MAX :: nat where "RT_NAME_MAX \<equiv> 32"
abbreviation (input) RT_Object_Class_Thread :: u8 where "RT_Object_Class_Thread \<equiv> 0"
abbreviation (input) RT_Object_Class_Semaphore :: u8 where "RT_Object_Class_Semaphore \<equiv> 1"
abbreviation (input) RT_Object_Class_Mutex :: u8 where "RT_Object_Class_Mutex \<equiv> 2"
abbreviation (input) RT_Object_Class_Event :: u8 where "RT_Object_Class_Event \<equiv> 3"
abbreviation (input) RT_Object_Class_MailBox :: u8 where "RT_Object_Class_MailBox \<equiv> 4"
abbreviation (input) RT_Object_Class_MessageQueue :: u8 where "RT_Object_Class_MessageQueue \<equiv> 5"
abbreviation (input) RT_Object_Class_MemPool :: u8 where "RT_Object_Class_MemPool \<equiv> 6"
abbreviation (input) RT_Object_Class_Device :: u8 where "RT_Object_Class_Device \<equiv> 7"
abbreviation (input) RT_Object_Class_Timer :: u8 where "RT_Object_Class_Timer \<equiv> 8"
abbreviation (input) RT_Object_Class_Unknown :: u8 where "RT_Object_Class_Unknown \<equiv> 9"
abbreviation (input) RT_Object_Class_Static :: u8 where "RT_Object_Class_Static \<equiv> 0x80"

record kobj =
  obj_type :: "rt_object_ref \<Rightarrow> u8"
  obj_name :: "rt_object_ref \<Rightarrow> string"
  rt_object_container :: "u8 \<Rightarrow> rt_object_ref list"
  k_freed :: "heap_ref list"

definition rt_object_init ::
  "rt_object_ref \<Rightarrow> u8 \<Rightarrow> string \<Rightarrow> 'a kobj_scheme \<Rightarrow> 'a kobj_scheme" where
  "rt_object_init obj ty name k =
    k\<lparr>obj_type := (obj_type k)(obj := ty OR RT_Object_Class_Static),
      obj_name := (obj_name k)(obj := take RT_NAME_MAX name),
      rt_object_container := push_front ty obj (rt_object_container k)\<rparr>"

definition rt_object_detach :: "rt_object_ref \<Rightarrow> 'a kobj_scheme \<Rightarrow> 'a kobj_scheme" where
  "rt_object_detach obj k = k\<lparr>rt_object_container := unlink obj (rt_object_container k)\<rparr>"

definition rt_object_allocate ::
  "rt_object_ref option \<Rightarrow> u8 \<Rightarrow> string \<Rightarrow> 'a kobj_scheme \<Rightarrow> rt_object_ref option \<times> 'a kobj_scheme" where
  "rt_object_allocate malloc_result ty name k =
    (case malloc_result of
       None \<Rightarrow> (None, k)
     | Some obj \<Rightarrow>
        (Some obj, k\<lparr>obj_type := (obj_type k)(obj := ty),
                    obj_name := (obj_name k)(obj := take RT_NAME_MAX name),
                    rt_object_container := push_front ty obj (rt_object_container k)\<rparr>))"

definition rt_object_delete :: "rt_object_ref \<Rightarrow> 'a kobj_scheme \<Rightarrow> 'a kobj_scheme" where
  "rt_object_delete obj k =
    k\<lparr>rt_object_container := unlink obj (rt_object_container k),
      k_freed := ObjMem obj # k_freed k\<rparr>"

definition rt_object_is_systemobject :: "rt_object_ref \<Rightarrow> 'a kobj_scheme \<Rightarrow> bool" where
  "rt_object_is_systemobject obj k \<longleftrightarrow> obj_type k obj AND RT_Object_Class_Static \<noteq> 0"

text \<open>The search loop of \<^verbatim>\<open>rt_object_find\<close> and \<^verbatim>\<open>rt_thread_find\<close>: the first object
  of the list whose name agrees in its first \<^verbatim>\<open>RT_NAME_MAX\<close> characters.\<close>

fun find_by_name ::
  "(rt_object_ref \<Rightarrow> string) \<Rightarrow> string \<Rightarrow> rt_object_ref list \<Rightarrow> rt_object_ref option" where
  "find_by_name nm name [] = None"
| "find_by_name nm name (obj # objs) =
    (if take RT_NAME_MAX (nm obj) = take RT_NAME_MAX name then Some obj
     else find_by_name nm name objs)"

lemma find_by_name_iff:
  "find_by_name nm name objs = Some obj \<longleftrightarrow>
    (\<exists>as bs. objs = as @ obj # bs \<and> take RT_NAME_MAX (nm obj) = take RT_NAME_MAX name \<and>
      (\<forall>a \<in> set as. take RT_NAME_MAX (nm a) \<noteq> take RT_NAME_MAX name))"
proof (induction objs)
  case (Cons x objs)
  show ?case
  proof (cases "take RT_NAME_MAX (nm x) = take RT_NAME_MAX name")
    case True
    then show ?thesis by (auto simp: Cons_eq_append_conv)
  next
    case False
    have "(\<exists>as bs. x # objs = as @ obj # bs \<and> P obj \<and> (\<forall>a \<in> set as. \<not> P a)) \<longleftrightarrow>
          (\<exists>as bs. objs = as @ obj # bs \<and> P obj \<and> (\<forall>a \<in> set as. \<not> P a))" if "\<not> P x" for P
      using that by (auto simp: Cons_eq_append_conv) (metis set_ConsD)
    from this[of "\<lambda>y. take RT_NAME_MAX (nm y) = take RT_NAME_MAX name"] False Cons.IH
    show ?thesis by simp
  qed
qed simp

lemma find_by_name_None_iff:
  "find_by_name nm name objs = None \<longleftrightarrow>
    (\<forall>y \<in> set objs. take RT_NAME_MAX (nm y) \<noteq> take RT_NAME_MAX name)"
  by (induction objs) auto

text \<open>An object that is on no list may be registered; afterwards it is found by
  its own name, and detaching it restores the containers.\<close>

lemma find_after_init:
  "find_by_name (obj_name (rt_object_init obj ty name k)) name
     (rt_object_container (rt_object_init obj ty name k) ty) = Some obj"
  by (simp add: rt_object_init_def push_front_def)

lemma detach_after_init:
  assumes "\<not> linked_in obj (rt_object_container k)"
  shows "rt_object_container (rt_object_detach obj (rt_object_init obj ty name k))
    = rt_object_container k"
  using not_linkedD[OF assms]
  by (auto simp: rt_object_detach_def rt_object_init_def unlink_def push_front_def)

lemma systemobject_init:
  "rt_object_is_systemobject obj (rt_object_init obj ty name k)"
proof -
  have "(ty OR 0x80) AND 0x80 = (0x80 :: u8)" by (auto simp: bit_eq_iff bit_simps)
  then show ?thesis by (simp add: rt_object_is_systemobject_def rt_object_init_def)
qed

lemmas object_defs = rt_object_init_def rt_object_detach_def rt_object_allocate_def
  rt_object_delete_def rt_object_is_systemobject_def

end
