(* ===== verification/Timer.thy ===== *)
theory Timer
  imports Object
begin

text \<open>
  The timers of \<^verbatim>\<open>src/timer.c\<close>.  \<^verbatim>\<open>RT_TIMER_SKIP_LIST_LEVEL\<close> is 1 and soft timers
  are off, so all running timers are on the one list \<^verbatim>\<open>rt_timer_list\<close>, ordered by
  the tick at which they are due.  Ticks are 32-bit counters that wrap; order
  is decided by the difference of two ticks being below \<^verbatim>\<open>RT_TICK_MAX / 2\<close>.

  A timer's flag byte is the flag of its object.  The timeout function of a
  timer is determined by its reference (the built-in timer of a thread calls
  \<^verbatim>\<open>rt_thread_timeout\<close> on that thread), so \<^verbatim>\<open>rt_timer_check\<close> takes the dispatch
  of timeout functions as an argument.
\<close>

abbreviation (input) RT_TIMER_FLAG_ACTIVATED :: u8 where "RT_TIMER_FLAG_ACTIVATED \<equiv> 0x1"
abbreviation (input) RT_TIMER_FLAG_PERIODIC :: u8 where "RT_TIMER_FLAG_PERIODIC \<equiv> 0x2"
abbreviation (input) RT_TICK_MAX :: u32 where "RT_TICK_MAX \<equiv> 0xffffffff"
abbreviation (input) HALF_TICK_MAX :: u32 where "HALF_TICK_MAX \<equiv> 0x7fffffff"

record rt_timer =
  tm_flag :: u8
  tm_init_tick :: u32
  tm_timeout_tick :: u32

record ktimer = kobj +
  timers :: "rt_timer_ref \<Rightarrow> rt_timer"
  rt_timer_list :: "rt_timer_ref list"
  random_nr :: u32
  rt_tick :: u32


section \<open>Operations\<close>

definition rt_tick_get :: "'a ktimer_scheme \<Rightarrow> u32" where
  "rt_tick_get k = rt_tick k"

definition rt_tick_set :: "u32 \<Rightarrow> 'a ktimer_scheme \<Rightarrow> 'a ktimer_scheme" where
  "rt_tick_set tick k = k\<lparr>rt_tick := tick\<rparr>"

definition upd_timer ::
  "rt_timer_ref \<Rightarrow> (rt_timer \<Rightarrow> rt_timer) \<Rightarrow> 'a ktimer_scheme \<Rightarrow> 'a ktimer_scheme" where
  "upd_timer r f k = k\<lparr>timers := (timers k)(r := f (timers k r))\<rparr>"

definition rt_timer_remove :: "rt_timer_ref \<Rightarrow> 'a ktimer_scheme \<Rightarrow> 'a ktimer_scheme" where
  "rt_timer_remove r k = k\<lparr>rt_timer_list := removeAll r (rt_timer_list k)\<rparr>"

definition timer_init ::
  "rt_timer_ref \<Rightarrow> u32 \<Rightarrow> u8 \<Rightarrow> 'a ktimer_scheme \<Rightarrow> 'a ktimer_scheme" where
  "timer_init r time flag k =
    upd_timer r (\<lambda>t. t\<lparr>tm_flag := flag AND NOT RT_TIMER_FLAG_ACTIVATED,
                       tm_timeout_tick := 0, tm_init_tick := time\<rparr>) k"

definition rt_timer_init ::
  "rt_timer_ref \<Rightarrow> string \<Rightarrow> u32 \<Rightarrow> u8 \<Rightarrow> 'a ktimer_scheme \<Rightarrow> 'a ktimer_scheme" where
  "rt_timer_init r name time flag k =
    timer_init r time flag (rt_object_init (TimerObj r) RT_Object_Class_Timer name k)"

definition rt_timer_detach :: "rt_timer_ref \<Rightarrow> 'a ktimer_scheme \<Rightarrow> 'a ktimer_scheme" where
  "rt_timer_detach r k = rt_object_detach (TimerObj r) (rt_timer_remove r k)"

definition rt_timer_create ::
  "rt_timer_ref option \<Rightarrow> string \<Rightarrow> u32 \<Rightarrow> u8 \<Rightarrow> 'a ktimer_scheme
    \<Rightarrow> rt_timer_ref option \<times> 'a ktimer_scheme" where
  "rt_timer_create malloc_result name time flag k =
    (case rt_object_allocate (map_option TimerObj malloc_result) RT_Object_Class_Timer name k of
       (Some (TimerObj r), k) \<Rightarrow> (Some r, timer_init r time flag k)
     | (_, k) \<Rightarrow> (None, k))"

definition rt_timer_delete :: "rt_timer_ref \<Rightarrow> 'a ktimer_scheme \<Rightarrow> 'a ktimer_scheme" where
  "rt_timer_delete r k = rt_object_delete (TimerObj r) (rt_timer_remove r k)"

text \<open>The insertion loop of \<^verbatim>\<open>rt_timer_start\<close>: skip timers that are due at the same
  tick, stop before the first one that is due later.\<close>

fun timer_insert :: "(rt_timer_ref \<Rightarrow> u32) \<Rightarrow> rt_timer_ref \<Rightarrow> rt_timer_ref list \<Rightarrow> rt_timer_ref list" where
  "timer_insert tt r [] = [r]"
| "timer_insert tt r (t # ts) =
    (if tt t - tt r = 0 then t # timer_insert tt r ts
     else if tt t - tt r < HALF_TICK_MAX then r # t # ts
     else t # timer_insert tt r ts)"

definition rt_timer_start :: "rt_timer_ref \<Rightarrow> 'a ktimer_scheme \<Rightarrow> int \<times> 'a ktimer_scheme" where
  "rt_timer_start r k =
    (if tm_flag (timers k r) AND RT_TIMER_FLAG_ACTIVATED \<noteq> 0 then (- RT_ERROR, k)
     else
       let k = upd_timer r (\<lambda>t. t\<lparr>tm_timeout_tick := rt_tick_get k + tm_init_tick t\<rparr>) k;
           k = k\<lparr>random_nr := random_nr k + 1,
                 rt_timer_list :=
                   timer_insert (\<lambda>t. tm_timeout_tick (timers k t)) r (rt_timer_list k)\<rparr>
       in (- RT_EOK, upd_timer r (\<lambda>t. t\<lparr>tm_flag := tm_flag t OR RT_TIMER_FLAG_ACTIVATED\<rparr>) k))"

definition rt_timer_stop :: "rt_timer_ref \<Rightarrow> 'a ktimer_scheme \<Rightarrow> int \<times> 'a ktimer_scheme" where
  "rt_timer_stop r k =
    (if tm_flag (timers k r) AND RT_TIMER_FLAG_ACTIVATED = 0 then (- RT_ERROR, k)
     else (RT_EOK, upd_timer r (\<lambda>t. t\<lparr>tm_flag := tm_flag t AND NOT RT_TIMER_FLAG_ACTIVATED\<rparr>)
                     (rt_timer_remove r k)))"

datatype timer_cmd = Timer_Set_Time u32 | Timer_Get_Time | Timer_Set_Oneshot | Timer_Set_Periodic

definition rt_timer_control ::
  "rt_timer_ref \<Rightarrow> timer_cmd \<Rightarrow> 'a ktimer_scheme \<Rightarrow> u32 option \<times> 'a ktimer_scheme" where
  "rt_timer_control r cmd k =
    (case cmd of
       Timer_Get_Time \<Rightarrow> (Some (tm_init_tick (timers k r)), k)
     | Timer_Set_Time t \<Rightarrow> (None, upd_timer r (\<lambda>m. m\<lparr>tm_init_tick := t\<rparr>) k)
     | Timer_Set_Oneshot \<Rightarrow>
         (None, upd_timer r (\<lambda>m. m\<lparr>tm_flag := tm_flag m AND NOT RT_TIMER_FLAG_PERIODIC\<rparr>) k)
     | Timer_Set_Periodic \<Rightarrow>
         (None, upd_timer r (\<lambda>m. m\<lparr>tm_flag := tm_flag m OR RT_TIMER_FLAG_PERIODIC\<rparr>) k))"

definition rt_timer_list_next_timeout :: "'a ktimer_scheme \<Rightarrow> u32" where
  "rt_timer_list_next_timeout k =
    (case rt_timer_list k of [] \<Rightarrow> RT_TICK_MAX | r # _ \<Rightarrow> tm_timeout_tick (timers k r))"

definition rt_system_timer_init :: "'a ktimer_scheme \<Rightarrow> 'a ktimer_scheme" where
  "rt_system_timer_init k = k\<lparr>rt_timer_list := []\<rparr>"

text \<open>One round of the loop of \<^verbatim>\<open>rt_timer_check\<close> for the timer \<open>r\<close> at the head of the
  list, and the loop.  A callback may start timers again, so the loop need not
  end; not ending is the value \<^term>\<open>None\<close>.\<close>

definition timer_fire ::
  "(rt_timer_ref \<Rightarrow> 'a ktimer_scheme \<Rightarrow> 'a ktimer_scheme) \<Rightarrow> rt_timer_ref
    \<Rightarrow> 'a ktimer_scheme \<Rightarrow> 'a ktimer_scheme" where
  "timer_fire timeout_func r k =
    (let k = timeout_func r (rt_timer_remove r k);
         flag = tm_flag (timers k r);
         k' = upd_timer r (\<lambda>t. t\<lparr>tm_flag := tm_flag t AND NOT RT_TIMER_FLAG_ACTIVATED\<rparr>) k
     in if flag AND RT_TIMER_FLAG_PERIODIC \<noteq> 0 \<and> flag AND RT_TIMER_FLAG_ACTIVATED \<noteq> 0
        then snd (rt_timer_start r k')
        else k')"

partial_function (option) rt_timer_check_loop ::
  "(rt_timer_ref \<Rightarrow> 'a ktimer_scheme \<Rightarrow> 'a ktimer_scheme) \<Rightarrow> u32
    \<Rightarrow> 'a ktimer_scheme \<Rightarrow> 'a ktimer_scheme option" where
  [code]: "rt_timer_check_loop timeout_func current_tick k =
    (case rt_timer_list k of
       [] \<Rightarrow> Some k
     | r # _ \<Rightarrow>
        if current_tick - tm_timeout_tick (timers k r) < HALF_TICK_MAX
        then (let k = timer_fire timeout_func r k
              in rt_timer_check_loop timeout_func (rt_tick_get k) k)
        else Some k)"

definition rt_timer_check ::
  "(rt_timer_ref \<Rightarrow> 'a ktimer_scheme \<Rightarrow> 'a ktimer_scheme) \<Rightarrow> 'a ktimer_scheme
    \<Rightarrow> 'a ktimer_scheme option" where
  "rt_timer_check timeout_func k = rt_timer_check_loop timeout_func (rt_tick_get k) k"



section \<open>The order of the timer list\<close>

interpretation tins: ordered_insertion
  "\<lambda>r t. tt t - tt r \<noteq> 0 \<and> tt t - tt r < HALF_TICK_MAX" "timer_insert tt" for tt
  by unfold_locales auto

text \<open>Relative to a tick \<open>b\<close>, the distance to the due tick of a timer.  The list is in
  order at \<open>b\<close> if all distances are below half the tick range and ascending.\<close>

definition due_in :: "(rt_timer_ref \<Rightarrow> u32) \<Rightarrow> u32 \<Rightarrow> rt_timer_ref \<Rightarrow> nat" where
  "due_in tt b r = unat (tt r - b)"

definition timer_order :: "(rt_timer_ref \<Rightarrow> u32) \<Rightarrow> u32 \<Rightarrow> rt_timer_ref list \<Rightarrow> bool" where
  "timer_order tt b rs \<longleftrightarrow> sorted (map (due_in tt b) rs) \<and>
    (\<forall>r \<in> set rs. due_in tt b r < unat HALF_TICK_MAX)"

lemma precedes_due:
  assumes "unat (x - b) < unat HALF_TICK_MAX" "unat (y - b) < unat HALF_TICK_MAX"
  shows "(y - x \<noteq> 0 \<and> y - x < HALF_TICK_MAX) \<longleftrightarrow> unat (x - b) < unat (y - b)"
proof -
  define u v where "u = x - b" and "v = y - b"
  have "y - x = v - u" by (simp add: u_def v_def)
  moreover have "(v - u \<noteq> 0 \<and> v - u < HALF_TICK_MAX) \<longleftrightarrow> unat u < unat v"
    using assms[folded u_def v_def]
    by (auto simp: word_less_nat_alt unat_sub_if_size word_size word_unat_eq_iff split: if_splits)
  ultimately show ?thesis by (simp add: u_def v_def)
qed

lemma timer_order_insert:
  assumes "timer_order tt b rs" "due_in tt b r < unat HALF_TICK_MAX"
  shows "timer_order tt b (timer_insert tt r rs)"
    and "timer_insert tt r rs = filter (\<lambda>t. due_in tt b t \<le> due_in tt b r) rs @ r #
      filter (\<lambda>t. due_in tt b r < due_in tt b t) rs"
proof -
  have p: "\<forall>t \<in> set rs. (tt t - tt r \<noteq> 0 \<and> tt t - tt r < HALF_TICK_MAX)
      \<longleftrightarrow> due_in tt b r < due_in tt b t"
    using assms precedes_due[of "tt r" b] by (auto simp: timer_order_def due_in_def)
  have s: "sorted (map (due_in tt b) rs)" using assms(1) by (simp add: timer_order_def)
  show "timer_order tt b (timer_insert tt r rs)"
    using tins.ins_sorted[OF s p] assms by (auto simp: timer_order_def)
  show "timer_insert tt r rs = filter (\<lambda>t. due_in tt b t \<le> due_in tt b r) rs @ r #
      filter (\<lambda>t. due_in tt b r < due_in tt b t) rs"
    by (rule tins.ins_by_key[OF s p])
qed

text \<open>At the tick after \<open>b\<close>, the test of \<^verbatim>\<open>rt_timer_check\<close> succeeds exactly for the
  timers that were at most one tick away, and the others come one tick closer.\<close>

lemma expired_iff:
  assumes "due_in tt b r < unat HALF_TICK_MAX"
  shows "(b + 1) - tt r < HALF_TICK_MAX \<longleftrightarrow> due_in tt b r \<le> 1"
proof -
  define u where "u = tt r - b"
  have "(b + 1) - tt r = 1 - u" by (simp add: u_def)
  moreover have "1 - u < HALF_TICK_MAX \<longleftrightarrow> unat u \<le> 1"
    using assms[unfolded due_in_def, folded u_def]
    by (auto simp: word_less_nat_alt unat_sub_if_size word_size split: if_splits)
  ultimately show ?thesis by (simp only: due_in_def u_def[symmetric])
qed

lemma due_in_next:
  assumes "0 < due_in tt b r"
  shows "due_in tt (b + 1) r = due_in tt b r - 1"
proof -
  define u where "u = tt r - b"
  have "tt r - (b + 1) = u - 1" by (simp add: u_def)
  moreover have "unat (u - 1) = unat u - 1"
    using assms[unfolded due_in_def, folded u_def] by (simp add: unat_sub_if_size word_size)
  ultimately show ?thesis by (simp only: due_in_def u_def[symmetric])
qed

lemma timer_order_next:
  assumes "timer_order tt b rs" "\<forall>r \<in> set rs. 0 < due_in tt b r"
  shows "timer_order tt (b + 1) rs"
proof -
  have "map (due_in tt (b + 1)) rs = map (\<lambda>n. n - 1) (map (due_in tt b) rs)"
    using assms(2) by (simp add: due_in_next)
  moreover have "sorted (map (\<lambda>n. n - 1) ns)" if "sorted ns" for ns :: "nat list"
    using that by (induction ns) (auto intro: diff_le_mono)
  ultimately have "sorted (map (due_in tt (b + 1)) rs)"
    using assms(1) unfolding timer_order_def by metis
  then show ?thesis using assms by (auto simp: timer_order_def due_in_next)
qed

lemma timer_order_sublist:
  assumes "timer_order tt b rs"
  shows "timer_order tt b (filter P rs)" "timer_order tt b (removeAll r rs)"
proof -
  show *: "timer_order tt b (filter P rs)" for P
    using assms by (auto simp: timer_order_def sorted_map sorted_wrt_filter)
  show "timer_order tt b (removeAll r rs)"
    using *[of "\<lambda>x. r \<noteq> x"] by (simp add: removeAll_filter_not_eq)
qed

lemma timer_order_cong:
  assumes "\<And>r. r \<in> set rs \<Longrightarrow> tt r = tt' r"
  shows "timer_order tt b rs = timer_order tt' b rs"
proof -
  have m: "map (due_in tt b) rs = map (due_in tt' b) rs" using assms by (simp add: due_in_def)
  have "(\<forall>r \<in> set rs. due_in tt b r < n) = (\<forall>r \<in> set rs. due_in tt' b r < n)" for n
    using assms by (simp add: due_in_def)
  then show ?thesis by (simp only: timer_order_def m)
qed


section \<open>Well-formed timers\<close>

abbreviation active :: "'a ktimer_scheme \<Rightarrow> rt_timer_ref \<Rightarrow> bool" where
  "active k r \<equiv> tm_flag (timers k r) AND RT_TIMER_FLAG_ACTIVATED \<noteq> 0"

abbreviation periodic :: "'a ktimer_scheme \<Rightarrow> rt_timer_ref \<Rightarrow> bool" where
  "periodic k r \<equiv> tm_flag (timers k r) AND RT_TIMER_FLAG_PERIODIC \<noteq> 0"

abbreviation timeout_of :: "'a ktimer_scheme \<Rightarrow> rt_timer_ref \<Rightarrow> u32" where
  "timeout_of k r \<equiv> tm_timeout_tick (timers k r)"

text \<open>A running timer is on the list once and carries the activated flag, so it
  cannot be started a second time; the list is in order at the tick \<open>b\<close>.\<close>

definition timers_wf :: "u32 \<Rightarrow> 'a ktimer_scheme \<Rightarrow> bool" where
  "timers_wf b k \<longleftrightarrow> distinct (rt_timer_list k) \<and> (\<forall>r \<in> set (rt_timer_list k). active k r) \<and>
    timer_order (timeout_of k) b (rt_timer_list k)"

lemma flag_bits [simp]:
  fixes f :: u8
  shows "(f AND - 2) AND 1 = 0" "(f AND - 3) AND 1 = f AND 1" "(f OR 2) AND 1 = f AND 1"
    "(f AND - 2) AND 2 = f AND 2" "(f OR 1) AND 2 = f AND 2"
    "(f AND - 3) AND 2 = 0" "(f OR 2) AND 2 = 2"
proof -
  have "(- 2 :: u8) = NOT 1" "(- 3 :: u8) = NOT 2" by simp_all
  then show "(f AND - 2) AND 1 = 0" "(f AND - 3) AND 1 = f AND 1" "(f OR 2) AND 1 = f AND 1"
    "(f AND - 2) AND 2 = f AND 2" "(f OR 1) AND 2 = f AND 2"
    "(f AND - 3) AND 2 = 0" "(f OR 2) AND 2 = 2"
    by (auto simp: bit_eq_iff bit_simps)
qed

lemma timers_wf_remove:
  assumes "timers_wf b k"
  shows "timers_wf b (rt_timer_remove r k)"
  using assms timer_order_sublist(2)
  by (auto simp: timers_wf_def rt_timer_remove_def distinct_removeAll)

lemma timers_wf_cong:
  assumes "rt_timer_list k' = rt_timer_list k"
    "\<And>r. r \<in> set (rt_timer_list k) \<Longrightarrow> timers k' r = timers k r"
  shows "timers_wf b k' = timers_wf b k"
proof -
  have "timer_order (timeout_of k') b (rt_timer_list k) = timer_order (timeout_of k) b (rt_timer_list k)"
    by (rule timer_order_cong) (simp add: assms)
  then show ?thesis using assms by (auto simp: timers_wf_def)
qed

lemma timers_wf_upd_other:
  assumes "timers_wf b k" "r \<notin> set (rt_timer_list k)"
  shows "timers_wf b (upd_timer r f k)"
proof -
  have "timers_wf b (upd_timer r f k) = timers_wf b k"
    by (rule timers_wf_cong) (use assms(2) in \<open>auto simp: upd_timer_def\<close>)
  then show ?thesis using assms(1) by simp
qed

text \<open>What starting a stopped timer writes.\<close>

definition due_tick :: "'a ktimer_scheme \<Rightarrow> rt_timer_ref \<Rightarrow> u32" where
  "due_tick k r = rt_tick k + tm_init_tick (timers k r)"

lemma rt_timer_start_stopped:
  assumes "\<not> active k r"
  shows "rt_timer_start r k = (RT_EOK, k\<lparr>random_nr := random_nr k + 1,
    rt_timer_list := timer_insert ((timeout_of k)(r := due_tick k r)) r (rt_timer_list k),
    timers := (timers k)(r := (timers k r)\<lparr>tm_timeout_tick := due_tick k r,
      tm_flag := tm_flag (timers k r) OR RT_TIMER_FLAG_ACTIVATED\<rparr>)\<rparr>)"
proof -
  have "(\<lambda>t. tm_timeout_tick (if t = r then x else timers k t)) = (timeout_of k)(r := tm_timeout_tick x)" for x
    by auto
  then show ?thesis using assms
    by (simp add: rt_timer_start_def upd_timer_def Let_def rt_tick_get_def due_tick_def)
qed

text \<open>Starting a stopped timer puts it, once, behind all timers due no later than it
  and in front of all timers due after it.\<close>

lemma rt_timer_start_wf:
  assumes "timers_wf b k" "\<not> active k r" "unat (due_tick k r - b) < unat HALF_TICK_MAX"
  shows "timers_wf b (snd (rt_timer_start r k))"
proof -
  let ?tt = "(timeout_of k)(r := due_tick k r)"
  have nin: "r \<notin> set (rt_timer_list k)" using assms(1,2) by (auto simp: timers_wf_def)
  have o: "timer_order (timeout_of k) b (rt_timer_list k)" using assms(1) by (simp add: timers_wf_def)
  have "timer_order ?tt b (rt_timer_list k)"
    by (subst timer_order_cong[of _ _ "timeout_of k"]) (use nin o in auto)
  then have ord: "timer_order ?tt b (timer_insert ?tt r (rt_timer_list k))"
    using assms(3) by (intro timer_order_insert) (auto simp: due_in_def)
  let ?k = "snd (rt_timer_start r k)"
  have "rt_timer_list ?k = timer_insert ?tt r (rt_timer_list k)" "timeout_of ?k = ?tt"
    "active ?k x \<longleftrightarrow> x = r \<or> active k x" for x
    by (auto simp: rt_timer_start_stopped[OF assms(2)])
  then show ?thesis using ord nin assms(1) by (simp add: timers_wf_def)
qed

lemma rt_timer_stop_wf: "timers_wf b k \<Longrightarrow> timers_wf b (snd (rt_timer_stop r k))"
  unfolding rt_timer_stop_def
  by (auto intro!: timers_wf_upd_other timers_wf_remove) (simp add: rt_timer_remove_def)

lemma rt_timer_detach_wf: "timers_wf b k \<Longrightarrow> timers_wf b (rt_timer_detach r k)"
  using timers_wf_remove[of b k r]
  by (subst timers_wf_cong[of _ "rt_timer_remove r k"])
     (auto simp: rt_timer_detach_def rt_object_detach_def)



section \<open>Checking the timers\<close>

text \<open>At the tick after \<open>b\<close> the expired timers are those at most one tick away from
  \<open>b\<close>.  A periodic timer with period 0 would be due again at once, so restarting
  needs a positive period below half the tick range.\<close>

definition expired :: "u32 \<Rightarrow> 'a ktimer_scheme \<Rightarrow> rt_timer_ref list" where
  "expired b k = filter (\<lambda>r. due_in (timeout_of k) b r \<le> 1) (rt_timer_list k)"

definition restartable :: "'a ktimer_scheme \<Rightarrow> bool" where
  "restartable k \<longleftrightarrow> (\<forall>r \<in> set (rt_timer_list k). periodic k r \<longrightarrow>
    0 < unat (tm_init_tick (timers k r)) \<and>
    unat (tm_init_tick (timers k r)) + 1 < unat HALF_TICK_MAX)"

text \<open>What \<^verbatim>\<open>rt_timer_check\<close> relies on: the timeout function of every timer in use (the
  predicate \<open>handled\<close>) leaves the timers, their list and the tick alone.
  \<^verbatim>\<open>rt_thread_timeout\<close> is such a function.\<close>

locale timeout_dispatch =
  fixes timeout_func :: "rt_timer_ref \<Rightarrow> 'a ktimer_scheme \<Rightarrow> 'a ktimer_scheme"
    and handled :: "rt_timer_ref \<Rightarrow> bool"
  assumes timers_kept: "handled r \<Longrightarrow> timers (timeout_func r k) = timers k"
    and list_kept: "handled r \<Longrightarrow> rt_timer_list (timeout_func r k) = rt_timer_list k"
    and tick_kept: "handled r \<Longrightarrow> rt_tick (timeout_func r k) = rt_tick k"
begin

lemma fire_oneshot:
  assumes "timers_wf b k" "rt_timer_list k = r # rs" "\<not> periodic k r" "handled r"
  shows "rt_timer_list (timer_fire timeout_func r k) = rs"
    "timers (timer_fire timeout_func r k) = (timers k)(r := (timers k r)\<lparr>tm_flag :=
      tm_flag (timers k r) AND NOT RT_TIMER_FLAG_ACTIVATED\<rparr>)"
    "rt_tick (timer_fire timeout_func r k) = rt_tick k"
  using assms
  by (auto simp: timer_fire_def Let_def upd_timer_def timers_kept list_kept tick_kept
      rt_timer_remove_def timers_wf_def)

lemma fire_periodic:
  assumes "timers_wf b k" "rt_timer_list k = r # rs" "periodic k r" "handled r"
  shows "rt_timer_list (timer_fire timeout_func r k)
      = timer_insert ((timeout_of k)(r := due_tick k r)) r rs"
    "timers (timer_fire timeout_func r k) = (timers k)(r := (timers k r)\<lparr>
      tm_timeout_tick := due_tick k r,
      tm_flag := tm_flag (timers k r) AND NOT RT_TIMER_FLAG_ACTIVATED OR RT_TIMER_FLAG_ACTIVATED\<rparr>)"
    "rt_tick (timer_fire timeout_func r k) = rt_tick k"
proof -
  have act: "active k r" and nin: "r \<notin> set rs" using assms(1,2) by (auto simp: timers_wf_def)
  define k1 where "k1 = upd_timer r (\<lambda>t. t\<lparr>tm_flag := tm_flag t AND NOT RT_TIMER_FLAG_ACTIVATED\<rparr>)
    (timeout_func r (rt_timer_remove r k))"
  have k: "timers k1 = (timers k)(r := (timers k r)\<lparr>tm_flag :=
      tm_flag (timers k r) AND NOT RT_TIMER_FLAG_ACTIVATED\<rparr>)"
    "rt_timer_list k1 = rs" "rt_tick k1 = rt_tick k"
    using assms(2,4) nin
    by (auto simp: k1_def upd_timer_def timers_kept list_kept tick_kept rt_timer_remove_def)
  have fire: "timer_fire timeout_func r k = snd (rt_timer_start r k1)"
    using act assms(3,4) by (simp add: timer_fire_def Let_def timers_kept rt_timer_remove_def k1_def)
  have start: "\<not> active k1 r" by (simp add: k)
  have "(timeout_of k1)(r := due_tick k1 r) = (timeout_of k)(r := due_tick k r)"
    "due_tick k1 r = due_tick k r" by (auto simp: due_tick_def k)
  then show "rt_timer_list (timer_fire timeout_func r k)
      = timer_insert ((timeout_of k)(r := due_tick k r)) r rs"
    "timers (timer_fire timeout_func r k) = (timers k)(r := (timers k r)\<lparr>
      tm_timeout_tick := due_tick k r,
      tm_flag := tm_flag (timers k r) AND NOT RT_TIMER_FLAG_ACTIVATED OR RT_TIMER_FLAG_ACTIVATED\<rparr>)"
    "rt_tick (timer_fire timeout_func r k) = rt_tick k"
    by (simp_all only: fire rt_timer_start_stopped[OF start]) (simp_all add: k)
qed

text \<open>One round of the loop keeps the list in order at \<open>b\<close> and removes exactly the
  timer it fires from the expired ones.\<close>

lemma fire_wf:
  assumes "timers_wf b k" "rt_timer_list k = r # rs" "rt_tick k = b + 1" "restartable k"
    "due_in (timeout_of k) b r \<le> 1" "\<forall>x \<in> set (rt_timer_list k). handled x"
  defines "k' \<equiv> timer_fire timeout_func r k"
  shows "timers_wf b k'" "expired b k' = tl (expired b k)" "restartable k'" "rt_tick k' = b + 1"
    "\<forall>x \<in> set (rt_timer_list k'). handled x"
proof -
  have hr: "handled r" using assms(2,6) by simp
  have nin: "r \<notin> set rs" using assms(1,2) by (auto simp: timers_wf_def)
  have rem: "timers_wf b (rt_timer_remove r k)" by (rule timers_wf_remove[OF assms(1)])
  have "timers_wf b k' \<and> expired b k' = tl (expired b k) \<and> restartable k' \<and> rt_tick k' = b + 1 \<and>
    (\<forall>x \<in> set (rt_timer_list k'). handled x)"
  proof (cases "periodic k r")
    case False
    note f = fire_oneshot[OF assms(1,2) False hr, folded k'_def]
    have "timers_wf b k' = timers_wf b (rt_timer_remove r k)"
      using nin assms(2) by (intro timers_wf_cong) (auto simp: f rt_timer_remove_def)
    moreover have "expired b k' = tl (expired b k)"
      using nin assms(2,5) by (auto simp: expired_def f due_in_def intro!: filter_cong)
    moreover have "restartable k'" using nin assms(2,4) by (auto simp: restartable_def f)
    ultimately show ?thesis using rem f(1,3) assms(2,3,6) by simp
  next
    case True
    let ?tt = "(timeout_of k)(r := due_tick k r)"
    note f = fire_periodic[OF assms(1,2) True hr, folded k'_def]
    have init: "0 < unat (tm_init_tick (timers k r))"
      "unat (tm_init_tick (timers k r)) + 1 < unat HALF_TICK_MAX"
      using assms(2,4) True by (auto simp: restartable_def)
    have due: "due_in ?tt b r = unat (tm_init_tick (timers k r)) + 1"
      using init(2) by (simp add: due_in_def due_tick_def assms(3) unat_word_ariths)
    have tt: "timeout_of k' = ?tt" by (auto simp: f)
    have "timer_order (timeout_of k) b rs"
      using rem assms(2) nin by (simp add: timers_wf_def rt_timer_remove_def)
    then have "timer_order ?tt b rs"
      by (subst timer_order_cong[of _ _ "timeout_of k"]) (use nin in auto)
    then have "timer_order ?tt b (timer_insert ?tt r rs)"
      using init(2) due by (intro timer_order_insert) auto
    then have "timers_wf b k'" using nin assms(1,2) unfolding timers_wf_def tt
      by (auto simp: f)
    moreover have "expired b k' = tl (expired b k)"
    proof -
      have "expired b k' = filter (\<lambda>x. due_in ?tt b x \<le> 1) rs"
        unfolding expired_def tt f(1) by (rule tins.filter_ins) (use init due in simp)
      also have "\<dots> = filter (\<lambda>x. due_in (timeout_of k) b x \<le> 1) rs"
        using nin by (auto simp: due_in_def intro!: filter_cong)
      finally show ?thesis using assms(2,5) by (simp add: expired_def)
    qed
    moreover have "restartable k'" using nin assms(2,4) by (auto simp: restartable_def f)
    ultimately show ?thesis using f(1,3) assms(2,3,6) by simp
  qed
  then show "timers_wf b k'" "expired b k' = tl (expired b k)" "restartable k'" "rt_tick k' = b + 1"
    "\<forall>x \<in> set (rt_timer_list k'). handled x" by auto
qed

lemma expired_head:
  assumes "timers_wf b k" "rt_timer_list k = r # rs"
  shows "expired b k = [] \<longleftrightarrow> \<not> due_in (timeout_of k) b r \<le> 1"
  using assms by (auto simp: expired_def timers_wf_def timer_order_def filter_empty_conv)

lemma check_loop:
  assumes "timers_wf b k" "rt_tick k = b + 1" "restartable k"
    "\<forall>x \<in> set (rt_timer_list k). handled x"
  defines "k' \<equiv> fold (timer_fire timeout_func) (expired b k) k"
  shows "rt_timer_check_loop timeout_func (b + 1) k = Some k' \<and>
    timers_wf b k' \<and> expired b k' = [] \<and> rt_tick k' = b + 1"
  unfolding k'_def using assms(1-4)
proof (induction "length (expired b k)" arbitrary: k)
  case 0
  then have e: "expired b k = []" by simp
  have "rt_timer_check_loop timeout_func (b + 1) k = Some k"
  proof (cases "rt_timer_list k")
    case (Cons r rs)
    then have "due_in (timeout_of k) b r < unat HALF_TICK_MAX"
      using 0 by (auto simp: timers_wf_def timer_order_def)
    from expired_iff[OF this] Cons show ?thesis
      using expired_head[OF 0(2) Cons] e by (subst rt_timer_check_loop.simps) simp
  qed (subst rt_timer_check_loop.simps, simp)
  then show ?case using 0 e by simp
next
  case (Suc n)
  then obtain r rs where l: "rt_timer_list k = r # rs"
    by (cases "rt_timer_list k") (auto simp: expired_def)
  have d: "due_in (timeout_of k) b r \<le> 1" using expired_head[OF Suc(3) l] Suc(2) by auto
  have "due_in (timeout_of k) b r < unat HALF_TICK_MAX"
    using Suc(3) l by (auto simp: timers_wf_def timer_order_def)
  from expired_iff[OF this] d have fires: "(b + 1) - timeout_of k r < HALF_TICK_MAX" by simp
  note f = fire_wf[OF Suc(3) l Suc(4,5) d Suc(6)]
  have e: "expired b k = r # expired b (timer_fire timeout_func r k)"
    unfolding f(2) using l d by (simp add: expired_def)
  have "rt_timer_check_loop timeout_func (b + 1) k =
    rt_timer_check_loop timeout_func (b + 1) (timer_fire timeout_func r k)"
    using fires l f(4) by (subst rt_timer_check_loop.simps) (simp add: rt_tick_get_def)
  then show ?case using Suc(1)[OF _ f(1,4,3,5)] Suc(2) e by simp
qed

text \<open>What holds before the check and is kept by firing the first timer of the list
  while it is expired also holds after the check.\<close>

lemma check_induct:
  assumes "timers_wf b k" "rt_tick k = b + 1" "restartable k"
    "\<forall>x \<in> set (rt_timer_list k). handled x" "P k"
    "\<And>k r rs. P k \<Longrightarrow> timers_wf b k \<Longrightarrow> rt_timer_list k = r # rs \<Longrightarrow> handled r \<Longrightarrow>
      expired b k = r # expired b (timer_fire timeout_func r k) \<Longrightarrow> P (timer_fire timeout_func r k)"
  shows "P (fold (timer_fire timeout_func) (expired b k) k)"
  using assms(1-5)
proof (induction "length (expired b k)" arbitrary: k)
  case (Suc n)
  then obtain r rs where l: "rt_timer_list k = r # rs"
    by (cases "rt_timer_list k") (auto simp: expired_def)
  have d: "due_in (timeout_of k) b r \<le> 1" using expired_head[OF Suc(3) l] Suc(2) by auto
  note f = fire_wf[OF Suc(3) l Suc(4,5) d Suc(6)]
  have e: "expired b k = r # expired b (timer_fire timeout_func r k)"
    unfolding f(2) using l d by (simp add: expired_def)
  have "P (timer_fire timeout_func r k)" using assms(6)[OF Suc(7,3) l _ e] Suc(6) l by simp
  then show ?case using Suc(1)[OF _ f(1,4,3,5)] Suc(2) e by simp
qed simp

text \<open>The timer check at tick \<open>b + 1\<close>: the loop ends, it has fired each expired
  timer once and in the order of the list, and no expired timer is left.\<close>

lemma check_fires:
  assumes "timers_wf b k" "rt_tick k = b + 1" "restartable k"
    "\<forall>x \<in> set (rt_timer_list k). handled x"
  obtains k' where "rt_timer_check timeout_func k = Some k'"
    "k' = fold (timer_fire timeout_func) (expired b k) k"
    "timers_wf (b + 1) k'" "expired b k' = []" "rt_tick k' = b + 1"
proof -
  let ?k = "fold (timer_fire timeout_func) (expired b k) k"
  note l = check_loop[OF assms]
  have "\<forall>r \<in> set (rt_timer_list ?k). 0 < due_in (timeout_of ?k) b r"
    using l by (auto simp: expired_def filter_empty_conv Suc_le_eq not_le)
  then have "timers_wf (b + 1) ?k" using l by (auto simp: timers_wf_def timer_order_next)
  then show ?thesis using that[of ?k] l assms(2) by (simp add: rt_timer_check_def rt_tick_get_def)
qed

end

end
