(* ===== verification/KService.thy ===== *)
theory KService
  imports Prelude
begin

text \<open>
  The kernel service library \<^verbatim>\<open>src/kservice.c\<close>: the find-first-set routine the
  scheduler indexes its ready table with, and the memory and string primitives.
\<close>


section \<open>Find first set\<close>

definition lowest_bit_bitmap :: "nat list" where
  "lowest_bit_bitmap =
    [0, 0, 1, 0, 2, 0, 1, 0, 3, 0, 1, 0, 2, 0, 1, 0,
     4, 0, 1, 0, 2, 0, 1, 0, 3, 0, 1, 0, 2, 0, 1, 0,
     5, 0, 1, 0, 2, 0, 1, 0, 3, 0, 1, 0, 2, 0, 1, 0,
     4, 0, 1, 0, 2, 0, 1, 0, 3, 0, 1, 0, 2, 0, 1, 0,
     6, 0, 1, 0, 2, 0, 1, 0, 3, 0, 1, 0, 2, 0, 1, 0,
     4, 0, 1, 0, 2, 0, 1, 0, 3, 0, 1, 0, 2, 0, 1, 0,
     5, 0, 1, 0, 2, 0, 1, 0, 3, 0, 1, 0, 2, 0, 1, 0,
     4, 0, 1, 0, 2, 0, 1, 0, 3, 0, 1, 0, 2, 0, 1, 0,
     7, 0, 1, 0, 2, 0, 1, 0, 3, 0, 1, 0, 2, 0, 1, 0,
     4, 0, 1, 0, 2, 0, 1, 0, 3, 0, 1, 0, 2, 0, 1, 0,
     5, 0, 1, 0, 2, 0, 1, 0, 3, 0, 1, 0, 2, 0, 1, 0,
     4, 0, 1, 0, 2, 0, 1, 0, 3, 0, 1, 0, 2, 0, 1, 0,
     6, 0, 1, 0, 2, 0, 1, 0, 3, 0, 1, 0, 2, 0, 1, 0,
     4, 0, 1, 0, 2, 0, 1, 0, 3, 0, 1, 0, 2, 0, 1, 0,
     5, 0, 1, 0, 2, 0, 1, 0, 3, 0, 1, 0, 2, 0, 1, 0,
     4, 0, 1, 0, 2, 0, 1, 0, 3, 0, 1, 0, 2, 0, 1, 0]"

definition rt_ffs :: "u32 \<Rightarrow> nat" where
  "rt_ffs value =
    (if value = 0 then 0
     else if value AND 0xff \<noteq> 0 then lowest_bit_bitmap ! unat (value AND 0xff) + 1
     else if value AND 0xff00 \<noteq> 0
       then lowest_bit_bitmap ! unat (drop_bit 8 (value AND 0xff00)) + 9
     else if value AND 0xff0000 \<noteq> 0
       then lowest_bit_bitmap ! unat (drop_bit 16 (value AND 0xff0000)) + 17
     else lowest_bit_bitmap ! unat (drop_bit 24 (value AND 0xff000000)) + 25)"

fun lowest_set :: "nat \<Rightarrow> nat \<Rightarrow> nat" where
  "lowest_set 0 n = 0"
| "lowest_set (Suc k) n = (if odd n then 0 else Suc (lowest_set k (n div 2)))"

lemma lowest_set_bit:
  assumes "0 < n" "n < 2 ^ k"
  shows "bit n (lowest_set k n) \<and> (\<forall>i < lowest_set k n. \<not> bit n i)"
  using assms
proof (induction k arbitrary: n)
  case (Suc k)
  show ?case
  proof (cases "odd n")
    case True then show ?thesis by (simp add: bit_0)
  next
    case False
    then have "0 < n div 2" "n div 2 < 2 ^ k" using Suc.prems by (auto elim: evenE)
    from Suc.IH[OF this] False show ?thesis
      by (auto simp: bit_Suc less_Suc_eq_0_disj bit_0)
  qed
qed simp

lemma bitmap_lowest_set: "tl lowest_bit_bitmap = map (lowest_set 8) [1..<256]"
  by code_simp

lemma bitmap_nth:
  assumes "0 < n" "n < 256"
  shows "lowest_bit_bitmap ! n = lowest_set 8 n"
proof -
  have "lowest_bit_bitmap ! n = tl lowest_bit_bitmap ! (n - 1)"
    using assms by (simp add: lowest_bit_bitmap_def nth_tl)
  then show ?thesis using assms by (simp add: bitmap_lowest_set)
qed

text \<open>One byte of the argument: if the \<open>8\<close> bits from position \<open>k\<close> on are not all
  zero, the table entry of that byte locates the lowest of them.\<close>

lemma bitmap_byte:
  fixes v :: u32
  assumes "k + 8 \<le> 32" "take_bit 8 (drop_bit k v) \<noteq> 0"
  defines "p \<equiv> lowest_bit_bitmap ! unat (take_bit 8 (drop_bit k v))"
  shows "bit v (k + p) \<and> (\<forall>i. k \<le> i \<longrightarrow> i < k + p \<longrightarrow> \<not> bit v i)"
proof -
  let ?n = "unat (take_bit 8 (drop_bit k v))"
  have lt: "?n < 256" using take_bit_nat_less_exp[of 8 "unat (drop_bit k v)"] by (simp add: unsigned_take_bit_eq)
  have pos: "0 < ?n" using assms(2) by (simp add: unat_gt_0)
  have b: "bit ?n i \<longleftrightarrow> i < 8 \<and> bit v (k + i)" for i
    by (auto simp: bit_unsigned_iff bit_take_bit_iff bit_drop_bit_eq)
  have p: "bit ?n p" "\<forall>i < p. \<not> bit ?n i"
    using lowest_set_bit[OF pos, of 8] lt bitmap_nth[OF pos] by (auto simp: p_def)
  have "bit v (k + p)" "p < 8" using p(1) b by auto
  moreover have "\<not> bit v i" if "k \<le> i" "i < k + p" for i
    using p(2) b[of "i - k"] that \<open>p < 8\<close> by auto
  ultimately show ?thesis by blast
qed

lemma byte_masks:
  "(0xff :: u32) = mask 8" "(0xff00 :: u32) = push_bit 8 (mask 8)"
  "(0xff0000 :: u32) = push_bit 16 (mask 8)" "(0xff000000 :: u32) = push_bit 24 (mask 8)"
  by (simp_all add: mask_eq_exp_minus_1 push_bit_eq_mult)

lemma byte_fields:
  fixes v :: u32
  shows "v AND 0xff = take_bit 8 (drop_bit 0 v)"
    and "drop_bit 8 (v AND 0xff00) = take_bit 8 (drop_bit 8 v)"
    and "drop_bit 16 (v AND 0xff0000) = take_bit 8 (drop_bit 16 v)"
    and "drop_bit 24 (v AND 0xff000000) = take_bit 8 (drop_bit 24 v)"
  unfolding byte_masks by (rule bit_word_eqI; auto simp: bit_simps)+

lemma byte_test_field:
  fixes v :: u32
  assumes "k + 8 \<le> 32"
  shows "v AND push_bit k (mask 8) = 0 \<longleftrightarrow> (\<forall>i. k \<le> i \<longrightarrow> i < k + 8 \<longrightarrow> \<not> bit v i)"
proof -
  have "bit (v AND push_bit k (mask 8)) i \<longleftrightarrow> bit v i \<and> k \<le> i \<and> i < k + 8" for i
    using assms by (auto simp: bit_simps)
  then show ?thesis by (metis bit_0_eq bot_apply bot_bool_def word_nonzero_bit)
qed

lemma byte_test:
  fixes v :: u32
  shows "v AND 0xff = 0 \<longleftrightarrow> (\<forall>i < 8. \<not> bit v i)"
    and "v AND 0xff00 = 0 \<longleftrightarrow> (\<forall>i. 8 \<le> i \<longrightarrow> i < 16 \<longrightarrow> \<not> bit v i)"
    and "v AND 0xff0000 = 0 \<longleftrightarrow> (\<forall>i. 16 \<le> i \<longrightarrow> i < 24 \<longrightarrow> \<not> bit v i)"
  unfolding byte_masks
  using byte_test_field[of 0 v] byte_test_field[of 8 v] byte_test_field[of 16 v] by simp_all

lemma ffs_field:
  fixes v :: u32
  assumes "\<forall>i < k. \<not> bit v i" "k + 8 \<le> 32" "k \<le> j" "j < k + 8" "bit v j"
    "w = take_bit 8 (drop_bit k v)"
  shows "bit v (lowest_bit_bitmap ! unat w + k) \<and>
    (\<forall>i < lowest_bit_bitmap ! unat w + k. \<not> bit v i)"
proof -
  have "bit (take_bit 8 (drop_bit k v)) (j - k)"
    using assms(3-5) by (auto simp: bit_simps)
  then have "take_bit 8 (drop_bit k v) \<noteq> 0" by (auto simp: word_nonzero_bit)
  from bitmap_byte[OF assms(2) this] show ?thesis
    using assms(1) unfolding assms(6) by (metis le_less_linear add.commute)
qed

lemma ffs_case:
  assumes "n = x + Suc k" "bit v (x + k) \<and> (\<forall>i < x + k. \<not> bit (v :: u32) i)"
  shows "0 < n \<and> bit v (n - 1) \<and> (\<forall>i < n - 1. \<not> bit v i)"
  using assms by simp

lemma rt_ffs_bit:
  assumes "v \<noteq> 0"
  shows "0 < rt_ffs v \<and> bit v (rt_ffs v - 1) \<and> (\<forall>i < rt_ffs v - 1. \<not> bit v i)"
proof -
  consider "v AND 0xff \<noteq> 0" | "v AND 0xff = 0" "v AND 0xff00 \<noteq> 0"
    | "v AND 0xff = 0" "v AND 0xff00 = 0" "v AND 0xff0000 \<noteq> 0"
    | "v AND 0xff = 0" "v AND 0xff00 = 0" "v AND 0xff0000 = 0" by blast
  then show ?thesis
  proof cases
    case 1
    then obtain j where "j < 8" "bit v j" by (auto simp: byte_test)
    then show ?thesis by (intro ffs_case[OF _ ffs_field[where j = j, OF _ _ _ _ _ byte_fields(1)]])
       (simp_all only: rt_ffs_def assms 1, simp_all)
  next
    case 2
    then obtain j where "8 \<le> j" "j < 16" "bit v j" by (auto simp: byte_test)
    moreover have "\<forall>i < 8. \<not> bit v i" using 2 by (metis byte_test(1))
    ultimately show ?thesis by (intro ffs_case[OF _ ffs_field[where j = j, OF _ _ _ _ _ byte_fields(2)]])
       (simp_all only: rt_ffs_def assms 2, simp_all)
  next
    case 3
    then obtain j where "16 \<le> j" "j < 24" "bit v j" by (auto simp: byte_test)
    moreover have "\<forall>i < 16. \<not> bit v i" using 3 by (metis byte_test(1,2) not_le)
    ultimately show ?thesis by (intro ffs_case[OF _ ffs_field[where j = j, OF _ _ _ _ _ byte_fields(3)]])
       (simp_all only: rt_ffs_def assms 3, simp_all)
  next
    case 4
    have z: "\<forall>i < 24. \<not> bit v i" using 4 by (metis byte_test(1,2,3) not_le)
    obtain j where j: "bit v j" using assms word_nonzero_bit by blast
    moreover have "24 \<le> j" "j < 32" using z j bit_u32_less by (auto simp: not_less[symmetric])
    ultimately show ?thesis using z by (intro ffs_case[OF _ ffs_field[where j = j, OF _ _ _ _ _ byte_fields(4)]])
       (simp_all only: rt_ffs_def assms 4, simp_all)
  qed
qed

text \<open>Finding the lowest set bit.  For a non-zero word the byte-wise table look-up returns one
  plus the number of the lowest set bit, for zero it returns 0.\<close>

theorem ffs_lowest_bit:
  "rt_ffs 0 = 0 \<and> (v \<noteq> 0 \<longrightarrow> 1 \<le> rt_ffs v \<and> rt_ffs v \<le> 32 \<and> bit v (rt_ffs v - 1) \<and> (\<forall>i < rt_ffs v - 1. \<not> bit v i))"
proof -
  have "rt_ffs v \<le> 32" if "v \<noteq> 0" using rt_ffs_bit[OF that] bit_u32_less[of v "rt_ffs v - 1"] by simp
  then show ?thesis using rt_ffs_bit[of v] by (simp add: rt_ffs_def)
qed

theorem ffs_lowest_bit_witness: "rt_ffs 0x00300400 = 11 \<and> bit (0x00300400 :: u32) 10"
proof -
  have f: "rt_ffs 0x00300400 = 11" by code_simp
  have "(0x00300400 :: u32) \<noteq> 0" by simp
  then show ?thesis using ffs_lowest_bit[of "0x00300400"] f by simp
qed

end
