(* ===== verification/Sched.thy ===== *)
theory Sched
  imports Timer KService
begin

text \<open>
  The scheduler of \<^verbatim>\<open>src/scheduler.c\<close> with the thread control block of
  \<^verbatim>\<open>include/rtdef.h\<close>.  Threads are named by numbers; the list node \<^verbatim>\<open>tlist\<close> of a
  thread can be on one of the lists named by \<open>tlist_head\<close>: the 32 ready queues,
  the defunct list, and the waiting lists of the IPC objects (a mailbox has two).

  Code between \<^verbatim>\<open>rt_hw_interrupt_disable\<close> and \<^verbatim>\<open>rt_hw_interrupt_enable\<close> is one
  atomic step of the model.  What the code cannot survive is recorded in
  \<^verbatim>\<open>k_status\<close>: an index outside the ready table or an entry of an empty queue
  (\<open>Bad_Access\<close>), and the endless loop after a failed stack check
  (\<open>Stack_Overflow\<close>).
\<close>

section \<open>State\<close>

datatype thread_stat = RT_THREAD_INIT | RT_THREAD_READY | RT_THREAD_SUSPEND | RT_THREAD_CLOSE

datatype tlist_head = Ready nat | Defunct | Waiting rt_object_ref | Senders rt_object_ref

datatype kstatus = Alive | Stack_Overflow | Bad_Access

record rt_thread =
  th_sp :: u32
  th_entry :: nat
  th_parameter :: nat
  th_stack_addr :: u32
  th_stack_size :: u16
  th_error :: int
  th_stat :: thread_stat
  current_priority :: u8
  init_priority :: u8
  number_mask :: u32
  event_set :: u32
  event_info :: u8
  th_init_tick :: u32
  remaining_tick :: u32
  th_cleanup :: "nat option"

record kernel = ktimer +
  threads :: "nat \<Rightarrow> rt_thread"
  tlists :: "tlist_head \<Rightarrow> nat list"
  rt_current_thread :: "nat option"
  rt_current_priority :: u8
  rt_thread_ready_priority_group :: u32
  rt_scheduler_lock_nest :: u16
  rt_interrupt_nest :: u8
  k_status :: kstatus

abbreviation (input) RT_THREAD_PRIORITY_MAX :: nat where "RT_THREAD_PRIORITY_MAX \<equiv> 32"

definition upd_thread ::
  "nat \<Rightarrow> (rt_thread \<Rightarrow> rt_thread) \<Rightarrow> 'a kernel_scheme \<Rightarrow> 'a kernel_scheme" where
  "upd_thread t f k = k\<lparr>threads := (threads k)(t := f (threads k t))\<rparr>"


section \<open>Operations\<close>

definition rt_system_scheduler_init :: "'a kernel_scheme \<Rightarrow> 'a kernel_scheme" where
  "rt_system_scheduler_init k =
    k\<lparr>rt_scheduler_lock_nest := 0,
      tlists := (\<lambda>h. case h of Ready p \<Rightarrow> if p < RT_THREAD_PRIORITY_MAX then [] else tlists k h
                             | Defunct \<Rightarrow> [] | _ \<Rightarrow> tlists k h),
      rt_current_priority := of_nat (RT_THREAD_PRIORITY_MAX - 1),
      rt_current_thread := None,
      rt_thread_ready_priority_group := 0\<rparr>"

datatype stack_verdict = Stack_Ok | Stack_Warning | Stack_Overrun

definition rt_scheduler_stack_check :: "rt_thread \<Rightarrow> stack_verdict" where
  "rt_scheduler_stack_check thread =
    (if th_sp thread \<le> th_stack_addr thread \<or>
        th_sp thread > th_stack_addr thread + ucast (th_stack_size thread)
     then Stack_Overrun
     else if th_sp thread \<le> th_stack_addr thread + 32 then Stack_Warning
     else Stack_Ok)"

text \<open>The thread at the head of the queue that the lowest set bit of the ready group
  names.  \<open>None\<close> is an access outside the table or to an empty queue.\<close>

definition highest_ready :: "'a kernel_scheme \<Rightarrow> (nat \<times> nat) option" where
  "highest_ready k =
    (let n = rt_ffs (rt_thread_ready_priority_group k)
     in if n = 0 then None
        else case tlists k (Ready (n - 1)) of [] \<Rightarrow> None | t # _ \<Rightarrow> Some (n - 1, t))"

definition rt_system_scheduler_start :: "'a kernel_scheme \<Rightarrow> 'a kernel_scheme" where
  "rt_system_scheduler_start k =
    (case highest_ready k of
       None \<Rightarrow> k\<lparr>k_status := Bad_Access\<rparr>
     | Some (p, to_thread) \<Rightarrow> k\<lparr>rt_current_thread := Some to_thread\<rparr>)"

definition rt_schedule :: "'a kernel_scheme \<Rightarrow> 'a kernel_scheme" where
  "rt_schedule k =
    (if rt_scheduler_lock_nest k = 0
     then case highest_ready k of
            None \<Rightarrow> k\<lparr>k_status := Bad_Access\<rparr>
          | Some (p, to_thread) \<Rightarrow>
              if Some to_thread \<noteq> rt_current_thread k
              then let k = k\<lparr>rt_current_priority := of_nat p, rt_current_thread := Some to_thread\<rparr>
                   in if rt_scheduler_stack_check (threads k to_thread) = Stack_Overrun
                      then k\<lparr>k_status := Stack_Overflow\<rparr>
                      else k
              else k
     else k)"

definition rt_schedule_insert_thread :: "nat \<Rightarrow> 'a kernel_scheme \<Rightarrow> 'a kernel_scheme" where
  "rt_schedule_insert_thread t k =
    (let k = upd_thread t (\<lambda>th. th\<lparr>th_stat := RT_THREAD_READY\<rparr>) k;
         p = unat (current_priority (threads k t));
         k = (if p < RT_THREAD_PRIORITY_MAX then k else k\<lparr>k_status := Bad_Access\<rparr>);
         k = k\<lparr>tlists := push_back (Ready p) t (tlists k)\<rparr>
     in k\<lparr>rt_thread_ready_priority_group :=
            rt_thread_ready_priority_group k OR number_mask (threads k t)\<rparr>)"

definition rt_schedule_remove_thread :: "nat \<Rightarrow> 'a kernel_scheme \<Rightarrow> 'a kernel_scheme" where
  "rt_schedule_remove_thread t k =
    (let k = k\<lparr>tlists := unlink t (tlists k)\<rparr>
     in if tlists k (Ready (unat (current_priority (threads k t)))) = []
        then k\<lparr>rt_thread_ready_priority_group :=
                 rt_thread_ready_priority_group k AND NOT (number_mask (threads k t))\<rparr>
        else k)"

definition rt_enter_critical :: "'a kernel_scheme \<Rightarrow> 'a kernel_scheme" where
  "rt_enter_critical k = k\<lparr>rt_scheduler_lock_nest := rt_scheduler_lock_nest k + 1\<rparr>"

definition rt_exit_critical :: "'a kernel_scheme \<Rightarrow> 'a kernel_scheme" where
  "rt_exit_critical k =
    (let k = k\<lparr>rt_scheduler_lock_nest := rt_scheduler_lock_nest k - 1\<rparr>
     in if sint (rt_scheduler_lock_nest k) \<le> 0
        then rt_schedule (k\<lparr>rt_scheduler_lock_nest := 0\<rparr>)
        else k)"

definition rt_critical_level :: "'a kernel_scheme \<Rightarrow> u16" where
  "rt_critical_level k = rt_scheduler_lock_nest k"

definition rt_interrupt_enter :: "'a kernel_scheme \<Rightarrow> 'a kernel_scheme" where
  "rt_interrupt_enter k = k\<lparr>rt_interrupt_nest := rt_interrupt_nest k + 1\<rparr>"

definition rt_interrupt_leave :: "'a kernel_scheme \<Rightarrow> 'a kernel_scheme" where
  "rt_interrupt_leave k = k\<lparr>rt_interrupt_nest := rt_interrupt_nest k - 1\<rparr>"

text \<open>\<^verbatim>\<open>rt_object_find\<close> searches with the scheduler locked.  The class test of the code
  lets the number \<^verbatim>\<open>RT_Object_Class_Unknown\<close> through, whose container lies behind
  the end of the array.\<close>

definition rt_object_find ::
  "string option \<Rightarrow> u8 \<Rightarrow> 'a kernel_scheme \<Rightarrow> rt_object_ref option \<times> 'a kernel_scheme" where
  "rt_object_find name ty k =
    (case name of
       None \<Rightarrow> (None, k)
     | Some nm \<Rightarrow>
        if ty > RT_Object_Class_Unknown then (None, k)
        else let k = rt_enter_critical k
             in if ty \<ge> RT_Object_Class_Unknown then (None, k\<lparr>k_status := Bad_Access\<rparr>)
                else (find_by_name (obj_name k) nm (rt_object_container k ty), rt_exit_critical k))"

definition rt_thread_find :: "string \<Rightarrow> 'a kernel_scheme \<Rightarrow> rt_object_ref option \<times> 'a kernel_scheme" where
  "rt_thread_find name k =
    (let k = (if rt_current_thread k \<noteq> None then rt_enter_critical k else k);
         found = find_by_name (obj_name k) name (rt_object_container k RT_Object_Class_Thread)
     in (found, if rt_current_thread k \<noteq> None then rt_exit_critical k else k))"



section \<open>The scheduler invariant\<close>

abbreviation stat_of :: "'a kernel_scheme \<Rightarrow> nat \<Rightarrow> thread_stat" where
  "stat_of k t \<equiv> th_stat (threads k t)"

abbreviation prio_of :: "'a kernel_scheme \<Rightarrow> nat \<Rightarrow> nat" where
  "prio_of k t \<equiv> unat (current_priority (threads k t))"

text \<open>The mask of a thread selects the bit of its priority.\<close>

definition prio_ok :: "rt_thread \<Rightarrow> bool" where
  "prio_ok th \<longleftrightarrow> unat (current_priority th) < RT_THREAD_PRIORITY_MAX \<and>
    number_mask th = push_bit (unat (current_priority th)) 1"

text \<open>The state of a thread tells which list it is on.\<close>

definition thread_inv :: "'a kernel_scheme \<Rightarrow> nat \<Rightarrow> bool" where
  "thread_inv k t \<longleftrightarrow>
    (\<forall>p. t \<in> set (tlists k (Ready p)) \<longleftrightarrow> stat_of k t = RT_THREAD_READY \<and> p = prio_of k t) \<and>
    (t \<in> set (tlists k Defunct) \<longrightarrow> stat_of k t = RT_THREAD_CLOSE) \<and>
    (\<forall>obj. t \<in> set (tlists k (Waiting obj)) \<or> t \<in> set (tlists k (Senders obj))
      \<longrightarrow> stat_of k t = RT_THREAD_SUSPEND) \<and>
    (stat_of k t \<in> {RT_THREAD_READY, RT_THREAD_SUSPEND} \<longrightarrow> prio_ok (threads k t))"

text \<open>\<open>sched_inv S\<close>: no thread is on two lists, the ready group has the bit of exactly
  the non-empty ready queues, and every thread outside \<open>S\<close> is on the list its state
  says.  The threads of \<open>S\<close> are in transition and on no list.\<close>

definition sched_inv :: "nat set \<Rightarrow> 'a kernel_scheme \<Rightarrow> bool" where
  "sched_inv S k \<longleftrightarrow> exclusive (tlists k) \<and>
    (\<forall>p. bit (rt_thread_ready_priority_group k) p \<longleftrightarrow> tlists k (Ready p) \<noteq> []) \<and>
    (\<forall>t \<in> S. \<not> linked_in t (tlists k)) \<and> (\<forall>t. t \<notin> S \<longrightarrow> thread_inv k t)"

lemma sched_inv_cong:
  assumes "tlists k' = tlists k"
    "rt_thread_ready_priority_group k' = rt_thread_ready_priority_group k"
    "\<And>t. t \<notin> S \<Longrightarrow> th_stat (threads k' t) = th_stat (threads k t) \<and>
       current_priority (threads k' t) = current_priority (threads k t) \<and>
       number_mask (threads k' t) = number_mask (threads k t)"
  shows "sched_inv S k' = sched_inv S k"
  using assms by (auto simp: sched_inv_def thread_inv_def prio_ok_def)

lemma sched_inv_upd_thread:
  assumes "sched_inv S k" "t \<in> S"
  shows "sched_inv S (upd_thread t f k)"
proof -
  have "sched_inv S (upd_thread t f k) = sched_inv S k"
    by (rule sched_inv_cong) (use assms(2) in \<open>auto simp: upd_thread_def\<close>)
  then show ?thesis using assms(1) by simp
qed

text \<open>Updates of the other fields of a thread keep the invariant.\<close>

lemma sched_inv_upd_field:
  assumes "sched_inv S k" "\<And>th. th_stat (f th) = th_stat th"
    "\<And>th. current_priority (f th) = current_priority th" "\<And>th. number_mask (f th) = number_mask th"
  shows "sched_inv S (upd_thread t f k)"
proof -
  have "sched_inv S (upd_thread t f k) = sched_inv S k"
    by (rule sched_inv_cong) (use assms in \<open>auto simp: upd_thread_def\<close>)
  then show ?thesis using assms(1) by simp
qed

lemma ready_bit:
  assumes "sched_inv S k"
  shows "rt_thread_ready_priority_group k \<noteq> 0 \<longleftrightarrow> (\<exists>p. tlists k (Ready p) \<noteq> [])"
  using assms by (auto simp: word_nonzero_bit sched_inv_def)

lemma ready_bound: "sched_inv S k \<Longrightarrow> tlists k (Ready p) \<noteq> [] \<Longrightarrow> p < 32"
  using bit_u32_less by (auto simp: sched_inv_def)

text \<open>A thread that was never started may still have the mask 0.\<close>

definition mask_ok :: "rt_thread \<Rightarrow> bool" where
  "mask_ok th \<longleftrightarrow> number_mask th = 0 \<or> number_mask th = push_bit (unat (current_priority th)) 1"

lemma prio_mask_ok [simp, intro]: "prio_ok th \<Longrightarrow> mask_ok th"
  by (simp add: prio_ok_def mask_ok_def)

lemma ready_at_prio:
  assumes "sched_inv S k" "t \<in> set (tlists k (Ready p))"
  shows "p = prio_of k t" "stat_of k t = RT_THREAD_READY" "prio_ok (threads k t)" "t \<notin> S"
proof -
  show "t \<notin> S" using assms by (auto simp: sched_inv_def linked_in_def)
  then show "p = prio_of k t" "stat_of k t = RT_THREAD_READY" "prio_ok (threads k t)"
    using assms by (auto simp: sched_inv_def thread_inv_def)
qed

text \<open>Taking a thread out of whatever list it is on puts it in transition.\<close>

lemma remove_thread_bits:
  assumes "sched_inv S k" "mask_ok (threads k t)"
  defines "k' \<equiv> rt_schedule_remove_thread t k"
  shows "bit (rt_thread_ready_priority_group k') p \<longleftrightarrow> tlists k' (Ready p) \<noteq> []"
proof -
  let ?g = "rt_thread_ready_priority_group k" and ?p = "prio_of k t"
  have L: "tlists k' = unlink t (tlists k)" by (simp add: k'_def rt_schedule_remove_thread_def Let_def)
  have old: "bit ?g p \<longleftrightarrow> tlists k (Ready p) \<noteq> []" for p using assms(1) by (simp add: sched_inv_def)
  have G: "rt_thread_ready_priority_group k' =
    (if tlists k' (Ready ?p) = [] then ?g AND NOT (number_mask (threads k t)) else ?g)"
    by (simp add: k'_def rt_schedule_remove_thread_def Let_def)
  show ?thesis
  proof (cases "p = ?p")
    case False
    then have "t \<notin> set (tlists k (Ready p))" using ready_at_prio(1)[OF assms(1)] by metis
    then have "tlists k' (Ready p) = tlists k (Ready p)" by (simp add: L unlink_def)
    moreover have "bit (?g AND NOT (number_mask (threads k t))) p \<longleftrightarrow> bit ?g p"
      using False assms(2) by (auto simp: mask_ok_def)
    ultimately show ?thesis using old[of p] by (simp add: G)
  next
    case True
    show ?thesis
    proof (cases "tlists k' (Ready ?p) = []")
      case False
      then have "tlists k (Ready ?p) \<noteq> []" by (auto simp: L unlink_def)
      then show ?thesis using False True old[of ?p] by (simp add: G)
    next
      case empty: True
      have "\<not> bit (?g AND NOT (number_mask (threads k t))) ?p"
      proof (cases "t \<in> set (tlists k (Ready ?p))")
        case True
        then show ?thesis using ready_at_prio(3)[OF assms(1) True] by (simp add: prio_ok_def)
      next
        case False
        then have "tlists k (Ready ?p) = []" using empty by (simp add: L unlink_def)
        then show ?thesis using old[of ?p] by (simp add: bit_and_iff)
      qed
      then show ?thesis using empty \<open>p = ?p\<close> by (simp add: G)
    qed
  qed
qed

lemma remove_thread_fields [simp]:
  "threads (rt_schedule_remove_thread t k) = threads k"
  "tlists (rt_schedule_remove_thread t k) = unlink t (tlists k)"
  "timers (rt_schedule_remove_thread t k) = timers k"
  "rt_timer_list (rt_schedule_remove_thread t k) = rt_timer_list k"
  "rt_tick (rt_schedule_remove_thread t k) = rt_tick k"
  "rt_current_thread (rt_schedule_remove_thread t k) = rt_current_thread k"
  "rt_scheduler_lock_nest (rt_schedule_remove_thread t k) = rt_scheduler_lock_nest k"
  "k_status (rt_schedule_remove_thread t k) = k_status k"
  by (simp_all add: rt_schedule_remove_thread_def Let_def)

lemma thread_inv_unlink_other:
  assumes "thread_inv k x" "x \<noteq> t" "threads k' = threads k" "tlists k' = unlink t (tlists k)"
  shows "thread_inv k' x"
  using assms by (auto simp: thread_inv_def unlink_def)

lemma remove_thread_inv:
  assumes "sched_inv S k" "mask_ok (threads k t)"
  shows "sched_inv (insert t S) (rt_schedule_remove_thread t k)"
  unfolding sched_inv_def
proof (intro conjI allI ballI impI)
  show "exclusive (tlists (rt_schedule_remove_thread t k))"
    using assms(1) by (simp add: sched_inv_def)
  show "bit (rt_thread_ready_priority_group (rt_schedule_remove_thread t k)) p \<longleftrightarrow>
    tlists (rt_schedule_remove_thread t k) (Ready p) \<noteq> []" for p
    by (rule remove_thread_bits[OF assms])
  show "\<not> linked_in x (tlists (rt_schedule_remove_thread t k))" if "x \<in> insert t S" for x
    using that assms(1) by (auto simp: sched_inv_def)
  show "thread_inv (rt_schedule_remove_thread t k) x" if "x \<notin> insert t S" for x
  proof -
    have "thread_inv k x" using that assms(1) by (simp add: sched_inv_def)
    then show ?thesis by (rule thread_inv_unlink_other[of _ _ t]) (use that in simp_all)
  qed
qed

text \<open>Appending a thread in transition to the ready queue of its priority ends the
  transition.\<close>

lemma insert_thread_inv:
  assumes "sched_inv S k" "t \<in> S" "prio_ok (threads k t)"
  shows "sched_inv (S - {t}) (rt_schedule_insert_thread t k)"
proof -
  let ?k = "rt_schedule_insert_thread t k" and ?p = "prio_of k t"
  have nl: "\<not> linked_in t (tlists k)" using assms(1,2) by (auto simp: sched_inv_def)
  have p: "?p < 32" "number_mask (threads k t) = push_bit ?p 1" using assms(3) by (auto simp: prio_ok_def)
  have L: "tlists ?k = push_back (Ready ?p) t (tlists k)"
    and T: "threads ?k = (threads k)(t := (threads k t)\<lparr>th_stat := RT_THREAD_READY\<rparr>)"
    and G: "rt_thread_ready_priority_group ?k = rt_thread_ready_priority_group k OR push_bit ?p 1"
    using p by (simp_all add: rt_schedule_insert_thread_def upd_thread_def Let_def)
  show ?thesis unfolding sched_inv_def
  proof (intro conjI allI ballI impI)
    show "exclusive (tlists ?k)" using assms(1) nl by (simp add: L sched_inv_def)
    show "bit (rt_thread_ready_priority_group ?k) q \<longleftrightarrow> tlists ?k (Ready q) \<noteq> []" for q
      using assms(1) p(1) by (auto simp: G L push_back_def sched_inv_def)
    show "\<not> linked_in x (tlists ?k)" if "x \<in> S - {t}" for x
      using that assms(1) by (auto simp: L sched_inv_def)
    show "thread_inv ?k x" if "x \<notin> S - {t}" for x
    proof (cases "x = t")
      case True
      then show ?thesis using not_linkedD[OF nl] assms(3)
        by (auto simp: thread_inv_def L T push_back_def prio_ok_def)
    next
      case False
      then have "thread_inv k x" using that assms(1) by (auto simp: sched_inv_def)
      then show ?thesis using False by (auto simp: thread_inv_def L T push_back_def)
    qed
  qed
qed

lemma insert_thread_fields [simp]:
  "threads (rt_schedule_insert_thread t k) = (threads k)(t := (threads k t)\<lparr>th_stat := RT_THREAD_READY\<rparr>)"
  "tlists (rt_schedule_insert_thread t k) = push_back (Ready (prio_of k t)) t (tlists k)"
  "timers (rt_schedule_insert_thread t k) = timers k"
  "rt_timer_list (rt_schedule_insert_thread t k) = rt_timer_list k"
  "rt_tick (rt_schedule_insert_thread t k) = rt_tick k"
  "rt_current_thread (rt_schedule_insert_thread t k) = rt_current_thread k"
  "rt_scheduler_lock_nest (rt_schedule_insert_thread t k) = rt_scheduler_lock_nest k"
  by (simp_all add: rt_schedule_insert_thread_def Let_def upd_thread_def)

lemma insert_thread_status:
  "prio_ok (threads k t) \<Longrightarrow> k_status (rt_schedule_insert_thread t k) = k_status k"
  by (simp add: rt_schedule_insert_thread_def Let_def upd_thread_def prio_ok_def)

lemma schedule_fields [simp]:
  "threads (rt_schedule k) = threads k"
  "tlists (rt_schedule k) = tlists k"
  "timers (rt_schedule k) = timers k"
  "rt_timer_list (rt_schedule k) = rt_timer_list k"
  "rt_tick (rt_schedule k) = rt_tick k"
  "rt_thread_ready_priority_group (rt_schedule k) = rt_thread_ready_priority_group k"
  "rt_scheduler_lock_nest (rt_schedule k) = rt_scheduler_lock_nest k"
  by (simp_all add: rt_schedule_def Let_def split: option.split)

lemma upd_thread_fields [simp]:
  "threads (upd_thread t f k) = (threads k)(t := f (threads k t))"
  "tlists (upd_thread t f k) = tlists k"
  "timers (upd_thread t f k) = timers k"
  "rt_timer_list (upd_thread t f k) = rt_timer_list k"
  "rt_tick (upd_thread t f k) = rt_tick k"
  "rt_current_thread (upd_thread t f k) = rt_current_thread k"
  "rt_scheduler_lock_nest (upd_thread t f k) = rt_scheduler_lock_nest k"
  "rt_thread_ready_priority_group (upd_thread t f k) = rt_thread_ready_priority_group k"
  "k_status (upd_thread t f k) = k_status k"
  by (simp_all add: upd_thread_def)

lemma schedule_inv [simp]: "sched_inv S (rt_schedule k) = sched_inv S k"
  by (rule sched_inv_cong) simp_all


section \<open>The choice of the scheduler\<close>

text \<open>The ready thread the scheduler has to run: the first of the first non-empty
  queue.\<close>

definition best_ready :: "'a kernel_scheme \<Rightarrow> nat \<Rightarrow> bool" where
  "best_ready k t \<longleftrightarrow> (\<exists>p ts. tlists k (Ready p) = t # ts \<and> (\<forall>q < p. tlists k (Ready q) = []))"

lemma highest_ready_best:
  assumes "sched_inv S k" "tlists k (Ready q) \<noteq> []"
  obtains p t where "highest_ready k = Some (p, t)" "p = prio_of k t" "best_ready k t" "p < 32"
proof -
  let ?g = "rt_thread_ready_priority_group k"
  have b: "bit ?g i \<longleftrightarrow> tlists k (Ready i) \<noteq> []" for i using assms(1) by (simp add: sched_inv_def)
  have "?g \<noteq> 0" using assms b by (metis bit_0_eq bot_apply bot_bool_def)
  note f = rt_ffs_bit[OF this]
  let ?p = "rt_ffs ?g - 1"
  obtain t ts where t: "tlists k (Ready ?p) = t # ts" using f b by (metis neq_Nil_conv)
  have "highest_ready k = Some (?p, t)" using f t by (simp add: highest_ready_def)
  moreover have "best_ready k t" using t f b by (auto simp: best_ready_def)
  moreover have "?p = prio_of k t" using ready_at_prio(1)[OF assms(1), of t ?p] t by simp
  moreover have "?p < 32" using ready_bound[OF assms(1), of ?p] t by simp
  ultimately show ?thesis using that by blast
qed

lemma best_ready_least:
  assumes "sched_inv S k" "best_ready k t" "x \<notin> S" "stat_of k x = RT_THREAD_READY"
  shows "prio_of k t \<le> prio_of k x"
proof (rule ccontr)
  assume "\<not> prio_of k t \<le> prio_of k x"
  moreover obtain p ts where p: "tlists k (Ready p) = t # ts" "\<forall>q < p. tlists k (Ready q) = []"
    using assms(2) by (auto simp: best_ready_def)
  moreover have "p = prio_of k t" using ready_at_prio(1)[OF assms(1), of t p] p by simp
  ultimately have "tlists k (Ready (prio_of k x)) = []" by simp
  moreover have "thread_inv k x" using assms(1,3) by (simp add: sched_inv_def)
  then have "x \<in> set (tlists k (Ready (prio_of k x)))" using assms(4) unfolding thread_inv_def by blast
  ultimately show False by simp
qed

text \<open>Stacks that pass the check.\<close>

definition stack_fine :: "rt_thread \<Rightarrow> bool" where
  "stack_fine th \<longleftrightarrow> rt_scheduler_stack_check th \<noteq> Stack_Overrun"

text \<open>With the scheduler unlocked and some thread ready, \<^verbatim>\<open>rt_schedule\<close> makes the best
  ready thread current and nothing goes wrong.\<close>

lemma schedule_best:
  assumes "sched_inv S k" "rt_scheduler_lock_nest k = 0" "tlists k (Ready q) \<noteq> []"
    "\<And>t. best_ready k t \<Longrightarrow> stack_fine (threads k t)"
  obtains t where "rt_current_thread (rt_schedule k) = Some t" "best_ready k t"
    "k_status (rt_schedule k) = k_status k"
proof -
  obtain p t where "highest_ready k = Some (p, t)" "best_ready k t"
    using highest_ready_best[OF assms(1,3)] by metis
  then show ?thesis using that[of t] assms(2,4)
    by (auto simp: rt_schedule_def stack_fine_def Let_def)
qed

lemma schedule_locked: "rt_scheduler_lock_nest k \<noteq> 0 \<Longrightarrow> rt_schedule k = k"
  by (simp add: rt_schedule_def)

text \<open>Scheduling twice in a row is scheduling once.\<close>

lemma schedule_idem: "rt_schedule (rt_schedule k) = rt_schedule k"
  by (auto simp: rt_schedule_def highest_ready_def Let_def split: option.splits list.splits)

end
