(* ===== verification/Thread.thy ===== *)
theory Thread
  imports Sched
begin

text \<open>
  Threads (\<^verbatim>\<open>src/thread.c\<close>) and the invariant of the kernel that every operation on
  threads keeps.  An operation that ends in a context switch is modelled
  up to and including the switch; what the calling thread does when it runs again
  is the separate definition with the suffix \<^verbatim>\<open>_resumed\<close>.

  The initial stack pointer follows \<^verbatim>\<open>rt_hw_stack_init\<close> of
  \<^verbatim>\<open>libcpu/arm/cortex-m4/cpuport.c\<close>; the frame has 17 words with the FPU in use.
\<close>

section \<open>Operations\<close>

definition rt_hw_stack_init :: "u32 \<Rightarrow> u32" where
  "rt_hw_stack_init stack_addr = ((stack_addr + 4) AND NOT 7) - 68"

definition thread_init ::
  "nat \<Rightarrow> string \<Rightarrow> nat \<Rightarrow> nat \<Rightarrow> u32 \<Rightarrow> u32 \<Rightarrow> u8 \<Rightarrow> u32 \<Rightarrow> 'a kernel_scheme \<Rightarrow> 'a kernel_scheme" where
  "thread_init t name entry parameter stack_start stack_size priority tick k =
    rt_timer_init (ThreadTimer t) (take RT_NAME_MAX name) 0 0
     (upd_thread t (\<lambda>th. th\<lparr>
        th_entry := entry, th_parameter := parameter,
        th_stack_addr := stack_start, th_stack_size := ucast stack_size,
        th_sp := rt_hw_stack_init (stack_start + ucast (ucast stack_size :: u16) - 4),
        init_priority := priority, current_priority := priority,
        th_init_tick := tick, remaining_tick := tick,
        th_error := RT_EOK, th_stat := RT_THREAD_INIT,
        th_cleanup := None\<rparr>) k)"

definition rt_thread_init ::
  "nat \<Rightarrow> string \<Rightarrow> nat \<Rightarrow> nat \<Rightarrow> u32 \<Rightarrow> u32 \<Rightarrow> u8 \<Rightarrow> u32 \<Rightarrow> 'a kernel_scheme \<Rightarrow> 'a kernel_scheme" where
  "rt_thread_init t name entry parameter stack_start stack_size priority tick k =
    thread_init t name entry parameter stack_start stack_size priority tick
      (rt_object_init (ThreadObj t) RT_Object_Class_Thread name k)"

definition rt_thread_self :: "'a kernel_scheme \<Rightarrow> nat option" where
  "rt_thread_self k = rt_current_thread k"

definition rt_thread_suspend :: "nat \<Rightarrow> 'a kernel_scheme \<Rightarrow> int \<times> 'a kernel_scheme" where
  "rt_thread_suspend t k =
    (if stat_of k t \<noteq> RT_THREAD_READY then (- RT_ERROR, k)
     else (RT_EOK, rt_schedule_remove_thread t
                     (upd_thread t (\<lambda>th. th\<lparr>th_stat := RT_THREAD_SUSPEND\<rparr>) k)))"

definition rt_thread_resume :: "nat \<Rightarrow> 'a kernel_scheme \<Rightarrow> int \<times> 'a kernel_scheme" where
  "rt_thread_resume t k =
    (if stat_of k t \<noteq> RT_THREAD_SUSPEND then (- RT_ERROR, k)
     else let k = k\<lparr>tlists := unlink t (tlists k)\<rparr>;
              k = snd (rt_timer_stop (ThreadTimer t) k)
          in (RT_EOK, rt_schedule_insert_thread t k))"

definition rt_thread_startup :: "nat \<Rightarrow> 'a kernel_scheme \<Rightarrow> 'a kernel_scheme" where
  "rt_thread_startup t k =
    (let k = upd_thread t (\<lambda>th. th\<lparr>current_priority := init_priority th\<rparr>) k;
         k = upd_thread t (\<lambda>th. th\<lparr>number_mask := push_bit (unat (current_priority th)) 1\<rparr>) k;
         k = upd_thread t (\<lambda>th. th\<lparr>th_stat := RT_THREAD_SUSPEND\<rparr>) k;
         k = snd (rt_thread_resume t k)
     in if rt_thread_self k \<noteq> None then rt_schedule k else k)"

definition insert_defunct :: "nat \<Rightarrow> 'a kernel_scheme \<Rightarrow> 'a kernel_scheme" where
  "insert_defunct t k = k\<lparr>tlists := push_front Defunct t (tlists k)\<rparr>"

definition rt_thread_detach :: "nat \<Rightarrow> 'a kernel_scheme \<Rightarrow> 'a kernel_scheme" where
  "rt_thread_detach t k =
    (let k = rt_schedule_remove_thread t k;
         k = rt_timer_detach (ThreadTimer t) k;
         k = upd_thread t (\<lambda>th. th\<lparr>th_stat := RT_THREAD_CLOSE\<rparr>) k;
         k = rt_object_detach (ThreadObj t) k
     in if th_cleanup (threads k t) \<noteq> None then insert_defunct t k else k)"

definition rt_thread_create ::
  "nat option \<Rightarrow> u32 option \<Rightarrow> string \<Rightarrow> nat \<Rightarrow> nat \<Rightarrow> u32 \<Rightarrow> u8 \<Rightarrow> u32
    \<Rightarrow> 'a kernel_scheme \<Rightarrow> nat option \<times> 'a kernel_scheme" where
  "rt_thread_create malloc_thread malloc_stack name entry parameter stack_size priority tick k =
    (case rt_object_allocate (map_option ThreadObj malloc_thread) RT_Object_Class_Thread name k of
       (Some (ThreadObj t), k) \<Rightarrow>
         (case malloc_stack of
            None \<Rightarrow> (None, rt_object_delete (ThreadObj t) k)
          | Some stack_start \<Rightarrow>
              (Some t, thread_init t name entry parameter stack_start stack_size priority tick k))
     | (_, k) \<Rightarrow> (None, k))"

definition rt_thread_delete :: "nat \<Rightarrow> 'a kernel_scheme \<Rightarrow> 'a kernel_scheme" where
  "rt_thread_delete t k =
    (let k = rt_schedule_remove_thread t k;
         k = rt_timer_detach (ThreadTimer t) k;
         k = upd_thread t (\<lambda>th. th\<lparr>th_stat := RT_THREAD_CLOSE\<rparr>) k
     in insert_defunct t k)"

definition rt_thread_exit :: "'a kernel_scheme \<Rightarrow> 'a kernel_scheme" where
  "rt_thread_exit k =
    (case rt_current_thread k of
       None \<Rightarrow> k\<lparr>k_status := Bad_Access\<rparr>
     | Some t \<Rightarrow>
        let k = rt_schedule_remove_thread t k;
            k = upd_thread t (\<lambda>th. th\<lparr>th_stat := RT_THREAD_CLOSE\<rparr>) k;
            k = rt_timer_detach (ThreadTimer t) k;
            k = (if rt_object_is_systemobject (ThreadObj t) k \<and> th_cleanup (threads k t) = None
                 then rt_object_detach (ThreadObj t) k
                 else insert_defunct t k)
        in rt_schedule k)"

text \<open>\<^verbatim>\<open>tlist.next != tlist.prev\<close>: the thread is on a list together with others.\<close>

definition has_company :: "nat \<Rightarrow> (tlist_head \<Rightarrow> nat list) \<Rightarrow> nat \<Rightarrow> bool" where
  "has_company t L p \<longleftrightarrow> t \<in> set (L (Ready p)) \<and> L (Ready p) \<noteq> [t]"

definition rt_thread_yield :: "'a kernel_scheme \<Rightarrow> 'a kernel_scheme" where
  "rt_thread_yield k =
    (case rt_current_thread k of
       None \<Rightarrow> k\<lparr>k_status := Bad_Access\<rparr>
     | Some t \<Rightarrow>
        if stat_of k t = RT_THREAD_READY \<and> has_company t (tlists k) (prio_of k t)
        then let k = k\<lparr>tlists := unlink t (tlists k)\<rparr>;
                 k = k\<lparr>tlists := push_back (Ready (prio_of k t)) t (tlists k)\<rparr>
             in rt_schedule k
        else k)"

definition rt_thread_sleep :: "u32 \<Rightarrow> 'a kernel_scheme \<Rightarrow> 'a kernel_scheme" where
  "rt_thread_sleep tick k =
    (case rt_current_thread k of
       None \<Rightarrow> k\<lparr>k_status := Bad_Access\<rparr>
     | Some t \<Rightarrow>
        let k = snd (rt_thread_suspend t k);
            k = snd (rt_timer_control (ThreadTimer t) (Timer_Set_Time tick) k);
            k = snd (rt_timer_start (ThreadTimer t) k)
        in rt_schedule k)"

definition rt_thread_sleep_resumed :: "nat \<Rightarrow> 'a kernel_scheme \<Rightarrow> int \<times> 'a kernel_scheme" where
  "rt_thread_sleep_resumed t k =
    (RT_EOK, if th_error (threads k t) = - RT_ETIMEOUT
             then upd_thread t (\<lambda>th. th\<lparr>th_error := RT_EOK\<rparr>) k else k)"

definition rt_thread_delay :: "u32 \<Rightarrow> 'a kernel_scheme \<Rightarrow> 'a kernel_scheme" where
  "rt_thread_delay tick k = rt_thread_sleep tick k"

datatype thread_cmd = Ctrl_Change_Priority u8 | Ctrl_Startup | Ctrl_Close | Ctrl_Other

definition set_priority :: "u8 \<Rightarrow> rt_thread \<Rightarrow> rt_thread" where
  "set_priority p th = th\<lparr>current_priority := p, number_mask := push_bit (unat p) 1\<rparr>"

definition rt_thread_control :: "nat \<Rightarrow> thread_cmd \<Rightarrow> 'a kernel_scheme \<Rightarrow> 'a kernel_scheme" where
  "rt_thread_control t cmd k =
    (case cmd of
       Ctrl_Change_Priority p \<Rightarrow>
         if stat_of k t = RT_THREAD_READY
         then let k = rt_schedule_remove_thread t k;
                  k = upd_thread t (set_priority p) k
              in rt_schedule_insert_thread t k
         else upd_thread t (set_priority p) k
     | Ctrl_Startup \<Rightarrow> rt_thread_startup t k
     | Ctrl_Close \<Rightarrow> rt_thread_delete t k
     | Ctrl_Other \<Rightarrow> k)"

definition rt_thread_timeout :: "nat \<Rightarrow> 'a kernel_scheme \<Rightarrow> 'a kernel_scheme" where
  "rt_thread_timeout t k =
    (let k = upd_thread t (\<lambda>th. th\<lparr>th_error := - RT_ETIMEOUT\<rparr>) k;
         k = k\<lparr>tlists := unlink t (tlists k)\<rparr>;
         k = rt_schedule_insert_thread t k
     in rt_schedule k)"


section \<open>The kernel invariant\<close>

text \<open>The built-in timer of a thread runs only while the thread is suspended, which is
  what \<^verbatim>\<open>rt_thread_timeout\<close> asserts; and unless the thread is closed, its timer is
  marked active only while it runs, so that it can be started when needed.\<close>

definition thread_timer_inv :: "'a kernel_scheme \<Rightarrow> nat \<Rightarrow> bool" where
  "thread_timer_inv k t \<longleftrightarrow>
    (ThreadTimer t \<in> set (rt_timer_list k) \<longrightarrow> stat_of k t = RT_THREAD_SUSPEND) \<and>
    (stat_of k t \<noteq> RT_THREAD_CLOSE \<longrightarrow>
      (active k (ThreadTimer t) \<longrightarrow> ThreadTimer t \<in> set (rt_timer_list k)) \<and>
      \<not> periodic k (ThreadTimer t))"

text \<open>The invariant with the threads of \<open>S\<close> in transition, timers in order at tick \<open>b\<close>.\<close>

definition kinv :: "u32 \<Rightarrow> nat set \<Rightarrow> 'a kernel_scheme \<Rightarrow> bool" where
  "kinv b S k \<longleftrightarrow> sched_inv S k \<and> timers_wf b k \<and> (\<forall>t. t \<notin> S \<longrightarrow> thread_timer_inv k t)"

abbreviation kernel_inv :: "'a kernel_scheme \<Rightarrow> bool" where
  "kernel_inv k \<equiv> kinv (rt_tick k) {} k"

lemma kinvD:
  assumes "kinv b S k"
  shows "sched_inv S k" "timers_wf b k" "\<And>t. t \<notin> S \<Longrightarrow> thread_timer_inv k t"
    "\<And>t. t \<notin> S \<Longrightarrow> thread_inv k t"
  using assms by (auto simp: kinv_def sched_inv_def)

lemma kinv_upd_thread [intro]: "kinv b S k \<Longrightarrow> t \<in> S \<Longrightarrow> kinv b S (upd_thread t f k)"
  by (auto simp: kinv_def sched_inv_upd_thread thread_timer_inv_def
      timers_wf_cong[of "upd_thread t f k" k])

lemma kinv_upd_field:
  assumes "kinv b S k" "\<And>th. th_stat (f th) = th_stat th"
    "\<And>th. current_priority (f th) = current_priority th" "\<And>th. number_mask (f th) = number_mask th"
  shows "kinv b S (upd_thread t f k)"
  using assms
  by (auto simp: kinv_def sched_inv_upd_field thread_timer_inv_def
      timers_wf_cong[of "upd_thread t f k" k])

lemma kinv_schedule [simp]: "kinv b S (rt_schedule k) = kinv b S k"
  by (auto simp: kinv_def thread_timer_inv_def timers_wf_cong[of "rt_schedule k" k])

lemma kinv_remove_thread:
  "kinv b S k \<Longrightarrow> mask_ok (threads k t) \<Longrightarrow> kinv b (insert t S) (rt_schedule_remove_thread t k)"
  by (auto simp: kinv_def remove_thread_inv thread_timer_inv_def
      timers_wf_cong[of "rt_schedule_remove_thread t k" k])

lemma kinv_insert_thread:
  assumes "kinv b S k" "t \<in> S" "prio_ok (threads k t)"
    "ThreadTimer t \<notin> set (rt_timer_list k)" "\<not> active k (ThreadTimer t)" "\<not> periodic k (ThreadTimer t)"
  shows "kinv b (S - {t}) (rt_schedule_insert_thread t k)"
  using assms
  by (auto simp: kinv_def insert_thread_inv thread_timer_inv_def
      timers_wf_cong[of "rt_schedule_insert_thread t k" k])

text \<open>A thread in transition may settle without being linked, or on a list that its
  state allows.\<close>

lemma kinv_settle:
  assumes "kinv b S k" "t \<in> S" "stat_of k t \<noteq> RT_THREAD_READY"
    "stat_of k t = RT_THREAD_SUSPEND \<longrightarrow> prio_ok (threads k t)" "thread_timer_inv k t"
  shows "kinv b (S - {t}) k"
proof -
  have "\<not> linked_in t (tlists k)" using assms(1,2) by (auto simp: kinv_def sched_inv_def)
  then have "thread_inv k t" using assms(3,4) not_linkedD by (fastforce simp: thread_inv_def)
  then show ?thesis using assms(1,2,5) by (auto simp: kinv_def sched_inv_def)
qed

definition list_allows :: "tlist_head \<Rightarrow> thread_stat \<Rightarrow> bool" where
  "list_allows h st \<longleftrightarrow> (case h of Ready p \<Rightarrow> False | Defunct \<Rightarrow> st = RT_THREAD_CLOSE
    | Waiting obj \<Rightarrow> st = RT_THREAD_SUSPEND | Senders obj \<Rightarrow> st = RT_THREAD_SUSPEND)"

lemma kinv_link:
  assumes "kinv b S k" "t \<in> S" "list_allows h (stat_of k t)" "L h = as @ bs" "L = tlists k"
    "stat_of k t = RT_THREAD_SUSPEND \<longrightarrow> prio_ok (threads k t)" "thread_timer_inv k t"
  shows "kinv b (S - {t}) (k\<lparr>tlists := L(h := as @ t # bs)\<rparr>)"
proof -
  let ?k = "k\<lparr>tlists := L(h := as @ t # bs)\<rparr>"
  have nl: "\<not> linked_in t (tlists k)" using assms(1,2) by (auto simp: kinv_def sched_inv_def)
  note d = not_linkedD[OF nl]
  have h: "h \<noteq> Ready p" for p using assms(3) by (auto simp: list_allows_def)
  have "exclusive (tlists ?k)"
    using assms(1,4,5) nl exclusive_insert[of L h as bs t] by (simp add: kinv_def sched_inv_def)
  moreover have "\<not> linked_in x (tlists ?k)" if "x \<in> S - {t}" for x
    using that assms(1,4,5) by (auto simp: kinv_def sched_inv_def linked_in_def split: if_splits)
       (metis Un_iff set_append)+
  moreover have "thread_inv ?k x" if "x \<notin> S - {t}" for x
  proof (cases "x = t")
    case True
    then show ?thesis using d assms(3,5,6) h
      by (auto simp: thread_inv_def list_allows_def split: tlist_head.splits)
  next
    case False
    then have "thread_inv k x" using that assms(1) by (auto simp: kinv_def sched_inv_def)
    moreover have "x \<in> set ((L(h := as @ t # bs)) g) \<longleftrightarrow> x \<in> set (tlists k g)" for g
      using False assms(4,5) by auto
    ultimately show ?thesis by (simp add: thread_inv_def)
  qed
  moreover have "bit (rt_thread_ready_priority_group ?k) p \<longleftrightarrow> tlists ?k (Ready p) \<noteq> []" for p
    using assms(1,5) h[of p] by (simp add: kinv_def sched_inv_def)
  moreover have "thread_timer_inv ?k x" if "x \<notin> S - {t}" for x
    using that assms(1,7) by (auto simp: kinv_def thread_timer_inv_def)
  moreover have "timers_wf b ?k" using assms(1) timers_wf_cong[of ?k k] by (simp add: kinv_def)
  ultimately show ?thesis by (simp add: kinv_def sched_inv_def)
qed



section \<open>Frame lemmas\<close>

text \<open>Object and timer operations leave the scheduler's state alone.\<close>

lemma object_frame [simp]:
  fixes k :: "'a kernel_scheme"
  shows "threads (rt_object_init obj ty name k) = threads k"
    "tlists (rt_object_init obj ty name k) = tlists k"
    "timers (rt_object_init obj ty name k) = timers k"
    "rt_timer_list (rt_object_init obj ty name k) = rt_timer_list k"
    "rt_tick (rt_object_init obj ty name k) = rt_tick k"
    "threads (rt_object_detach obj k) = threads k"
    "tlists (rt_object_detach obj k) = tlists k"
    "timers (rt_object_detach obj k) = timers k"
    "rt_timer_list (rt_object_detach obj k) = rt_timer_list k"
    "rt_tick (rt_object_detach obj k) = rt_tick k"
  by (simp_all add: object_defs)

lemma timer_frame [simp]:
  fixes k :: "'a kernel_scheme"
  shows "threads (snd (rt_timer_stop r k)) = threads k"
    "tlists (snd (rt_timer_stop r k)) = tlists k"
    "rt_tick (snd (rt_timer_stop r k)) = rt_tick k"
    "threads (snd (rt_timer_start r k)) = threads k"
    "tlists (snd (rt_timer_start r k)) = tlists k"
    "rt_tick (snd (rt_timer_start r k)) = rt_tick k"
    "threads (snd (rt_timer_control r cmd k)) = threads k"
    "tlists (snd (rt_timer_control r cmd k)) = tlists k"
    "rt_tick (snd (rt_timer_control r cmd k)) = rt_tick k"
    "rt_timer_list (snd (rt_timer_control r cmd k)) = rt_timer_list k"
    "threads (rt_timer_detach r k) = threads k"
    "tlists (rt_timer_detach r k) = tlists k"
    "rt_tick (rt_timer_detach r k) = rt_tick k"
    "rt_current_thread (rt_timer_detach r k) = rt_current_thread k"
    "threads (rt_timer_remove r k) = threads k"
    "tlists (rt_timer_remove r k) = tlists k"
    "timers (rt_timer_remove r k) = timers k"
  by (simp_all add: rt_timer_stop_def rt_timer_start_def rt_timer_control_def rt_timer_detach_def
      rt_timer_remove_def upd_timer_def object_defs Let_def split: timer_cmd.split)

lemma sched_inv_frame [simp]:
  fixes k :: "'a kernel_scheme"
  shows "sched_inv S (rt_object_init obj ty name k) = sched_inv S k"
    "sched_inv S (rt_object_detach obj k) = sched_inv S k"
    "sched_inv S (snd (rt_timer_stop r k)) = sched_inv S k"
    "sched_inv S (snd (rt_timer_start r k)) = sched_inv S k"
    "sched_inv S (snd (rt_timer_control r cmd k)) = sched_inv S k"
    "sched_inv S (rt_timer_detach r k) = sched_inv S k"
  by (rule sched_inv_cong; simp add: rt_timer_stop_def rt_timer_start_def rt_timer_control_def
      rt_timer_detach_def rt_timer_remove_def upd_timer_def object_defs Let_def split: timer_cmd.split)+

text \<open>Stopping the timer of a thread in transition.\<close>

lemma timer_stop_effect:
  assumes "timers_wf b k"
  shows "r \<notin> set (rt_timer_list (snd (rt_timer_stop r k)))"
    "\<not> active (snd (rt_timer_stop r k)) r"
    "periodic (snd (rt_timer_stop r k)) x = periodic k x"
    "x \<noteq> r \<Longrightarrow> x \<in> set (rt_timer_list (snd (rt_timer_stop r k))) \<longleftrightarrow> x \<in> set (rt_timer_list k)"
    "x \<noteq> r \<Longrightarrow> timers (snd (rt_timer_stop r k)) x = timers k x"
  using assms by (auto simp: rt_timer_stop_def upd_timer_def rt_timer_remove_def timers_wf_def)

lemma kinv_timer_stop:
  assumes "kinv b S k" "t \<in> S"
  shows "kinv b S (snd (rt_timer_stop (ThreadTimer t) k))"
proof -
  have w: "timers_wf b k" using assms(1) by (simp add: kinv_def)
  note e = timer_stop_effect[OF w, where r = "ThreadTimer t"]
  have "thread_timer_inv (snd (rt_timer_stop (ThreadTimer t) k)) x = thread_timer_inv k x" if "x \<noteq> t" for x
    using that e(4,5)[of "ThreadTimer x"] by (simp add: thread_timer_inv_def)
  then have "\<forall>x. x \<notin> S \<longrightarrow> thread_timer_inv (snd (rt_timer_stop (ThreadTimer t) k)) x"
    using assms kinvD(3) by metis
  then show ?thesis using assms(1) rt_timer_stop_wf[OF w] by (simp add: kinv_def)
qed

lemma timer_detach_fields [simp]:
  "rt_timer_list (rt_timer_detach r k) = removeAll r (rt_timer_list k)"
  "timers (rt_timer_detach r k) = timers k"
  by (simp_all add: rt_timer_detach_def rt_timer_remove_def object_defs)

lemma kinv_timer_detach:
  assumes "kinv b S k" "t \<in> S"
  shows "kinv b S (rt_timer_detach (ThreadTimer t) k)"
  using assms rt_timer_detach_wf[of b k] by (auto simp: kinv_def thread_timer_inv_def)

lemma kinv_object [simp]:
  fixes k :: "'a kernel_scheme"
  shows "kinv b S (rt_object_detach obj k) = kinv b S k"
    "kinv b S (rt_object_init obj ty name k) = kinv b S k"
  by (auto simp: kinv_def thread_timer_inv_def timers_wf_cong[of "rt_object_detach obj k" k]
      timers_wf_cong[of "rt_object_init obj ty name k" k])



section \<open>Every operation keeps the invariant\<close>

lemma suspend_eq:
  assumes "stat_of k t = RT_THREAD_READY"
  shows "rt_thread_suspend t k = (RT_EOK,
    upd_thread t (\<lambda>th. th\<lparr>th_stat := RT_THREAD_SUSPEND\<rparr>) (rt_schedule_remove_thread t k))"
  using assms by (simp add: rt_thread_suspend_def rt_schedule_remove_thread_def upd_thread_def Let_def)

text \<open>Suspending a ready thread leaves it in transition, with a valid priority and
  its timer stopped.\<close>

lemma suspend_transition:
  assumes "kinv b S k" "t \<notin> S" "stat_of k t = RT_THREAD_READY"
  defines "k' \<equiv> snd (rt_thread_suspend t k)"
  shows "kinv b (insert t S) k'" "stat_of k' t = RT_THREAD_SUSPEND" "prio_ok (threads k' t)"
    "ThreadTimer t \<notin> set (rt_timer_list k')" "\<not> active k' (ThreadTimer t)"
    "\<not> periodic k' (ThreadTimer t)"
proof -
  have i: "thread_inv k t" "thread_timer_inv k t" using assms(1,2) by (auto dest: kinvD)
  then have "prio_ok (threads k t)" using assms(3) by (simp add: thread_inv_def)
  then show "kinv b (insert t S) k'" "prio_ok (threads k' t)"
    using kinv_remove_thread[OF assms(1), of t] unfolding k'_def suspend_eq[OF assms(3)]
    by (auto simp: prio_ok_def)
  show "stat_of k' t = RT_THREAD_SUSPEND" "ThreadTimer t \<notin> set (rt_timer_list k')"
    "\<not> active k' (ThreadTimer t)" "\<not> periodic k' (ThreadTimer t)"
    using i assms(3) unfolding k'_def suspend_eq[OF assms(3)] by (auto simp: thread_timer_inv_def)
qed

lemma thread_suspend_inv [kernel_keeps]:
  assumes "kinv b {} k"
  shows "kinv b {} (snd (rt_thread_suspend t k))"
proof (cases "stat_of k t = RT_THREAD_READY")
  case True
  note s = suspend_transition[OF assms _ True, simplified]
  have "thread_timer_inv (snd (rt_thread_suspend t k)) t" using s by (simp add: thread_timer_inv_def)
  then show ?thesis using kinv_settle[OF s(1)] s(2,3) by simp
qed (use assms in \<open>simp add: rt_thread_suspend_def\<close>)

text \<open>Making a suspended thread ready, whether it waits on a list or not.\<close>

lemma unlink_transition:
  assumes "kinv b S k" "stat_of k t \<noteq> RT_THREAD_READY" "t \<notin> S"
  shows "kinv b (insert t S) (k\<lparr>tlists := unlink t (tlists k)\<rparr>)"
proof -
  let ?k = "k\<lparr>tlists := unlink t (tlists k)\<rparr>"
  have "thread_inv k t" using assms(1,3) by (auto dest: kinvD)
  then have "unlink t (tlists k) (Ready p) = tlists k (Ready p)" for p
    using assms(2) by (simp add: thread_inv_def unlink_def)
  moreover have "thread_inv ?k x" if "x \<notin> insert t S" for x
    by (rule thread_inv_unlink_other[of k x t]) (use that kinvD(4)[OF assms(1)] in simp_all)
  ultimately have "sched_inv (insert t S) ?k"
    using kinvD(1)[OF assms(1)] by (auto simp: sched_inv_def)
  then show ?thesis using assms(1) timers_wf_cong[of ?k k]
    by (auto simp: kinv_def thread_timer_inv_def)
qed

lemma thread_resume_inv [kernel_keeps]:
  assumes "kinv b S k" "t \<notin> S"
  shows "kinv b S (snd (rt_thread_resume t k))"
proof (cases "stat_of k t = RT_THREAD_SUSPEND")
  case True
  let ?k = "k\<lparr>tlists := unlink t (tlists k)\<rparr>"
  let ?k' = "snd (rt_timer_stop (ThreadTimer t) ?k)"
  have i: "thread_inv k t" "thread_timer_inv k t" using assms by (auto dest: kinvD)
  have k: "kinv b (insert t S) ?k" by (rule unlink_transition) (use assms True in auto)
  note e = timer_stop_effect[OF kinvD(2)[OF k], where r = "ThreadTimer t"]
  have "\<not> periodic k (ThreadTimer t)" "prio_ok (threads k t)"
    using i True by (auto simp: thread_timer_inv_def thread_inv_def)
  then have "kinv b (insert t S - {t}) (rt_schedule_insert_thread t ?k')"
    using e kinv_timer_stop[OF k] by (intro kinv_insert_thread) auto
  then show ?thesis using True assms(2) by (simp add: rt_thread_resume_def Let_def)
qed (use assms in \<open>simp add: rt_thread_resume_def\<close>)

text \<open>A thread that is on no list may be put in transition at any time.\<close>

lemma kinv_enter:
  assumes "kinv b S k" "\<not> linked_in t (tlists k)"
  shows "kinv b (insert t S) k"
  using assms by (auto simp: kinv_def sched_inv_def)

lemma unlinked_iff:
  assumes "thread_inv k t" "stat_of k t = RT_THREAD_INIT"
  shows "\<not> linked_in t (tlists k)"
proof
  assume "linked_in t (tlists k)"
  then obtain h where "t \<in> set (tlists k h)" by (auto simp: linked_in_def)
  then show False using assms by (cases h) (auto simp: thread_inv_def)
qed

lemma thread_startup_inv [kernel_keeps]:
  assumes "kinv b {} k" "stat_of k t = RT_THREAD_INIT" "unat (init_priority (threads k t)) < 32"
  shows "kinv b {} (rt_thread_startup t k)"
proof -
  have i: "thread_inv k t" "thread_timer_inv k t" using assms(1) by (auto dest: kinvD)
  have "kinv b {t} k" using kinv_enter[OF assms(1) unlinked_iff[OF i(1) assms(2)]] by simp
  define k' where "k' = upd_thread t (\<lambda>th. th\<lparr>th_stat := RT_THREAD_SUSPEND\<rparr>)
    (upd_thread t (\<lambda>th. th\<lparr>number_mask := push_bit (unat (current_priority th)) 1\<rparr>)
      (upd_thread t (\<lambda>th. th\<lparr>current_priority := init_priority th\<rparr>) k))"
  have "kinv b {t} k'" using \<open>kinv b {t} k\<close> unfolding k'_def by auto
  moreover have "stat_of k' t = RT_THREAD_SUSPEND" "prio_ok (threads k' t)" "thread_timer_inv k' t"
    using assms(2,3) i(2) by (auto simp: k'_def prio_ok_def thread_timer_inv_def)
  ultimately have "kinv b {} k'" using kinv_settle[of b "{t}" k' t] by simp
  then have "kinv b {} (snd (rt_thread_resume t k'))" by (simp add: thread_resume_inv)
  then show ?thesis by (simp add: rt_thread_startup_def Let_def k'_def)
qed

text \<open>The common part of detaching, deleting and ending a thread.\<close>

definition close_thread :: "nat \<Rightarrow> 'a kernel_scheme \<Rightarrow> 'a kernel_scheme" where
  "close_thread t k = upd_thread t (\<lambda>th. th\<lparr>th_stat := RT_THREAD_CLOSE\<rparr>)
    (rt_timer_detach (ThreadTimer t) (rt_schedule_remove_thread t k))"

lemma close_transition:
  assumes "kinv b {} k" "mask_ok (threads k t)"
  shows "kinv b {t} (close_thread t k)" "stat_of (close_thread t k) t = RT_THREAD_CLOSE"
    "thread_timer_inv (close_thread t k) t"
proof -
  have "kinv b {t} (rt_timer_detach (ThreadTimer t) (rt_schedule_remove_thread t k))"
    using kinv_remove_thread[OF assms] by (intro kinv_timer_detach) auto
  then show "kinv b {t} (close_thread t k)" unfolding close_thread_def by (rule kinv_upd_thread) simp
  show "stat_of (close_thread t k) t = RT_THREAD_CLOSE" "thread_timer_inv (close_thread t k) t"
    by (auto simp: close_thread_def thread_timer_inv_def)
qed

lemma kinv_insert_defunct:
  assumes "kinv b {t} k" "stat_of k t = RT_THREAD_CLOSE" "thread_timer_inv k t"
  shows "kinv b {} (insert_defunct t k)"
  using kinv_link[OF assms(1), of t Defunct "tlists k" "[]" "tlists k Defunct"] assms(2,3)
  by (simp add: insert_defunct_def push_front_def list_allows_def)

lemma kinv_closed:
  assumes "kinv b {t} k" "stat_of k t = RT_THREAD_CLOSE" "thread_timer_inv k t"
  shows "kinv b {} k"
  using kinv_settle[OF assms(1), of t] assms(2,3) by simp

lemma thread_delete_inv [kernel_keeps]:
  assumes "kinv b {} k" "mask_ok (threads k t)"
  shows "kinv b {} (rt_thread_delete t k)"
  using kinv_insert_defunct[OF close_transition[OF assms]]
  by (simp add: rt_thread_delete_def Let_def close_thread_def)

lemma thread_detach_inv [kernel_keeps]:
  assumes "kinv b {} k" "mask_ok (threads k t)"
  shows "kinv b {} (rt_thread_detach t k)"
proof -
  let ?k = "rt_object_detach (ThreadObj t) (close_thread t k)"
  note c = close_transition[OF assms]
  have "kinv b {t} ?k" "stat_of ?k t = RT_THREAD_CLOSE" "thread_timer_inv ?k t"
    using c by (simp_all add: thread_timer_inv_def)
  note kinv_insert_defunct[OF this] kinv_closed[OF this]
  then show ?thesis by (simp add: rt_thread_detach_def Let_def close_thread_def[symmetric])
qed

lemma thread_exit_inv [kernel_keeps]:
  assumes "kinv b {} k" "\<And>t. rt_current_thread k = Some t \<Longrightarrow> mask_ok (threads k t)"
  shows "kinv b {} (rt_thread_exit k)"
proof (cases "rt_current_thread k")
  case None
  have "kinv b {} (k\<lparr>k_status := Bad_Access\<rparr>) = kinv b {} k"
    by (simp add: kinv_def thread_timer_inv_def timers_wf_cong[of "k\<lparr>k_status := Bad_Access\<rparr>" k]
        sched_inv_cong[of "k\<lparr>k_status := Bad_Access\<rparr>" k])
  then show ?thesis using assms(1) None by (simp add: rt_thread_exit_def)
next
  case (Some t)
  note c = close_transition[OF assms(1) assms(2)[OF Some]]
  have eq: "rt_timer_detach (ThreadTimer t) (upd_thread t (\<lambda>th. th\<lparr>th_stat := RT_THREAD_CLOSE\<rparr>)
      (rt_schedule_remove_thread t k)) = close_thread t k"
    by (simp add: close_thread_def rt_timer_detach_def rt_timer_remove_def upd_thread_def object_defs)
  have "kinv b {} (rt_object_detach (ThreadObj t) (close_thread t k))"
    using kinv_closed[OF c] by simp
  then show ?thesis using Some kinv_insert_defunct[OF c] by (simp add: rt_thread_exit_def Let_def eq)
qed

text \<open>Reordering a ready queue keeps the invariant.\<close>

lemma sched_inv_reorder:
  assumes "sched_inv S k" "exclusive L" "\<And>h. set (L h) = set (tlists k h)"
  shows "sched_inv S (k\<lparr>tlists := L\<rparr>)"
proof -
  have "(L h = []) = (tlists k h = [])" for h using assms(3)[of h] by (metis set_empty)
  moreover have "linked_in t L = linked_in t (tlists k)" for t using assms(3) by (simp add: linked_in_def)
  ultimately show ?thesis using assms by (simp add: sched_inv_def thread_inv_def)
qed

lemma kinv_reorder:
  assumes "kinv b S k" "exclusive L" "\<And>h. set (L h) = set (tlists k h)"
  shows "kinv b S (k\<lparr>tlists := L\<rparr>)"
  using assms sched_inv_reorder[of S k L] timers_wf_cong[of "k\<lparr>tlists := L\<rparr>" k]
  by (auto simp: kinv_def thread_timer_inv_def)

text \<open>Yielding rotates the ready queue of the running thread.\<close>

lemma yield_rotates:
  assumes "sched_inv S k" "rt_current_thread k = Some t" "tlists k (Ready p) = as @ t # bs"
  shows "rt_thread_yield k = (if as = [] \<and> bs = [] then k
    else rt_schedule (k\<lparr>tlists := (tlists k)(Ready p := as @ bs @ [t])\<rparr>))"
proof -
  have t: "t \<in> set (tlists k (Ready p))" using assms(3) by simp
  note r = ready_at_prio[OF assms(1) t]
  have ex: "exclusive (tlists k)" using assms(1) by (simp add: sched_inv_def)
  have eq: "push_back (Ready p) t (unlink t (tlists k)) = (tlists k)(Ready p := as @ bs @ [t])"
    using abs.rotate[of "tlists k" "tlists k" "Ready p" as t bs] ex assms(3) by simp
  have "has_company t (tlists k) p \<longleftrightarrow> \<not> (as = [] \<and> bs = [])"
    using assms(3) by (auto simp: has_company_def append_eq_Cons_conv)
  then show ?thesis using assms(2) r(1,2) eq by (simp add: rt_thread_yield_def)
qed

lemma thread_yield_inv [kernel_keeps]:
  assumes "kinv b S k" "rt_current_thread k = Some t" "t \<notin> S"
  shows "kinv b S (rt_thread_yield k)"
proof (cases "stat_of k t = RT_THREAD_READY")
  case True
  then have "t \<in> set (tlists k (Ready (prio_of k t)))"
    using kinvD(4)[OF assms(1,3)] unfolding thread_inv_def by blast
  then obtain as bs where l: "tlists k (Ready (prio_of k t)) = as @ t # bs"
    by (auto simp: in_set_conv_decomp)
  let ?L = "(tlists k)(Ready (prio_of k t) := as @ bs @ [t])"
  have "exclusive (tlists k)" using kinvD(1)[OF assms(1)] by (simp add: sched_inv_def)
  then have "exclusive ?L" using abs.rotate[of "tlists k" "tlists k" _ as t bs] l by metis
  then have "kinv b S (k\<lparr>tlists := ?L\<rparr>)" using l by (intro kinv_reorder[OF assms(1)]) auto
  then show ?thesis using yield_rotates[OF kinvD(1)[OF assms(1)] assms(2) l] assms(1) by simp
next
  case False
  then show ?thesis using assms(1,2) by (simp add: rt_thread_yield_def)
qed

text \<open>Starting the timer of a suspended thread in transition.\<close>

lemma kinv_timer_start:
  assumes "kinv b S k" "t \<in> S \<or> stat_of k t = RT_THREAD_SUSPEND" "\<not> active k (ThreadTimer t)"
    "unat (due_tick k (ThreadTimer t) - b) < unat HALF_TICK_MAX"
  defines "k' \<equiv> snd (rt_timer_start (ThreadTimer t) k)"
  shows "kinv b S k'" "ThreadTimer t \<in> set (rt_timer_list k')"
    "periodic k' (ThreadTimer t) = periodic k (ThreadTimer t)"
    "timeout_of k' (ThreadTimer t) = due_tick k (ThreadTimer t)"
proof -
  note s = rt_timer_start_stopped[OF assms(3)]
  have "thread_timer_inv k' x = thread_timer_inv k x" if "x \<noteq> t" for x
    using that by (simp add: thread_timer_inv_def k'_def s)
  moreover have "thread_timer_inv k' t" if "t \<notin> S"
    using that kinvD(3)[OF assms(1), of t] assms(2) by (simp add: thread_timer_inv_def k'_def s)
  ultimately have "\<forall>x. x \<notin> S \<longrightarrow> thread_timer_inv k' x" using kinvD(3)[OF assms(1)] by metis
  then show "kinv b S k'" using kinvD(1,2)[OF assms(1)] rt_timer_start_wf[OF _ assms(3,4)]
    by (simp add: kinv_def k'_def)
  show "ThreadTimer t \<in> set (rt_timer_list k')" "timeout_of k' (ThreadTimer t) = due_tick k (ThreadTimer t)"
    "periodic k' (ThreadTimer t) = periodic k (ThreadTimer t)"
    by (simp_all add: k'_def s)
qed

lemma kinv_set_time:
  fixes n :: u32
  assumes "kinv b S k" "ThreadTimer t \<notin> set (rt_timer_list k)"
  defines "k' \<equiv> snd (rt_timer_control (ThreadTimer t) (Timer_Set_Time n) k)"
  shows "kinv b S k'" "due_tick k' (ThreadTimer t) = rt_tick k + n"
    "active k' x = active k x" "periodic k' x = periodic k x" "rt_timer_list k' = rt_timer_list k"
proof -
  have k': "k' = upd_timer (ThreadTimer t) (\<lambda>m. m\<lparr>tm_init_tick := n\<rparr>) k"
    by (simp add: k'_def rt_timer_control_def)
  show f: "active k' x = active k x" "periodic k' x = periodic k x"
    "due_tick k' (ThreadTimer t) = rt_tick k + n" "rt_timer_list k' = rt_timer_list k" for x
    by (simp_all add: k' upd_timer_def due_tick_def)
  have "threads k' = threads k" by (simp add: k'_def)
  then have "thread_timer_inv k' x = thread_timer_inv k x" for x
    unfolding thread_timer_inv_def f by simp
  moreover have "timers_wf b k'"
    unfolding k' by (rule timers_wf_upd_other[OF kinvD(2)[OF assms(1)] assms(2)])
  moreover have "sched_inv S k'" using kinvD(1)[OF assms(1)] by (simp add: k'_def)
  ultimately show "kinv b S k'" using kinvD(3)[OF assms(1)] by (simp add: kinv_def)
qed

lemma sleep_transition:
  assumes "kinv b {} k" "stat_of k t = RT_THREAD_READY"
    "unat (rt_tick k + tick - b) < unat HALF_TICK_MAX"
  defines "k' \<equiv> snd (rt_timer_start (ThreadTimer t) (snd (rt_timer_control (ThreadTimer t)
    (Timer_Set_Time tick) (snd (rt_thread_suspend t k)))))"
  shows "kinv b {} k'" "stat_of k' t = RT_THREAD_SUSPEND" "ThreadTimer t \<in> set (rt_timer_list k')"
    "timeout_of k' (ThreadTimer t) = rt_tick k + tick" "rt_tick k' = rt_tick k"
proof -
  let ?k1 = "snd (rt_thread_suspend t k)"
  let ?k2 = "snd (rt_timer_control (ThreadTimer t) (Timer_Set_Time tick) ?k1)"
  note s = suspend_transition[OF assms(1) _ assms(2), simplified]
  have tick: "rt_tick ?k1 = rt_tick k" by (simp add: suspend_eq[OF assms(2)])
  note c = kinv_set_time[where n = tick, OF s(1,4)]
  have na: "\<not> active ?k2 (ThreadTimer t)" using c(3) s(5) by simp
  have due: "due_tick ?k2 (ThreadTimer t) = rt_tick k + tick" using c(2) tick by simp
  note st = kinv_timer_start[OF c(1) disjI1[OF insertI1] na, unfolded due, OF assms(3), folded k'_def]
  show stat: "stat_of k' t = RT_THREAD_SUSPEND" using s(2) by (simp add: k'_def)
  show "rt_tick k' = rt_tick k" using tick by (simp add: k'_def)
  show tl: "ThreadTimer t \<in> set (rt_timer_list k')" "timeout_of k' (ThreadTimer t) = rt_tick k + tick"
    by (fact st(2) st(4))+
  have "prio_ok (threads k' t)" using s(3) by (simp add: k'_def)
  moreover have "thread_timer_inv k' t" using stat tl(1) st(3) c(4) s(6) by (simp add: thread_timer_inv_def)
  ultimately show "kinv b {} k'" using kinv_settle[OF st(1) insertI1] stat by simp
qed

lemma thread_sleep_inv:
  assumes "kinv b {} k" "rt_current_thread k = Some t" "stat_of k t = RT_THREAD_READY"
    "unat (rt_tick k + tick - b) < unat HALF_TICK_MAX"
  shows "kinv b {} (rt_thread_sleep tick k)"
  using sleep_transition[OF assms(1,3,4)] assms(2) by (simp add: rt_thread_sleep_def Let_def)

lemma change_priority_inv [kernel_keeps]:
  assumes "kinv b {} k" "unat p < 32" "stat_of k t \<noteq> RT_THREAD_CLOSE"
  shows "kinv b {} (rt_thread_control t (Ctrl_Change_Priority p) k)"
proof (cases "stat_of k t = RT_THREAD_READY")
  case True
  have i: "thread_inv k t" "thread_timer_inv k t" using assms(1) by (auto dest: kinvD)
  then have "prio_ok (threads k t)" using True by (simp add: thread_inv_def)
  then have "kinv b {t} (rt_schedule_remove_thread t k)"
    using kinv_remove_thread[OF assms(1)] by auto
  then have "kinv b {t} (upd_thread t (set_priority p) (rt_schedule_remove_thread t k))" by auto
  then have "kinv b ({t} - {t}) (rt_schedule_insert_thread t
      (upd_thread t (set_priority p) (rt_schedule_remove_thread t k)))"
    using i(2) True assms(2)
    by (intro kinv_insert_thread) (auto simp: thread_timer_inv_def set_priority_def prio_ok_def)
  then show ?thesis using True by (simp add: rt_thread_control_def)
next
  case False
  let ?k = "upd_thread t (set_priority p) k"
  have L: "stat_of ?k x = stat_of k x" for x by (simp add: set_priority_def)
  have "thread_inv ?k x" for x
    using kinvD(4)[OF assms(1), of x] False assms(2)
    by (cases "x = t") (auto simp: thread_inv_def set_priority_def prio_ok_def)
  then have "sched_inv {} ?k" using kinvD(1)[OF assms(1)] by (simp add: sched_inv_def)
  moreover have "timers_wf b ?k" using kinvD(2)[OF assms(1)] timers_wf_cong[of ?k k] by simp
  moreover have "thread_timer_inv ?k x" for x
    using kinvD(3)[OF assms(1), of x] L by (simp add: thread_timer_inv_def)
  ultimately show ?thesis using False by (simp add: rt_thread_control_def kinv_def)
qed

lemma kinv_upd_timer:
  assumes "kinv b S k" "t \<in> S" "ThreadTimer t \<notin> set (rt_timer_list k)"
  shows "kinv b S (upd_timer (ThreadTimer t) f k)"
proof -
  let ?k = "upd_timer (ThreadTimer t) f k"
  have "thread_timer_inv ?k x = thread_timer_inv k x" if "x \<noteq> t" for x
    using that by (simp add: thread_timer_inv_def upd_timer_def)
  then have "\<forall>x. x \<notin> S \<longrightarrow> thread_timer_inv ?k x" using kinvD(3)[OF assms(1)] assms(2) by metis
  moreover have "timers_wf b ?k" by (rule timers_wf_upd_other[OF kinvD(2)[OF assms(1)] assms(3)])
  moreover have "sched_inv S ?k = sched_inv S k" by (rule sched_inv_cong) (simp_all add: upd_timer_def)
  ultimately show ?thesis using kinvD(1)[OF assms(1)] by (simp add: kinv_def)
qed

text \<open>Initialising a thread object that is on no list and whose timer does not run.\<close>

lemma thread_init_inv:
  assumes "kinv b {} k" "\<not> linked_in t (tlists k)" "ThreadTimer t \<notin> set (rt_timer_list k)"
  shows "kinv b {} (rt_thread_init t name entry parameter stack_start stack_size priority tick k)"
    (is "kinv b {} ?k")
proof -
  define k1 where "k1 = rt_object_init (ThreadObj t) RT_Object_Class_Thread name k"
  obtain f where k': "?k = timer_init (ThreadTimer t) 0 0 (rt_object_init (TimerObj (ThreadTimer t))
      RT_Object_Class_Timer (take RT_NAME_MAX name) (upd_thread t f k1))"
    and f: "\<And>th. th_stat (f th) = RT_THREAD_INIT"
    unfolding rt_thread_init_def thread_init_def rt_timer_init_def k1_def by auto
  let ?k2 = "rt_object_init (TimerObj (ThreadTimer t)) RT_Object_Class_Timer (take RT_NAME_MAX name)
    (upd_thread t f k1)"
  have "kinv b {t} k1" using kinv_enter[OF assms(1,2)] by (simp add: k1_def)
  then have k2: "kinv b {t} ?k2" by auto
  have "ThreadTimer t \<notin> set (rt_timer_list ?k2)" using assms(3) by (simp add: k1_def)
  then have "kinv b {t} ?k" unfolding k' timer_init_def by (rule kinv_upd_timer[OF k2 singletonI])
  moreover have "stat_of ?k t = RT_THREAD_INIT" "thread_timer_inv ?k t"
    using assms(3) f by (auto simp: k' timer_init_def upd_timer_def thread_timer_inv_def k1_def)
  ultimately show ?thesis using kinv_settle[of b "{t}" ?k t] by simp
qed


section \<open>Start-up\<close>

text \<open>The kernel's variables before the first instruction: all memory is zero and every
  list head is initialised.\<close>

definition zero_thread :: rt_thread where
  "zero_thread = \<lparr>th_sp = 0, th_entry = 0, th_parameter = 0, th_stack_addr = 0, th_stack_size = 0,
    th_error = 0, th_stat = RT_THREAD_INIT, current_priority = 0, init_priority = 0,
    number_mask = 0, event_set = 0, event_info = 0, th_init_tick = 0, remaining_tick = 0,
    th_cleanup = None\<rparr>"

definition kernel_zero :: kernel where
  "kernel_zero = \<lparr>obj_type = (\<lambda>_. 0), obj_name = (\<lambda>_. []), rt_object_container = (\<lambda>_. []),
    k_freed = [], timers = (\<lambda>_. \<lparr>tm_flag = 0, tm_init_tick = 0, tm_timeout_tick = 0\<rparr>),
    rt_timer_list = [], random_nr = 0, rt_tick = 0, threads = (\<lambda>_. zero_thread),
    tlists = (\<lambda>_. []), rt_current_thread = None, rt_current_priority = 0,
    rt_thread_ready_priority_group = 0, rt_scheduler_lock_nest = 0, rt_interrupt_nest = 0,
    k_status = Alive\<rparr>"

definition kernel_boot :: kernel where
  "kernel_boot = rt_system_timer_init (rt_system_scheduler_init kernel_zero)"

lemma kernel_boot_inv: "kinv 0 {} kernel_boot"
  by (auto simp: kinv_def sched_inv_def thread_inv_def thread_timer_inv_def timers_wf_def
      timer_order_def exclusive_def kernel_zero_def kernel_boot_def rt_system_scheduler_init_def
      linked_in_def rt_system_timer_init_def zero_thread_def split: tlist_head.split)

end
