(* ===== verification/Ipc.thy ===== *)
theory Ipc
  imports Thread
begin

text \<open>
  What the IPC objects of \<^verbatim>\<open>src/ipc.c\<close> share: threads wait on the list of an object,
  in order of arrival or by priority, possibly with a timeout, and are resumed one
  at a time or all together.

  An operation that may wait is modelled up to the context switch of the waiting
  thread (outcome \<open>Blocked\<close>); the part of the code that runs when the thread
  continues is the definition with the suffix \<^verbatim>\<open>_resumed\<close>.  Timeouts are 32-bit
  words read as signed numbers.
\<close>

datatype ipc_outcome = Returned int | Blocked

abbreviation (input) RT_IPC_FLAG_FIFO :: u8 where "RT_IPC_FLAG_FIFO \<equiv> 0"
abbreviation (input) RT_IPC_FLAG_PRIO :: u8 where "RT_IPC_FLAG_PRIO \<equiv> 1"
abbreviation (input) RT_WAITING_FOREVER :: u32 where "RT_WAITING_FOREVER \<equiv> - 1"


section \<open>Waiting lists\<close>

text \<open>The search loop of the priority branch: before the first waiting thread with a
  larger priority number, or at the end.\<close>

fun prio_insert :: "(nat \<Rightarrow> u8) \<Rightarrow> nat \<Rightarrow> nat list \<Rightarrow> nat list" where
  "prio_insert pr t [] = [t]"
| "prio_insert pr t (s # ss) = (if pr t < pr s then t # s # ss else s # prio_insert pr t ss)"

definition rt_ipc_list_suspend ::
  "tlist_head \<Rightarrow> nat \<Rightarrow> u8 \<Rightarrow> 'a kernel_scheme \<Rightarrow> 'a kernel_scheme" where
  "rt_ipc_list_suspend h t flag k =
    (let k = snd (rt_thread_suspend t k)
     in if flag = RT_IPC_FLAG_FIFO then k\<lparr>tlists := push_back h t (tlists k)\<rparr>
        else if flag = RT_IPC_FLAG_PRIO
        then k\<lparr>tlists := (tlists k)(h :=
               prio_insert (\<lambda>x. current_priority (threads k x)) t (tlists k h))\<rparr>
        else k)"

definition rt_ipc_list_resume :: "tlist_head \<Rightarrow> 'a kernel_scheme \<Rightarrow> 'a kernel_scheme" where
  "rt_ipc_list_resume h k =
    (case tlists k h of
       [] \<Rightarrow> k\<lparr>k_status := Bad_Access\<rparr>
     | t # _ \<Rightarrow> snd (rt_thread_resume t k))"

partial_function (option) rt_ipc_list_resume_all ::
  "tlist_head \<Rightarrow> 'a kernel_scheme \<Rightarrow> 'a kernel_scheme option" where
  [code]: "rt_ipc_list_resume_all h k =
    (case tlists k h of
       [] \<Rightarrow> Some k
     | t # _ \<Rightarrow>
        let k = upd_thread t (\<lambda>th. th\<lparr>th_error := - RT_ERROR\<rparr>) k
        in rt_ipc_list_resume_all h (snd (rt_thread_resume t k)))"

text \<open>The waiting sequence the objects share: put the thread on the list, start its
  timer if there is a time limit, and switch to another thread.\<close>

definition ipc_wait ::
  "tlist_head \<Rightarrow> nat \<Rightarrow> u8 \<Rightarrow> u32 \<Rightarrow> 'a kernel_scheme \<Rightarrow> 'a kernel_scheme" where
  "ipc_wait h t flag time k =
    (let k = rt_ipc_list_suspend h t flag k;
         k = (if 0 < sint time
              then let k = snd (rt_timer_control (ThreadTimer t) (Timer_Set_Time time) k)
                   in snd (rt_timer_start (ThreadTimer t) k)
              else k)
     in rt_schedule k)"


section \<open>Lemmas\<close>

interpretation pins: ordered_insertion "\<lambda>t s. pr t < pr s" "prio_insert pr" for pr
  by unfold_locales auto

lemma kinv_frame:
  assumes "tlists k' = tlists k" "threads k' = threads k" "timers k' = timers k" "rt_timer_list k' = rt_timer_list k"
    "rt_thread_ready_priority_group k' = rt_thread_ready_priority_group k"
  shows "kinv b S k' = kinv b S k"
  using assms by (simp add: kinv_def thread_timer_inv_def timers_wf_cong[of k' k] sched_inv_cong[of k' k])

definition waiting_head :: "tlist_head \<Rightarrow> bool" where
  "waiting_head h \<longleftrightarrow> (case h of Waiting obj \<Rightarrow> True | Senders obj \<Rightarrow> True | _ \<Rightarrow> False)"

lemma waiting_head_simps [simp]: "waiting_head (Waiting obj)" "waiting_head (Senders obj)"
  by (simp_all add: waiting_head_def)

lemma waiting_allows: "waiting_head h \<Longrightarrow> list_allows h RT_THREAD_SUSPEND"
  by (auto simp: waiting_head_def list_allows_def split: tlist_head.splits)

lemma waiting_suspended:
  assumes "kinv b {} k" "waiting_head h" "t \<in> set (tlists k h)"
  shows "stat_of k t = RT_THREAD_SUSPEND"
  using assms kinvD(4)[OF assms(1), of t]
  by (auto simp: waiting_head_def thread_inv_def split: tlist_head.splits)

text \<open>The list with a new thread on it.\<close>

definition wait_list :: "u8 \<Rightarrow> 'a kernel_scheme \<Rightarrow> nat \<Rightarrow> nat list \<Rightarrow> nat list" where
  "wait_list flag k t ts = (if flag = RT_IPC_FLAG_FIFO then ts @ [t]
    else prio_insert (\<lambda>x. current_priority (threads k x)) t ts)"

lemma wait_list_split: "\<exists>as bs. ts = as @ bs \<and> wait_list flag k t ts = as @ t # bs"
proof (cases "flag = RT_IPC_FLAG_FIFO")
  case True then show ?thesis by (intro exI[of _ ts] exI[of _ "[]"]) (simp add: wait_list_def)
next
  case False
  then have "wait_list flag k t ts = prio_insert (\<lambda>x. current_priority (threads k x)) t ts"
    by (simp add: wait_list_def)
  then show ?thesis unfolding pins.ins_split by (metis takeWhile_dropWhile_id)
qed

lemma set_wait_list [simp]: "set (wait_list flag k t ts) = insert t (set ts)"
  by (simp add: wait_list_def)

text \<open>By priority, the waiting threads are sorted by priority number and those with
  equal priorities are in order of arrival.\<close>

lemma wait_list_sorted:
  assumes "flag = RT_IPC_FLAG_PRIO" "sorted (map (prio_of k) ts)"
  shows "sorted (map (prio_of k) (wait_list flag k t ts))"
    and "wait_list flag k t ts = filter (\<lambda>s. prio_of k s \<le> prio_of k t) ts @ t #
      filter (\<lambda>s. prio_of k t < prio_of k s) ts"
proof -
  have p: "\<forall>s \<in> set ts. (current_priority (threads k t) < current_priority (threads k s))
      \<longleftrightarrow> prio_of k t < prio_of k s" by (simp add: word_less_nat_alt)
  show "sorted (map (prio_of k) (wait_list flag k t ts))"
    "wait_list flag k t ts = filter (\<lambda>s. prio_of k s \<le> prio_of k t) ts @ t #
      filter (\<lambda>s. prio_of k t < prio_of k s) ts"
    using pins.ins_sorted[OF assms(2), of "\<lambda>x. current_priority (threads k x)" t]
      pins.ins_by_key[OF assms(2), of "\<lambda>x. current_priority (threads k x)" t] p assms(1)
    by (simp_all add: wait_list_def)
qed

lemma list_suspend_eq:
  assumes "stat_of k t = RT_THREAD_READY" "flag \<in> {0, 1}"
  defines "k1 \<equiv> snd (rt_thread_suspend t k)"
  shows "rt_ipc_list_suspend h t flag k = k1\<lparr>tlists := (tlists k1)(h := wait_list flag k t (tlists k1 h))\<rparr>"
proof -
  have "(\<lambda>x. current_priority (threads k1 x)) = (\<lambda>x. current_priority (threads k x))"
    by (auto simp: k1_def suspend_eq[OF assms(1)])
  then show ?thesis using assms(2)
    by (auto simp: rt_ipc_list_suspend_def wait_list_def push_back_def k1_def Let_def)
qed

text \<open>A ready thread is suspended and linked somewhere in a waiting list.\<close>

lemma suspend_onto_inv:
  assumes "kinv b {} k" "stat_of k t = RT_THREAD_READY" "waiting_head h" "tlists k h = as @ bs"
  defines "k1 \<equiv> snd (rt_thread_suspend t k)"
  defines "k' \<equiv> k1\<lparr>tlists := (tlists k1)(h := as @ t # bs)\<rparr>"
  shows "tlists k1 h = tlists k h" "kinv b {} k'" "stat_of k' t = RT_THREAD_SUSPEND"
    "ThreadTimer t \<notin> set (rt_timer_list k')" "\<not> active k' (ThreadTimer t)" "rt_tick k' = rt_tick k"
    "rt_timer_list k' = rt_timer_list k" "timers k' = timers k"
proof -
  note s = suspend_transition[OF assms(1) _ assms(2), simplified, folded k1_def]
  have "t \<notin> set (tlists k h)"
    using kinvD(4)[OF assms(1), of t] assms(2,3)
    by (auto simp: waiting_head_def thread_inv_def split: tlist_head.splits)
  then show l: "tlists k1 h = tlists k h" by (simp add: k1_def suspend_eq[OF assms(2)] unlink_def)
  show "stat_of k' t = RT_THREAD_SUSPEND" "ThreadTimer t \<notin> set (rt_timer_list k')" "\<not> active k' (ThreadTimer t)"
    using s(2,4,5) by (simp_all add: k'_def)
  show "rt_tick k' = rt_tick k" "rt_timer_list k' = rt_timer_list k" "timers k' = timers k"
    by (simp_all add: k'_def k1_def suspend_eq[OF assms(2)])
  have "thread_timer_inv k1 t" using s by (simp add: thread_timer_inv_def)
  then have "kinv b ({t} - {t}) k'" unfolding k'_def
    using s waiting_allows[OF assms(3)] l assms(4) by (intro kinv_link[OF s(1)]) auto
  then show "kinv b {} k'" by simp
qed

lemma list_suspend_inv:
  assumes "kinv b {} k" "stat_of k t = RT_THREAD_READY" "flag \<in> {0, 1}" "waiting_head h"
  defines "k' \<equiv> rt_ipc_list_suspend h t flag k"
  shows "kinv b {} k'" "stat_of k' t = RT_THREAD_SUSPEND" "tlists k' h = wait_list flag k t (tlists k h)"
    "ThreadTimer t \<notin> set (rt_timer_list k')" "\<not> active k' (ThreadTimer t)" "rt_tick k' = rt_tick k"
    "rt_timer_list k' = rt_timer_list k" "timers k' = timers k"
proof -
  obtain as bs where w: "tlists k h = as @ bs" "wait_list flag k t (tlists k h) = as @ t # bs"
    using wait_list_split by metis
  note o = suspend_onto_inv[OF assms(1,2,4) w(1)]
  have eq: "k' = snd (rt_thread_suspend t k)\<lparr>tlists := (tlists (snd (rt_thread_suspend t k)))(h := as @ t # bs)\<rparr>"
    using list_suspend_eq[OF assms(2,3), of h] w(2) o(1) by (simp add: k'_def)
  show "kinv b {} k'" "stat_of k' t = RT_THREAD_SUSPEND" "tlists k' h = wait_list flag k t (tlists k h)"
    "ThreadTimer t \<notin> set (rt_timer_list k')" "\<not> active k' (ThreadTimer t)" "rt_tick k' = rt_tick k"
    "rt_timer_list k' = rt_timer_list k" "timers k' = timers k"
    using o(2-) w(2) by (simp_all add: eq)
qed

text \<open>The timer of a thread that has just been suspended is started, if there is a time limit.\<close>

lemma wait_timer_inv:
  assumes "kinv b {} k" "stat_of k t = RT_THREAD_SUSPEND" "ThreadTimer t \<notin> set (rt_timer_list k)"
    "\<not> active k (ThreadTimer t)" "0 < sint time \<longrightarrow> unat (rt_tick k + time - b) < unat HALF_TICK_MAX"
  defines "k' \<equiv> rt_schedule (if 0 < sint time
    then snd (rt_timer_start (ThreadTimer t) (snd (rt_timer_control (ThreadTimer t) (Timer_Set_Time time) k)))
    else k)"
  shows "kinv b {} k'" "stat_of k' t = RT_THREAD_SUSPEND" "tlists k' = tlists k"
    "0 < sint time \<longrightarrow> ThreadTimer t \<in> set (rt_timer_list k') \<and>
      timeout_of k' (ThreadTimer t) = rt_tick k + time"
    "\<not> 0 < sint time \<longrightarrow> rt_timer_list k' = rt_timer_list k"
proof -
  let ?k2 = "snd (rt_timer_control (ThreadTimer t) (Timer_Set_Time time) k)"
  have "kinv b {} k' \<and> stat_of k' t = RT_THREAD_SUSPEND \<and> tlists k' = tlists k \<and>
    (0 < sint time \<longrightarrow> ThreadTimer t \<in> set (rt_timer_list k') \<and>
      timeout_of k' (ThreadTimer t) = rt_tick k + time) \<and>
    (\<not> 0 < sint time \<longrightarrow> rt_timer_list k' = rt_timer_list k)"
  proof (cases "0 < sint time")
    case False
    then show ?thesis using assms(1,2) by (simp add: k'_def)
  next
    case True
    note c = kinv_set_time[where n = time, OF assms(1,3)]
    have na: "\<not> active ?k2 (ThreadTimer t)" using c(3) assms(4) by simp
    have due: "due_tick ?k2 (ThreadTimer t) = rt_tick k + time" using c(2) by simp
    have st: "{t} = {} \<or> stat_of ?k2 t = RT_THREAD_SUSPEND" using assms(2) by simp
    have lt: "unat (rt_tick k + time - b) < unat HALF_TICK_MAX" using True assms(5) by blast
    note g = kinv_timer_start[OF c(1) _ na, unfolded due, OF _ lt]
    show ?thesis using True g assms(2) by (simp add: k'_def)
  qed
  then show "kinv b {} k'" "stat_of k' t = RT_THREAD_SUSPEND" "tlists k' = tlists k"
    "0 < sint time \<longrightarrow> ThreadTimer t \<in> set (rt_timer_list k') \<and>
      timeout_of k' (ThreadTimer t) = rt_tick k + time"
    "\<not> 0 < sint time \<longrightarrow> rt_timer_list k' = rt_timer_list k" by blast+
qed

text \<open>Blocking with an optional time limit.\<close>

lemma ipc_wait_inv:
  assumes "kinv b {} k" "stat_of k t = RT_THREAD_READY" "flag \<in> {0, 1}" "waiting_head h"
    "0 < sint time \<longrightarrow> unat (rt_tick k + time - b) < unat HALF_TICK_MAX"
  defines "k' \<equiv> ipc_wait h t flag time k"
  shows "kinv b {} k'" "stat_of k' t = RT_THREAD_SUSPEND" "tlists k' h = wait_list flag k t (tlists k h)"
    "0 < sint time \<longrightarrow> ThreadTimer t \<in> set (rt_timer_list k') \<and>
      timeout_of k' (ThreadTimer t) = rt_tick k + time"
    "\<not> 0 < sint time \<longrightarrow> rt_timer_list k' = rt_timer_list k"
proof -
  note s = list_suspend_inv[OF assms(1-4)]
  have "k' = rt_schedule (if 0 < sint time
    then snd (rt_timer_start (ThreadTimer t)
      (snd (rt_timer_control (ThreadTimer t) (Timer_Set_Time time) (rt_ipc_list_suspend h t flag k))))
    else rt_ipc_list_suspend h t flag k)" by (simp add: k'_def ipc_wait_def Let_def)
  note w = wait_timer_inv[OF s(1,2,4,5), of time, folded this, unfolded s(3,6,7), OF assms(5)]
  show "kinv b {} k'" "stat_of k' t = RT_THREAD_SUSPEND" "tlists k' h = wait_list flag k t (tlists k h)"
    "0 < sint time \<longrightarrow> ThreadTimer t \<in> set (rt_timer_list k') \<and>
      timeout_of k' (ThreadTimer t) = rt_tick k + time"
    "\<not> 0 < sint time \<longrightarrow> rt_timer_list k' = rt_timer_list k"
    using w s(3) by simp_all
qed

text \<open>Nothing else changes: no other thread, and no other waiting list.\<close>

lemma ipc_wait_frame:
  fixes time :: u32
  assumes "kinv b {} k" "stat_of k t = RT_THREAD_READY" "flag \<in> {0, 1}" "waiting_head h"
  defines "k' \<equiv> ipc_wait h t flag time k"
  shows "threads k' = (threads k)(t := (threads k t)\<lparr>th_stat := RT_THREAD_SUSPEND\<rparr>)"
    "rt_tick k' = rt_tick k" "waiting_head g \<Longrightarrow> g \<noteq> h \<Longrightarrow> tlists k' g = tlists k g"
proof -
  note eq = list_suspend_eq[OF assms(2,3), of h] suspend_eq[OF assms(2)]
  show "threads k' = (threads k)(t := (threads k t)\<lparr>th_stat := RT_THREAD_SUSPEND\<rparr>)"
    "rt_tick k' = rt_tick k"
    by (simp_all add: k'_def ipc_wait_def Let_def eq)
  assume g: "waiting_head g" "g \<noteq> h"
  then have "t \<notin> set (tlists k g)" using waiting_suspended[OF assms(1), of g t] assms(2) by auto
  then show "tlists k' g = tlists k g" using g(2)
    by (simp add: k'_def ipc_wait_def Let_def eq unlink_def)
qed

text \<open>Resuming a suspended thread moves it from its waiting list to the end of the
  ready queue of its priority.\<close>

lemma resume_fields:
  assumes "stat_of k t = RT_THREAD_SUSPEND"
  defines "k' \<equiv> snd (rt_thread_resume t k)"
  shows "threads k' = (threads k)(t := (threads k t)\<lparr>th_stat := RT_THREAD_READY\<rparr>)"
    "tlists k' = push_back (Ready (prio_of k t)) t (unlink t (tlists k))"
    "rt_tick k' = rt_tick k" "rt_current_thread k' = rt_current_thread k"
    "rt_scheduler_lock_nest k' = rt_scheduler_lock_nest k"
  using assms(1)
  by (simp_all add: k'_def rt_thread_resume_def Let_def)
     (simp_all add: rt_timer_stop_def rt_timer_remove_def upd_timer_def)

lemma waiting_not_ready: "waiting_head h \<Longrightarrow> h \<noteq> Ready p"
  by (auto simp: waiting_head_def)

lemma list_resume_inv:
  assumes "kinv b {} k" "waiting_head h" "tlists k h = t # ts"
  defines "k' \<equiv> rt_ipc_list_resume h k"
  shows "kinv b {} k'" "stat_of k' t = RT_THREAD_READY" "tlists k' h = ts"
    "tlists k' (Ready (prio_of k t)) = tlists k (Ready (prio_of k t)) @ [t]"
    "threads k' = (threads k)(t := (threads k t)\<lparr>th_stat := RT_THREAD_READY\<rparr>)"
    "rt_current_thread k' = rt_current_thread k" "rt_tick k' = rt_tick k"
proof -
  have s: "stat_of k t = RT_THREAD_SUSPEND" using waiting_suspended[OF assms(1,2)] assms(3) by simp
  have k': "k' = snd (rt_thread_resume t k)" using assms(3) by (simp add: k'_def rt_ipc_list_resume_def)
  note f = resume_fields[OF s, folded k']
  show "kinv b {} k'" unfolding k' by (rule thread_resume_inv[OF assms(1)]) simp
  show "stat_of k' t = RT_THREAD_READY" by (simp add: f)
  have ex: "exclusive (tlists k)" using kinvD(1)[OF assms(1)] by (simp add: sched_inv_def)
  have u: "unlink t (tlists k) = (tlists k)(h := ts)" using unlink_eq[OF ex, of h "[]" t ts] assms(3) by simp
  show "tlists k' h = ts" "tlists k' (Ready (prio_of k t)) = tlists k (Ready (prio_of k t)) @ [t]"
    using waiting_not_ready[OF assms(2), of "prio_of k t"] by (simp_all add: f u push_back_def)
  show "threads k' = (threads k)(t := (threads k t)\<lparr>th_stat := RT_THREAD_READY\<rparr>)"
    "rt_current_thread k' = rt_current_thread k" "rt_tick k' = rt_tick k" by (simp_all add: f)
qed

text \<open>Resuming all waiting threads ends, empties the list and tells each thread
  \<^verbatim>\<open>-RT_ERROR\<close>.\<close>

definition dismissed :: "rt_thread \<Rightarrow> rt_thread" where
  "dismissed th = th\<lparr>th_error := - RT_ERROR, th_stat := RT_THREAD_READY\<rparr>"

lemma list_resume_all_inv:
  assumes "kinv b {} k" "waiting_head h"
  shows "\<exists>k'. rt_ipc_list_resume_all h k = Some k' \<and> kinv b {} k' \<and> tlists k' h = [] \<and>
    (\<forall>t. threads k' t = (if t \<in> set (tlists k h) then dismissed (threads k t) else threads k t)) \<and>
    (\<forall>g. waiting_head g \<longrightarrow> g \<noteq> h \<longrightarrow> tlists k' g = tlists k g) \<and>
    rt_current_thread k' = rt_current_thread k \<and> rt_tick k' = rt_tick k"
  using assms(1)
proof (induction "tlists k h" arbitrary: k)
  case Nil
  then show ?case by (subst rt_ipc_list_resume_all.simps) simp
next
  case (Cons t ts)
  let ?k1 = "upd_thread t (\<lambda>th. th\<lparr>th_error := - RT_ERROR\<rparr>) k"
  have i: "kinv b {} ?k1" by (rule kinv_upd_field[OF Cons.prems]) simp_all
  have l: "tlists ?k1 h = t # ts" using Cons(2) by simp
  note r = list_resume_inv[OF i assms(2) l]
  let ?k2 = "rt_ipc_list_resume h ?k1"
  have step: "rt_ipc_list_resume_all h k = rt_ipc_list_resume_all h ?k2"
    using Cons(2)[symmetric] by (subst rt_ipc_list_resume_all.simps) (simp add: rt_ipc_list_resume_def)
  have ex: "exclusive (tlists k)" using kinvD(1)[OF Cons.prems] by (simp add: sched_inv_def)
  have nt: "t \<notin> set ts" using exclusiveD(2)[OF ex, of h] Cons(2) by (metis distinct.simps(2))
  have other: "tlists ?k2 g = tlists k g" if "waiting_head g" "g \<noteq> h" for g
  proof -
    have "t \<notin> set (tlists k g)" using exclusiveD(1)[OF ex, of t h g] that(2) Cons(2)[symmetric] by auto
    moreover have "stat_of ?k1 t = RT_THREAD_SUSPEND" using waiting_suspended[OF i assms(2), of t] l by simp
    ultimately show ?thesis using waiting_not_ready[OF that(1)] Cons(2)[symmetric]
      by (simp add: rt_ipc_list_resume_def resume_fields push_back_def unlink_def)
  qed
  show ?case using Cons(1)[of ?k2, OF _ r(1)] r(3,5,6,7) Cons(2)[symmetric] nt other
    unfolding step by (auto simp: dismissed_def)
qed

end
