(* ===== verification/Clock.thy ===== *)
theory Clock
  imports Thread
begin

text \<open>
  The clock tick (\<^verbatim>\<open>src/clock.c\<close>), which drives time slices and timers, and the
  clean-up of dead threads by the idle thread (\<^verbatim>\<open>src/idle.c\<close>).  The lemmas follow
  one tick through the time slice and the timer check; the properties at the end
  say when a sleeping thread runs again.
\<close>

section \<open>The clock\<close>

text \<open>The built-in timer of a thread calls \<^verbatim>\<open>rt_thread_timeout\<close>; the functions of
  other timers are code of the application and a parameter.\<close>

definition timeout_func ::
  "(nat \<Rightarrow> 'a kernel_scheme \<Rightarrow> 'a kernel_scheme) \<Rightarrow> rt_timer_ref \<Rightarrow> 'a kernel_scheme \<Rightarrow> 'a kernel_scheme" where
  "timeout_func user r = (case r of ThreadTimer t \<Rightarrow> rt_thread_timeout t | UserTimer n \<Rightarrow> user n)"

definition rt_tick_increase ::
  "(nat \<Rightarrow> 'a kernel_scheme \<Rightarrow> 'a kernel_scheme) \<Rightarrow> 'a kernel_scheme \<Rightarrow> 'a kernel_scheme option" where
  "rt_tick_increase user k =
    (let k = k\<lparr>rt_tick := rt_tick k + 1\<rparr>
     in case rt_thread_self k of
          None \<Rightarrow> Some (k\<lparr>k_status := Bad_Access\<rparr>)
        | Some t \<Rightarrow>
            let k = upd_thread t (\<lambda>th. th\<lparr>remaining_tick := remaining_tick th - 1\<rparr>) k;
                k = (if remaining_tick (threads k t) = 0
                     then rt_thread_yield (upd_thread t (\<lambda>th. th\<lparr>remaining_tick := th_init_tick th\<rparr>) k)
                     else k)
            in rt_timer_check (timeout_func user) k)"

definition rt_tick_from_millisecond :: "u32 \<Rightarrow> u32" where
  "rt_tick_from_millisecond ms = (200 * ms + 999) div 1000"


section \<open>The idle thread\<close>

partial_function (option) rt_thread_idle_excute ::
  "(nat \<Rightarrow> nat \<Rightarrow> 'a kernel_scheme \<Rightarrow> 'a kernel_scheme) \<Rightarrow> 'a kernel_scheme \<Rightarrow> 'a kernel_scheme option" where
  [code]: "rt_thread_idle_excute cleanup k =
    (case tlists k Defunct of
       [] \<Rightarrow> Some k
     | t # _ \<Rightarrow>
        let k = k\<lparr>tlists := unlink t (tlists k)\<rparr>;
            k = (case th_cleanup (threads k t) of None \<Rightarrow> k | Some f \<Rightarrow> cleanup f t k)
        in if rt_object_is_systemobject (ThreadObj t) k then Some k
           else let k = k\<lparr>k_freed := StackMem t # k_freed k\<rparr>;
                    k = rt_object_delete (ThreadObj t) k
                in rt_thread_idle_excute cleanup k)"

definition rt_thread_idle_init :: "nat \<Rightarrow> u32 \<Rightarrow> 'a kernel_scheme \<Rightarrow> 'a kernel_scheme" where
  "rt_thread_idle_init idle rt_thread_stack k =
    rt_thread_startup idle
      (rt_thread_init idle ''tidle'' 0 0 rt_thread_stack 1024 (of_nat (RT_THREAD_PRIORITY_MAX - 1)) 32 k)"


section \<open>The tick\<close>

lemma timeout_frame [simp]:
  "timers (rt_thread_timeout t k) = timers k"
  "rt_timer_list (rt_thread_timeout t k) = rt_timer_list k"
  "rt_tick (rt_thread_timeout t k) = rt_tick k"
  "threads (rt_thread_timeout t k) = (threads k)(t := (threads k t)\<lparr>th_error := - RT_ETIMEOUT,
     th_stat := RT_THREAD_READY\<rparr>)"
  by (simp_all add: rt_thread_timeout_def Let_def)

interpretation clk: timeout_dispatch "timeout_func user" "\<lambda>r. \<exists>t. r = ThreadTimer t" for user
  by unfold_locales (auto simp: timeout_func_def)

lemma upd_timer_schedule: "upd_timer r f (rt_schedule k) = rt_schedule (upd_timer r f k)"
  by (simp add: upd_timer_def rt_schedule_def highest_ready_def Let_def split: option.split)

lemma upd_timer_insert: "upd_timer r f (rt_schedule_insert_thread t k) = rt_schedule_insert_thread t (upd_timer r f k)"
  by (simp add: upd_timer_def rt_schedule_insert_thread_def upd_thread_def Let_def)

lemma kinv_timer_remove:
  assumes "kinv b S k" "t \<in> S"
  shows "kinv b S (rt_timer_remove (ThreadTimer t) k)"
proof -
  let ?k = "rt_timer_remove (ThreadTimer t) k"
  have "thread_timer_inv ?k x = thread_timer_inv k x" if "x \<noteq> t" for x
    using that by (simp add: thread_timer_inv_def rt_timer_remove_def)
  then have "\<forall>x. x \<notin> S \<longrightarrow> thread_timer_inv ?k x" using kinvD(3)[OF assms(1)] assms(2) by metis
  moreover have "timers_wf b ?k" by (rule timers_wf_remove[OF kinvD(2)[OF assms(1)]])
  moreover have "sched_inv S ?k = sched_inv S k" by (rule sched_inv_cong) (simp_all add: rt_timer_remove_def)
  ultimately show ?thesis using kinvD(1)[OF assms(1)] by (simp add: kinv_def)
qed

text \<open>Firing the timer of a thread wakes exactly that thread.\<close>

definition woken :: "rt_thread \<Rightarrow> rt_thread" where
  "woken th = th\<lparr>th_error := - RT_ETIMEOUT, th_stat := RT_THREAD_READY\<rparr>"

lemma fire_thread_timer:
  fixes user :: "nat \<Rightarrow> 'a kernel_scheme \<Rightarrow> 'a kernel_scheme"
  assumes "kinv b {} k" "ThreadTimer t \<in> set (rt_timer_list k)"
  defines "k' \<equiv> timer_fire (timeout_func user) (ThreadTimer t) k"
  shows "kinv b {} k'" "threads k' = (threads k)(t := woken (threads k t))"
proof -
  let ?r = "ThreadTimer t"
  let ?clear = "\<lambda>m. m\<lparr>tm_flag := tm_flag m AND NOT RT_TIMER_FLAG_ACTIVATED\<rparr>"
  have i: "thread_inv k t" "thread_timer_inv k t" using assms(1) by (auto dest: kinvD)
  then have s: "stat_of k t = RT_THREAD_SUSPEND" "\<not> periodic k ?r" "prio_ok (threads k t)"
    using assms(2) by (auto simp: thread_timer_inv_def thread_inv_def)
  define k1 where "k1 = upd_thread t (\<lambda>th. th\<lparr>th_error := - RT_ETIMEOUT\<rparr>)
    (upd_timer ?r ?clear (rt_timer_remove ?r (k\<lparr>tlists := unlink t (tlists k)\<rparr>)))"
  have "k1 = upd_timer ?r ?clear
    ((upd_thread t (\<lambda>th. th\<lparr>th_error := - RT_ETIMEOUT\<rparr>) (rt_timer_remove ?r k))
      \<lparr>tlists := unlink t (tlists k)\<rparr>)"
    by (simp add: k1_def upd_timer_def upd_thread_def rt_timer_remove_def)
  then have "k' = rt_schedule (rt_schedule_insert_thread t k1)"
    using s(2) unfolding k'_def timer_fire_def timeout_func_def
    by (simp add: Let_def rt_thread_timeout_def upd_timer_schedule upd_timer_insert)
  moreover have k1: "kinv b {t} k1" unfolding k1_def
    using unlink_transition[OF assms(1), of t] s(1)
    by (intro kinv_upd_thread kinv_upd_timer kinv_timer_remove) (simp_all add: rt_timer_remove_def)
  moreover have "kinv b ({t} - {t}) (rt_schedule_insert_thread t k1)"
    using s by (intro kinv_insert_thread[OF k1])
      (auto simp: k1_def prio_ok_def upd_timer_def rt_timer_remove_def)
  ultimately show "kinv b {} k'" by simp
  show "threads k' = (threads k)(t := woken (threads k t))"
    using \<open>k' = _\<close> by (simp add: k1_def woken_def upd_timer_def rt_timer_remove_def)
qed

definition thread_timers_only :: "'a ktimer_scheme \<Rightarrow> bool" where
  "thread_timers_only k \<longleftrightarrow> (\<forall>r \<in> set (rt_timer_list k). \<exists>t. r = ThreadTimer t)"

lemma thread_timers_restartable:
  assumes "kinv b {} k" "thread_timers_only k"
  shows "restartable k"
proof -
  have "\<not> periodic k r" if "r \<in> set (rt_timer_list k)" for r
    using that assms(2) kinvD(3)[OF assms(1)] by (fastforce simp: thread_timers_only_def thread_timer_inv_def)
  then show ?thesis by (simp add: restartable_def)
qed

lemma current_kept [simp]:
  "rt_current_thread k \<noteq> None \<Longrightarrow> rt_current_thread (rt_schedule k) \<noteq> None"
  "rt_current_thread k \<noteq> None \<Longrightarrow> rt_current_thread (rt_thread_yield k) \<noteq> None"
  "rt_current_thread k \<noteq> None \<Longrightarrow> rt_current_thread (rt_thread_timeout t k) \<noteq> None"
proof -
  show s: "rt_current_thread (rt_schedule k) \<noteq> None" if "rt_current_thread k \<noteq> None" for k :: "'a kernel_scheme"
    using that by (auto simp: rt_schedule_def Let_def split: option.split)
  show y: "rt_current_thread (rt_thread_yield k) \<noteq> None" if "rt_current_thread k \<noteq> None" for k :: "'b kernel_scheme"
    using that by (auto simp: rt_thread_yield_def rt_schedule_def Let_def split: option.split)
  show "rt_current_thread (rt_thread_timeout t k) \<noteq> None" if "rt_current_thread k \<noteq> None" for k :: "'c kernel_scheme"
    using that by (auto simp: rt_thread_timeout_def rt_schedule_def Let_def split: option.split)
qed

lemma current_fire:
  assumes "rt_current_thread k \<noteq> None" "\<not> periodic k (ThreadTimer t)"
  shows "rt_current_thread (timer_fire (timeout_func user) (ThreadTimer t) k) \<noteq> None"
  using assms current_kept(3)[of "rt_timer_remove (ThreadTimer t) k" t]
  by (simp add: timer_fire_def timeout_func_def Let_def upd_timer_def rt_timer_remove_def)

text \<open>The whole timer check on a kernel whose running timers are thread timers.\<close>

lemma timer_check_wakes:
  assumes "kinv b {} k" "rt_tick k = b + 1" "thread_timers_only k"
  obtains k' where "rt_timer_check (timeout_func user) k = Some k'" "kinv (b + 1) {} k'"
    "rt_tick k' = b + 1" "rt_timer_list k = expired b k @ rt_timer_list k'"
    "\<And>r. r \<notin> set (expired b k) \<Longrightarrow> timers k' r = timers k r"
    "\<And>x. threads k' x = (if ThreadTimer x \<in> set (expired b k) then woken (threads k x) else threads k x)"
    "rt_current_thread k \<noteq> None \<Longrightarrow> rt_current_thread k' \<noteq> None"
proof -
  have pre: "timers_wf b k" "restartable k" "\<forall>r \<in> set (rt_timer_list k). \<exists>t. r = ThreadTimer t"
    using assms thread_timers_restartable[OF assms(1,3)] by (auto simp: kinv_def thread_timers_only_def)
  define k' where "k' = fold (timer_fire (timeout_func user)) (expired b k) k"
  obtain c: "rt_timer_check (timeout_func user) k = Some k'" "timers_wf (b + 1) k'"
    "expired b k' = []" "rt_tick k' = b + 1"
    using clk.check_fires[OF pre(1) assms(2) pre(2,3), of user] unfolding k'_def by metis
  define P where "P s \<longleftrightarrow> kinv b {} s \<and> (rt_current_thread k \<noteq> None \<longrightarrow> rt_current_thread s \<noteq> None) \<and> (\<exists>es. expired b k = es @ expired b s \<and>
    rt_timer_list k = es @ rt_timer_list s \<and> (\<forall>r. r \<notin> set es \<longrightarrow> timers s r = timers k r) \<and>
    (\<forall>x. threads s x = (if ThreadTimer x \<in> set es then woken (threads k x) else threads k x)))"
    for s :: "'a kernel_scheme"
  have d: "distinct (expired b k)" using pre(1) by (simp add: expired_def timers_wf_def)
  have "P k'" unfolding k'_def
  proof (rule clk.check_induct[OF pre(1) assms(2) pre(2,3)])
    show "P k" using assms(1) by (auto simp: P_def)
  next
    fix s r rs
    assume s: "P s" "timers_wf b s" "rt_timer_list s = r # rs" "\<exists>t. r = ThreadTimer t"
      "expired b s = r # expired b (timer_fire (timeout_func user) r s)"
    then obtain t es where t: "r = ThreadTimer t" and k: "kinv b {} s"
      and es: "expired b k = es @ expired b s" "rt_timer_list k = es @ rt_timer_list s"
      "\<forall>r. r \<notin> set es \<longrightarrow> timers s r = timers k r"
      "\<forall>x. threads s x = (if ThreadTimer x \<in> set es then woken (threads k x) else threads k x)"
      by (auto simp: P_def)
    have np: "\<not> periodic s r"
      using kinvD(3)[OF k, of t] s(3) t by (auto simp: thread_timer_inv_def)
    note f = fire_thread_timer[OF k, of t user] clk.fire_oneshot[OF s(2,3) np s(4), of user]
    have "rt_current_thread k \<noteq> None \<longrightarrow> rt_current_thread (timer_fire (timeout_func user) r s) \<noteq> None"
      using s(1) current_fire[of s t user] np t by (simp add: P_def)
    moreover have "r \<notin> set es" using d es(1) s(5) by simp
    ultimately show "P (timer_fire (timeout_func user) r s)"
      using f s(3,5) es t by (auto simp: P_def intro!: exI[of _ "es @ [r]"])
  qed
  then have p: "rt_current_thread k \<noteq> None \<Longrightarrow> rt_current_thread k' \<noteq> None"
    "kinv b {} k'" "rt_timer_list k = expired b k @ rt_timer_list k'"
    "\<forall>r. r \<notin> set (expired b k) \<longrightarrow> timers k' r = timers k r" "\<forall>x. threads k' x =
      (if ThreadTimer x \<in> set (expired b k) then woken (threads k x) else threads k x)"
    using c(3) by (auto simp: P_def)
  then have "kinv (b + 1) {} k'" using c(2) by (simp add: kinv_def)
  then show ?thesis using that[OF c(1) _ c(4)] p by blast
qed

text \<open>What happens before the timer check of a tick: the time slice of the running
  thread.  It concerns no thread's state and no timer.\<close>

definition time_slice :: "nat \<Rightarrow> 'a kernel_scheme \<Rightarrow> 'a kernel_scheme" where
  "time_slice t k =
    (let k = upd_thread t (\<lambda>th. th\<lparr>remaining_tick := remaining_tick th - 1\<rparr>) k
     in if remaining_tick (threads k t) = 0
        then rt_thread_yield (upd_thread t (\<lambda>th. th\<lparr>remaining_tick := th_init_tick th\<rparr>) k)
        else k)"

lemma yield_fields [simp]:
  "threads (rt_thread_yield k) = threads k"
  "timers (rt_thread_yield k) = timers k"
  "rt_timer_list (rt_thread_yield k) = rt_timer_list k"
  "rt_tick (rt_thread_yield k) = rt_tick k"
  by (simp_all add: rt_thread_yield_def Let_def split: option.split)

lemma time_slice_fields [simp]:
  "timers (time_slice t k) = timers k"
  "rt_timer_list (time_slice t k) = rt_timer_list k"
  "rt_tick (time_slice t k) = rt_tick k"
  "th_stat (threads (time_slice t k) x) = th_stat (threads k x)"
  "th_error (threads (time_slice t k) x) = th_error (threads k x)"
  by (simp_all add: time_slice_def Let_def)

lemma time_slice_current:
  "rt_current_thread k \<noteq> None \<Longrightarrow> rt_current_thread (time_slice t k) \<noteq> None"
  by (simp add: time_slice_def Let_def current_kept(2) del: not_None_eq)

lemma kinv_time_slice:
  assumes "kinv b {} k" "rt_current_thread k = Some t"
  shows "kinv b {} (time_slice t k)"
proof -
  have "kinv b {} (upd_thread t (\<lambda>th. th\<lparr>remaining_tick := remaining_tick th - 1\<rparr>) k)"
    by (rule kinv_upd_field) (use assms in auto)
  moreover have "kinv b {} (rt_thread_yield (upd_thread t (\<lambda>th. th\<lparr>remaining_tick := th_init_tick th\<rparr>) k'))"
    if "kinv b {} k'" "rt_current_thread k' = Some t" for k' :: "'a kernel_scheme"
    using that by (intro thread_yield_inv kinv_upd_field) auto
  ultimately show ?thesis using assms(2) by (simp add: time_slice_def Let_def)
qed

text \<open>One tick of the clock.\<close>

lemma tick_increase_effect:
  fixes k :: "'a kernel_scheme"
  assumes "kernel_inv k" "thread_timers_only k" "rt_current_thread k \<noteq> None"
  obtains k' where "rt_tick_increase user k = Some k'" "kernel_inv k'" "rt_tick k' = rt_tick k + 1"
    "thread_timers_only k'" "rt_current_thread k' \<noteq> None"
    "rt_timer_list k = expired (rt_tick k) k @ rt_timer_list k'"
    "\<And>r. r \<in> set (rt_timer_list k') \<Longrightarrow> timers k' r = timers k r"
    "\<And>x. th_stat (threads k' x) = (if ThreadTimer x \<in> set (expired (rt_tick k) k)
       then RT_THREAD_READY else th_stat (threads k x))"
    "\<And>x. th_error (threads k' x) = (if ThreadTimer x \<in> set (expired (rt_tick k) k)
       then - RT_ETIMEOUT else th_error (threads k x))"
proof -
  obtain t where t: "rt_current_thread k = Some t" using assms(3) by auto
  let ?b = "rt_tick k"
  let ?k0 = "k\<lparr>rt_tick := rt_tick k + 1\<rparr>"
  let ?k1 = "time_slice t ?k0"
  have "kinv ?b {} ?k0" using assms(1) sched_inv_cong[of ?k0 k] timers_wf_cong[of ?k0 k]
    by (simp add: kinv_def thread_timer_inv_def)
  then have i: "kinv ?b {} ?k1" by (rule kinv_time_slice) (simp add: t)
  have o: "thread_timers_only ?k1" using assms(2) by (simp add: thread_timers_only_def)
  have e: "expired ?b ?k1 = expired ?b k" by (simp add: expired_def)
  obtain k' where k': "rt_timer_check (timeout_func user) ?k1 = Some k'" "kinv (?b + 1) {} k'"
    "rt_tick k' = ?b + 1" "rt_timer_list ?k1 = expired ?b ?k1 @ rt_timer_list k'"
    "\<And>r. r \<notin> set (expired ?b ?k1) \<Longrightarrow> timers k' r = timers ?k1 r"
    "\<And>x. threads k' x = (if ThreadTimer x \<in> set (expired ?b ?k1) then woken (threads ?k1 x) else threads ?k1 x)"
    "rt_current_thread ?k1 \<noteq> None \<Longrightarrow> rt_current_thread k' \<noteq> None"
    using timer_check_wakes[OF i _ o, of user] by auto
  have tick: "rt_tick_increase user k = Some k'"
    using t k'(1) by (simp add: rt_tick_increase_def rt_thread_self_def time_slice_def Let_def)
  have "rt_current_thread k' \<noteq> None" using k'(7) time_slice_current[of ?k0 t] t by simp
  moreover have "timers k' r = timers k r" if "r \<in> set (rt_timer_list k')" for r
    using k'(4,5) that kinvD(2)[OF i] by (auto simp: timers_wf_def)
  ultimately show ?thesis using that[OF tick] k' o e
    by (simp add: thread_timers_only_def woken_def)
qed

section \<open>How long a thread sleeps\<close>

fun run_ticks ::
  "(nat \<Rightarrow> 'a kernel_scheme \<Rightarrow> 'a kernel_scheme) \<Rightarrow> nat \<Rightarrow> 'a kernel_scheme \<Rightarrow> 'a kernel_scheme option" where
  "run_ticks user 0 k = Some k"
| "run_ticks user (Suc n) k = Option.bind (rt_tick_increase user k) (run_ticks user n)"

lemma due_zero_or_later:
  assumes "due_in tt b r = Suc (Suc d)"
  shows "due_in tt (b + 1) r = Suc d"
  using assms due_in_next[of tt b r] by simp

text \<open>A thread whose timer is due in \<open>d\<close> ticks stays suspended through fewer ticks and is
  ready after \<open>max 1 d\<close> ticks.\<close>

lemma run_ticks_waiting:
  assumes "kernel_inv k" "thread_timers_only k" "rt_current_thread k \<noteq> None"
    "ThreadTimer t \<in> set (rt_timer_list k)" "m < max 1 (due_in (timeout_of k) (rt_tick k) (ThreadTimer t))"
  shows "\<exists>k'. run_ticks user m k = Some k' \<and> kernel_inv k' \<and> thread_timers_only k' \<and>
    rt_current_thread k' \<noteq> None \<and> ThreadTimer t \<in> set (rt_timer_list k') \<and>
    stat_of k' t = RT_THREAD_SUSPEND \<and> max 1 (due_in (timeout_of k') (rt_tick k') (ThreadTimer t)) + m =
      max 1 (due_in (timeout_of k) (rt_tick k) (ThreadTimer t))"
  using assms
proof (induction m arbitrary: k)
  case 0
  then have "stat_of k t = RT_THREAD_SUSPEND" using kinvD(3)[of "rt_tick k" "{}" k t]
    by (auto simp: thread_timer_inv_def)
  then show ?case using 0 by simp
next
  case (Suc m)
  let ?r = "ThreadTimer t" and ?d = "due_in (timeout_of k) (rt_tick k) (ThreadTimer t)"
  obtain d where d: "?d = Suc (Suc d)" "m < Suc d" using Suc.prems(5)
    by (cases ?d; cases "?d - 1") auto
  obtain k1 where k1: "rt_tick_increase user k = Some k1" "kernel_inv k1" "rt_tick k1 = rt_tick k + 1"
    "thread_timers_only k1" "rt_current_thread k1 \<noteq> None"
    "rt_timer_list k = expired (rt_tick k) k @ rt_timer_list k1"
    "\<And>r. r \<in> set (rt_timer_list k1) \<Longrightarrow> timers k1 r = timers k r"
    using tick_increase_effect[OF Suc.prems(1-3), of user] by metis
  have "?r \<notin> set (expired (rt_tick k) k)" using d by (simp add: expired_def)
  then have l: "?r \<in> set (rt_timer_list k1)" using Suc.prems(4) k1(6) by (metis UnE set_append)
  have due: "due_in (timeout_of k1) (rt_tick k1) ?r = Suc d"
    using due_zero_or_later[OF d(1)] k1(3,7) l by (simp add: due_in_def)
  obtain k' where "run_ticks user m k1 = Some k'" "kernel_inv k' \<and> thread_timers_only k' \<and>
    rt_current_thread k' \<noteq> None \<and> ?r \<in> set (rt_timer_list k') \<and> stat_of k' t = RT_THREAD_SUSPEND"
    "max 1 (due_in (timeout_of k') (rt_tick k') ?r) + m = max 1 (Suc d)"
    using Suc.IH[OF k1(2,4,5) l] d(2) due by auto
  then show ?case using k1(1) d by (intro exI[of _ k']) simp
qed

lemma run_ticks_Suc: "run_ticks user (Suc n) k = Option.bind (run_ticks user n k) (rt_tick_increase user)"
proof (induction n arbitrary: k)
  case 0
  show ?case by (cases "rt_tick_increase user k") simp_all
next
  case (Suc n)
  show ?case
    unfolding run_ticks.simps(2)[of user "Suc n" k] run_ticks.simps(2)[of user n k]
    using Suc.IH by (cases "rt_tick_increase user k") (simp_all del: run_ticks.simps(2))
qed

lemma run_ticks_wakes:
  assumes "kernel_inv k" "thread_timers_only k" "rt_current_thread k \<noteq> None"
    "ThreadTimer t \<in> set (rt_timer_list k)" "m = max 1 (due_in (timeout_of k) (rt_tick k) (ThreadTimer t))"
  shows "\<exists>k'. run_ticks user m k = Some k' \<and> kernel_inv k' \<and> stat_of k' t = RT_THREAD_READY \<and>
    th_error (threads k' t) = - RT_ETIMEOUT"
proof -
  have "0 < m" using assms(5) by simp
  then obtain n where m: "m = Suc n" using gr0_implies_Suc by blast
  obtain k1 where k1: "run_ticks user n k = Some k1" "kernel_inv k1" "thread_timers_only k1"
    "rt_current_thread k1 \<noteq> None" "ThreadTimer t \<in> set (rt_timer_list k1)"
    "max 1 (due_in (timeout_of k1) (rt_tick k1) (ThreadTimer t)) = 1"
    using run_ticks_waiting[OF assms(1-4), of n user] assms(5) m by auto
  have "ThreadTimer t \<in> set (expired (rt_tick k1) k1)" using k1(5,6) by (auto simp: expired_def)
  then obtain k' where "rt_tick_increase user k1 = Some k'" "kernel_inv k'"
    "stat_of k' t = RT_THREAD_READY" "th_error (threads k' t) = - RT_ETIMEOUT"
    using tick_increase_effect[OF k1(2-4), of user] by metis
  then show ?thesis unfolding m run_ticks_Suc k1(1) by simp
qed

section \<open>Properties of the clock\<close>

text \<open>A small running system: the idle thread 0 and the threads 1 and 2 with
  priorities 8 and 9, after the scheduler has been started.\<close>

definition demo_kernel :: kernel where
  "demo_kernel = rt_system_scheduler_start
    (rt_thread_startup 2 (rt_thread_startup 1
      (rt_thread_init 2 ''auto'' 2 0 0x20003000 1024 9 20
        (rt_thread_init 1 ''arm'' 1 0 0x20002000 1024 8 20
          (rt_thread_idle_init 0 0x20001000 kernel_boot)))))"

lemma demo_current: "rt_current_thread demo_kernel = Some 1"
  by code_simp

lemma kinv_switch:
  "kinv b S (k\<lparr>rt_current_thread := x\<rparr>) = kinv b S k" "kinv b S (k\<lparr>k_status := y\<rparr>) = kinv b S k"
  by (auto simp: kinv_def thread_timer_inv_def timers_wf_def sched_inv_def thread_inv_def prio_ok_def)

lemma scheduler_start_inv: "kinv b S (rt_system_scheduler_start k) = kinv b S k"
  by (simp add: rt_system_scheduler_start_def kinv_switch split: option.split)

lemma thread_init_fresh_inv:
  assumes "kinv b {} k" "stat_of k t = RT_THREAD_INIT"
  shows "kinv b {} (rt_thread_init t name entry parameter stack_start stack_size priority tick k)"
  using assms(2) unlinked_iff[OF kinvD(4)[OF assms(1)] assms(2)] kinvD(3)[OF assms(1), of t]
  by (intro thread_init_inv[OF assms(1)]) (auto simp: thread_timer_inv_def)

definition demo_threads :: kernel where
  "demo_threads = rt_thread_init 2 ''auto'' 2 0 0x20003000 1024 9 20
    (rt_thread_init 1 ''arm'' 1 0 0x20002000 1024 8 20
      (rt_thread_idle_init 0 0x20001000 kernel_boot))"

lemma demo_threads_inv: "kinv 0 {} demo_threads"
proof -
  have idle: "kinv 0 {} (rt_thread_idle_init 0 0x20001000 kernel_boot)"
    unfolding rt_thread_idle_init_def
    by (intro thread_startup_inv thread_init_fresh_inv kernel_boot_inv) code_simp+
  show ?thesis unfolding demo_threads_def
    by (intro thread_init_fresh_inv idle) code_simp+
qed

lemma demo_kernel_inv: "kernel_inv demo_kernel"
proof -
  have d: "demo_kernel = rt_system_scheduler_start (rt_thread_startup 2 (rt_thread_startup 1 demo_threads))"
    by (simp add: demo_kernel_def demo_threads_def)
  have "kinv 0 {} demo_kernel" unfolding d scheduler_start_inv
    by (intro thread_startup_inv demo_threads_inv) code_simp+
  moreover have "rt_tick demo_kernel = 0" by code_simp
  ultimately show ?thesis by simp
qed

lemma timer_start_list:
  "set (rt_timer_list (snd (rt_timer_start r k))) \<subseteq> insert r (set (rt_timer_list k))"
  by (auto simp: rt_timer_start_def upd_timer_def Let_def)

lemma sleep_keeps:
  assumes "rt_current_thread k = Some t" "thread_timers_only k"
  shows "thread_timers_only (rt_thread_sleep n k)" "rt_current_thread (rt_thread_sleep n k) \<noteq> None"
proof -
  let ?k = "snd (rt_timer_control (ThreadTimer t) (Timer_Set_Time n) (snd (rt_thread_suspend t k)))"
  have sl: "rt_thread_sleep n k = rt_schedule (snd (rt_timer_start (ThreadTimer t) ?k))"
    using assms(1) by (simp add: rt_thread_sleep_def Let_def)
  have l: "rt_timer_list ?k = rt_timer_list k" by (simp add: rt_thread_suspend_def)
  then show "thread_timers_only (rt_thread_sleep n k)"
    using assms(2) timer_start_list[of "ThreadTimer t" ?k] by (auto simp: thread_timers_only_def sl)
  have "rt_current_thread (snd (rt_timer_start (ThreadTimer t) ?k)) = Some t"
    using assms(1) by (simp add: rt_timer_start_def rt_timer_control_def upd_timer_def
        rt_thread_suspend_def Let_def)
  then show "rt_current_thread (rt_thread_sleep n k) \<noteq> None" unfolding sl by (simp del: not_None_eq)
qed

text \<open>C7: \<^verbatim>\<open>rt_thread_sleep(n)\<close>, with \<open>n\<close> below half the tick range, suspends the calling
  thread for exactly \<open>max 1 n\<close> clock ticks: after fewer ticks it is still suspended, after
  that many it is ready again, and the kernel invariant holds throughout.\<close>

theorem sleep_duration:
  assumes "kernel_inv k" "thread_timers_only k" "rt_current_thread k = Some t"
    "stat_of k t = RT_THREAD_READY" "unat n < unat HALF_TICK_MAX"
  shows "(\<forall>m < max 1 (unat n). \<exists>k'. run_ticks user m (rt_thread_sleep n k) = Some k' \<and>
      kernel_inv k' \<and> stat_of k' t = RT_THREAD_SUSPEND) \<and>
    (\<exists>k'. run_ticks user (max 1 (unat n)) (rt_thread_sleep n k) = Some k' \<and>
      kernel_inv k' \<and> stat_of k' t = RT_THREAD_READY)"
proof -
  define k1 where "k1 = snd (rt_timer_start (ThreadTimer t) (snd (rt_timer_control (ThreadTimer t)
    (Timer_Set_Time n) (snd (rt_thread_suspend t k)))))"
  have sl: "rt_thread_sleep n k = rt_schedule k1" using assms(3) by (simp add: rt_thread_sleep_def Let_def k1_def)
  have "unat (rt_tick k + n - rt_tick k) < unat HALF_TICK_MAX" using assms(5) by simp
  note s = sleep_transition[OF assms(1,4) this, folded k1_def]
  have k: "kernel_inv (rt_thread_sleep n k)" "ThreadTimer t \<in> set (rt_timer_list (rt_thread_sleep n k))"
    "timeout_of (rt_thread_sleep n k) (ThreadTimer t) = rt_tick k + n"
    "rt_tick (rt_thread_sleep n k) = rt_tick k"
    using s by (simp_all add: sl)
  have due: "due_in (timeout_of (rt_thread_sleep n k)) (rt_tick (rt_thread_sleep n k)) (ThreadTimer t) = unat n"
    using k by (simp add: due_in_def)
  have o: "thread_timers_only (rt_thread_sleep n k)" "rt_current_thread (rt_thread_sleep n k) \<noteq> None"
    by (rule sleep_keeps[OF assms(3,2)])+
  note run_ticks_waiting[OF k(1) o k(2), unfolded due] run_ticks_wakes[OF k(1) o k(2), unfolded due]
  then show ?thesis by fast
qed

theorem sleep_duration_witness:
  "(\<exists>k'. run_ticks (\<lambda>_ k. k) 2 (rt_thread_sleep 3 demo_kernel) = Some k' \<and> stat_of k' 1 = RT_THREAD_SUSPEND) \<and>
    (\<exists>k'. run_ticks (\<lambda>_ k. k) 3 (rt_thread_sleep 3 demo_kernel) = Some k' \<and> stat_of k' 1 = RT_THREAD_READY)"
proof -
  have "rt_timer_list demo_kernel = []" "stat_of demo_kernel 1 = RT_THREAD_READY" by code_simp+
  then have d: "(\<forall>m < max 1 (unat (3 :: u32)). \<exists>k'. run_ticks (\<lambda>_ k. k) m (rt_thread_sleep 3 demo_kernel) = Some k' \<and>
      kernel_inv k' \<and> stat_of k' 1 = RT_THREAD_SUSPEND) \<and>
    (\<exists>k'. run_ticks (\<lambda>_ k. k) (max 1 (unat (3 :: u32))) (rt_thread_sleep 3 demo_kernel) = Some k' \<and>
      kernel_inv k' \<and> stat_of k' 1 = RT_THREAD_READY)"
    using demo_kernel_inv demo_current by (intro sleep_duration) (simp_all add: thread_timers_only_def)
  have m: "max 1 (unat (3 :: u32)) = 3" "(2 :: nat) < 3" by simp_all
  show ?thesis using d unfolding m(1) using m(2) by blast
qed

end
