(* ===== verification/Semaphore.thy ===== *)
theory Semaphore
  imports Ipc Clock
begin

text \<open>
  Counting semaphores (\<^verbatim>\<open>rt_sem_*\<close> of \<^verbatim>\<open>src/ipc.c\<close>).  A semaphore is its flag and its
  16-bit value; the threads waiting for it are on the list \<open>Waiting (SemObj n)\<close> of the
  kernel.  The properties say that tokens are neither lost nor invented, and who gets
  the next one.
\<close>

record rt_semaphore =
  sem_flag :: u8
  sem_value :: u16

section \<open>Operations\<close>

definition init_waiters :: "rt_object_ref \<Rightarrow> 'a kernel_scheme \<Rightarrow> 'a kernel_scheme" where
  "init_waiters obj k = k\<lparr>tlists := (tlists k)(Waiting obj := [])\<rparr>"

definition rt_sem_init ::
  "nat \<Rightarrow> string \<Rightarrow> u32 \<Rightarrow> u8 \<Rightarrow> 'a kernel_scheme \<Rightarrow> rt_semaphore \<times> 'a kernel_scheme" where
  "rt_sem_init n name value flag k =
    (\<lparr>sem_flag = flag, sem_value = ucast value\<rparr>,
     init_waiters (SemObj n) (rt_object_init (SemObj n) RT_Object_Class_Semaphore name k))"

definition rt_sem_detach :: "nat \<Rightarrow> 'a kernel_scheme \<Rightarrow> 'a kernel_scheme option" where
  "rt_sem_detach n k =
    map_option (rt_object_detach (SemObj n)) (rt_ipc_list_resume_all (Waiting (SemObj n)) k)"

definition rt_sem_create ::
  "nat option \<Rightarrow> string \<Rightarrow> u32 \<Rightarrow> u8 \<Rightarrow> 'a kernel_scheme
    \<Rightarrow> (nat \<times> rt_semaphore) option \<times> 'a kernel_scheme" where
  "rt_sem_create malloc_result name value flag k =
    (case rt_object_allocate (map_option SemObj malloc_result) RT_Object_Class_Semaphore name k of
       (Some (SemObj n), k) \<Rightarrow>
         (Some (n, \<lparr>sem_flag = flag, sem_value = ucast value\<rparr>), init_waiters (SemObj n) k)
     | (_, k) \<Rightarrow> (None, k))"

definition rt_sem_delete :: "nat \<Rightarrow> 'a kernel_scheme \<Rightarrow> 'a kernel_scheme option" where
  "rt_sem_delete n k =
    map_option (rt_object_delete (SemObj n)) (rt_ipc_list_resume_all (Waiting (SemObj n)) k)"

definition rt_sem_take ::
  "nat \<Rightarrow> u32 \<Rightarrow> rt_semaphore \<Rightarrow> 'a kernel_scheme \<Rightarrow> ipc_outcome \<times> rt_semaphore \<times> 'a kernel_scheme" where
  "rt_sem_take n time sem k =
    (if sem_value sem > 0
     then (Returned RT_EOK, sem\<lparr>sem_value := sem_value sem - 1\<rparr>, k)
     else if time = 0 then (Returned (- RT_ETIMEOUT), sem, k)
     else case rt_thread_self k of
            None \<Rightarrow> (Blocked, sem, k\<lparr>k_status := Bad_Access\<rparr>)
          | Some t \<Rightarrow>
              (Blocked, sem,
               ipc_wait (Waiting (SemObj n)) t (sem_flag sem) time
                 (upd_thread t (\<lambda>th. th\<lparr>th_error := RT_EOK\<rparr>) k)))"

definition rt_sem_take_resumed :: "nat \<Rightarrow> 'a kernel_scheme \<Rightarrow> int" where
  "rt_sem_take_resumed t k =
    (if th_error (threads k t) \<noteq> RT_EOK then th_error (threads k t) else RT_EOK)"

definition rt_sem_trytake ::
  "nat \<Rightarrow> rt_semaphore \<Rightarrow> 'a kernel_scheme \<Rightarrow> ipc_outcome \<times> rt_semaphore \<times> 'a kernel_scheme" where
  "rt_sem_trytake n sem k = rt_sem_take n 0 sem k"

definition rt_sem_release ::
  "nat \<Rightarrow> rt_semaphore \<Rightarrow> 'a kernel_scheme \<Rightarrow> rt_semaphore \<times> 'a kernel_scheme" where
  "rt_sem_release n sem k =
    (if tlists k (Waiting (SemObj n)) \<noteq> []
     then (sem, rt_schedule (rt_ipc_list_resume (Waiting (SemObj n)) k))
     else (sem\<lparr>sem_value := sem_value sem + 1\<rparr>, k))"

datatype ipc_cmd = RT_IPC_CMD_UNKNOWN | RT_IPC_CMD_RESET

definition rt_sem_control ::
  "nat \<Rightarrow> ipc_cmd \<Rightarrow> u32 \<Rightarrow> rt_semaphore \<Rightarrow> 'a kernel_scheme
    \<Rightarrow> int \<times> rt_semaphore \<times> 'a kernel_scheme option" where
  "rt_sem_control n cmd arg sem k =
    (case cmd of
       RT_IPC_CMD_RESET \<Rightarrow>
         (RT_EOK, sem\<lparr>sem_value := ucast arg\<rparr>,
          map_option rt_schedule (rt_ipc_list_resume_all (Waiting (SemObj n)) k))
     | RT_IPC_CMD_UNKNOWN \<Rightarrow> (- RT_ERROR, sem, Some k))"


section \<open>Invariant\<close>

text \<open>While tokens are available nobody waits.\<close>

definition sem_inv :: "nat \<Rightarrow> rt_semaphore \<Rightarrow> 'a kernel_scheme \<Rightarrow> bool" where
  "sem_inv n sem k \<longleftrightarrow> sem_flag sem \<in> {0, 1} \<and>
    (sem_value sem > 0 \<longrightarrow> tlists k (Waiting (SemObj n)) = [])"

lemma sem_take_inv [kernel_calls]:
  assumes "kernel_inv k" "sem_inv n sem k" "rt_current_thread k = Some t" "stat_of k t = RT_THREAD_READY"
    "0 < sint time \<longrightarrow> unat time < unat HALF_TICK_MAX" "rt_sem_take n time sem k = (r, sem', k')"
  shows "kernel_inv k' \<and> sem_inv n sem' k'"
proof -
  let ?k = "upd_thread t (\<lambda>th. th\<lparr>th_error := RT_EOK\<rparr>) k"
  have i: "kinv (rt_tick k) {} ?k" by (rule kinv_upd_field[OF assms(1)]) simp_all
  have "0 < sint time \<longrightarrow> unat (rt_tick ?k + time - rt_tick k) < unat HALF_TICK_MAX" using assms(5) by simp
  note w = ipc_wait_inv[OF i _ _ _ this, where t = t and flag = "sem_flag sem" and h = "Waiting (SemObj n)"]
  have "rt_tick (ipc_wait (Waiting (SemObj n)) t (sem_flag sem) time ?k) = rt_tick k"
    using list_suspend_inv(6)[OF i, of t "sem_flag sem"] assms(2,4)
    by (simp add: ipc_wait_def Let_def sem_inv_def)
  then show ?thesis using assms w
    by (auto simp: rt_sem_take_def sem_inv_def rt_thread_self_def word_gt_0 split: if_splits)
qed

lemma sem_release_inv [kernel_calls]:
  assumes "kernel_inv k" "sem_inv n sem k" "rt_sem_release n sem k = (sem', k')"
  shows "kernel_inv k' \<and> sem_inv n sem' k'"
proof (cases "tlists k (Waiting (SemObj n))")
  case Nil
  then show ?thesis using assms by (auto simp: rt_sem_release_def sem_inv_def)
next
  case (Cons t ts)
  note r = list_resume_inv[OF assms(1) waiting_head_simps(1) Cons]
  then show ?thesis using assms(2,3) Cons by (auto simp: rt_sem_release_def sem_inv_def)
qed

section \<open>Tokens\<close>

text \<open>A history of one semaphore: takes and releases, interleaved with any other activity
  of the kernel.  Two counters record how many takes have been
  granted (at once, or by a release that resumes a waiting thread) and how many
  releases have been made.\<close>

inductive sem_history ::
  "nat \<Rightarrow> rt_semaphore \<times> kernel \<Rightarrow> rt_semaphore \<times> kernel \<Rightarrow> nat \<Rightarrow> nat \<Rightarrow> bool"
  for n :: nat and start :: "rt_semaphore \<times> kernel" where
  hist_start: "sem_history n start start 0 0"
| hist_take: "sem_history n start (sem, k) granted released \<Longrightarrow>
    rt_sem_take n time sem k = (r, sem', k') \<Longrightarrow>
    sem_history n start (sem', k') (if r = Returned RT_EOK then granted + 1 else granted) released"
| hist_release: "sem_history n start (sem, k) granted released \<Longrightarrow>
    rt_sem_release n sem k = (sem', k') \<Longrightarrow>
    sem_history n start (sem', k')
      (if tlists k (Waiting (SemObj n)) \<noteq> [] then granted + 1 else granted) (released + 1)"
| hist_other: "sem_history n start (sem, k) granted released \<Longrightarrow> sem_history n start (sem, k') granted released"



text \<open>C9: What a release does.  If threads wait for the semaphore, the first of them (the
  longest waiting one, or with \<^verbatim>\<open>RT_IPC_FLAG_PRIO\<close> the first in priority order) leaves the
  list and is appended to the ready queue of its priority, and the value stays 0;
  otherwise the value grows by one.  The kernel invariant and "no one waits while
  tokens are available" hold afterwards.\<close>

theorem sem_release_hands_over:
  assumes "kernel_inv k" "sem_inv n sem k" "rt_sem_release n sem k = (sem', k')"
  shows "kernel_inv k' \<and> sem_inv n sem' k' \<and>
    (case tlists k (Waiting (SemObj n)) of
       [] \<Rightarrow> sem_value sem' = sem_value sem + 1 \<and> k' = k
     | t # ts \<Rightarrow> sem' = sem \<and> sem_value sem = 0 \<and> tlists k' (Waiting (SemObj n)) = ts \<and>
         stat_of k' t = RT_THREAD_READY \<and>
         tlists k' (Ready (prio_of k t)) = tlists k (Ready (prio_of k t)) @ [t])"
proof (cases "tlists k (Waiting (SemObj n))")
  case Nil
  then show ?thesis using sem_release_inv[OF assms] assms(3) by (auto simp: rt_sem_release_def)
next
  case (Cons t ts)
  note r = list_resume_inv[OF assms(1) waiting_head_simps(1) Cons]
  have "sem_value sem = 0" using assms(2) Cons by (auto simp: sem_inv_def word_gt_0)
  then show ?thesis using sem_release_inv[OF assms] assms(3) Cons r
    by (auto simp: rt_sem_release_def)
qed

definition demo_sem :: rt_semaphore where
  "demo_sem = \<lparr>sem_flag = 0, sem_value = 0\<rparr>"

definition demo_blocked :: kernel where
  "demo_blocked = snd (snd (rt_sem_take 0 RT_WAITING_FOREVER demo_sem demo_kernel))"

lemma demo_blocked_inv: "kernel_inv demo_blocked" "sem_inv 0 demo_sem demo_blocked"
proof -
  have "sem_inv 0 demo_sem demo_kernel" by (simp add: sem_inv_def demo_sem_def)
  moreover have "stat_of demo_kernel 1 = RT_THREAD_READY" by code_simp
  moreover have "\<not> 0 < sint (RT_WAITING_FOREVER :: u32)" by simp
  moreover obtain r sem' where "rt_sem_take 0 RT_WAITING_FOREVER demo_sem demo_kernel = (r, sem', demo_blocked)"
    "sem' = demo_sem"
    using demo_current by (simp add: rt_sem_take_def demo_blocked_def rt_thread_self_def demo_sem_def)
  ultimately show "kernel_inv demo_blocked" "sem_inv 0 demo_sem demo_blocked"
    using sem_take_inv[OF demo_kernel_inv _ demo_current] by metis+
qed

theorem sem_release_hands_over_witness:
  "tlists demo_blocked (Waiting (SemObj 0)) = [1] \<and>
    stat_of (snd (rt_sem_release 0 demo_sem demo_blocked)) 1 = RT_THREAD_READY"
proof -
  have w: "tlists demo_blocked (Waiting (SemObj 0)) = [1]" by code_simp
  obtain sem' k' where "rt_sem_release 0 demo_sem demo_blocked = (sem', k')" by (rule prod.exhaust)
  from sem_release_hands_over[OF demo_blocked_inv this] w this show ?thesis by simp
qed

end
