(* ===== verification/Mutex.thy ===== *)
theory Mutex
  imports Semaphore
begin

text \<open>
  Mutexes (\<^verbatim>\<open>rt_mutex_*\<close> of \<^verbatim>\<open>src/ipc.c\<close>): recursive locks with an owner and priority
  inheritance.  The properties concern ownership, the hand-over to the next waiting
  thread, and the priority of the owner while others wait.
\<close>

record rt_mutex =
  mtx_flag :: u8
  mtx_value :: u16
  mtx_original_priority :: u8
  mtx_hold :: u8
  mtx_owner :: "nat option"

section \<open>Operations\<close>

definition new_mutex :: "u8 \<Rightarrow> rt_mutex" where
  "new_mutex flag = \<lparr>mtx_flag = flag, mtx_value = 1, mtx_original_priority = 0xFF, mtx_hold = 0,
    mtx_owner = None\<rparr>"

definition rt_mutex_init ::
  "nat \<Rightarrow> string \<Rightarrow> u8 \<Rightarrow> 'a kernel_scheme \<Rightarrow> rt_mutex \<times> 'a kernel_scheme" where
  "rt_mutex_init n name flag k =
    (new_mutex flag,
     init_waiters (MutexObj n) (rt_object_init (MutexObj n) RT_Object_Class_Mutex name k))"

definition rt_mutex_detach :: "nat \<Rightarrow> 'a kernel_scheme \<Rightarrow> 'a kernel_scheme option" where
  "rt_mutex_detach n k =
    map_option (rt_object_detach (MutexObj n)) (rt_ipc_list_resume_all (Waiting (MutexObj n)) k)"

definition rt_mutex_create ::
  "nat option \<Rightarrow> string \<Rightarrow> u8 \<Rightarrow> 'a kernel_scheme \<Rightarrow> (nat \<times> rt_mutex) option \<times> 'a kernel_scheme" where
  "rt_mutex_create malloc_result name flag k =
    (case rt_object_allocate (map_option MutexObj malloc_result) RT_Object_Class_Mutex name k of
       (Some (MutexObj n), k) \<Rightarrow> (Some (n, new_mutex flag), init_waiters (MutexObj n) k)
     | (_, k) \<Rightarrow> (None, k))"

definition rt_mutex_delete :: "nat \<Rightarrow> 'a kernel_scheme \<Rightarrow> 'a kernel_scheme option" where
  "rt_mutex_delete n k =
    map_option (rt_object_delete (MutexObj n)) (rt_ipc_list_resume_all (Waiting (MutexObj n)) k)"

definition rt_mutex_take ::
  "nat \<Rightarrow> u32 \<Rightarrow> rt_mutex \<Rightarrow> 'a kernel_scheme \<Rightarrow> ipc_outcome \<times> rt_mutex \<times> 'a kernel_scheme" where
  "rt_mutex_take n time m k =
    (case rt_thread_self k of
       None \<Rightarrow> (Blocked, m, k\<lparr>k_status := Bad_Access\<rparr>)
     | Some t \<Rightarrow>
       let k = upd_thread t (\<lambda>th. th\<lparr>th_error := RT_EOK\<rparr>) k
       in if mtx_owner m = Some t
          then (Returned RT_EOK, m\<lparr>mtx_hold := mtx_hold m + 1\<rparr>, k)
          else if mtx_value m > 0
          then (Returned RT_EOK,
                m\<lparr>mtx_value := mtx_value m - 1, mtx_owner := Some t,
                  mtx_original_priority := current_priority (threads k t),
                  mtx_hold := mtx_hold m + 1\<rparr>, k)
          else if time = 0
          then (Returned (- RT_ETIMEOUT), m,
                upd_thread t (\<lambda>th. th\<lparr>th_error := - RT_ETIMEOUT\<rparr>) k)
          else case mtx_owner m of
                 None \<Rightarrow> (Blocked, m, k\<lparr>k_status := Bad_Access\<rparr>)
               | Some w \<Rightarrow>
                   let k = (if current_priority (threads k t) < current_priority (threads k w)
                            then rt_thread_control w
                                   (Ctrl_Change_Priority (current_priority (threads k t))) k
                            else k)
                   in (Blocked, m, ipc_wait (Waiting (MutexObj n)) t (mtx_flag m) time k))"

definition rt_mutex_take_resumed :: "nat \<Rightarrow> 'a kernel_scheme \<Rightarrow> int" where
  "rt_mutex_take_resumed t k =
    (if th_error (threads k t) \<noteq> RT_EOK then th_error (threads k t) else RT_EOK)"

definition rt_mutex_release ::
  "nat \<Rightarrow> rt_mutex \<Rightarrow> 'a kernel_scheme \<Rightarrow> int \<times> rt_mutex \<times> 'a kernel_scheme" where
  "rt_mutex_release n m k =
    (case rt_thread_self k of
       None \<Rightarrow> (- RT_ERROR, m, k\<lparr>k_status := Bad_Access\<rparr>)
     | Some t \<Rightarrow>
       if mtx_owner m \<noteq> Some t
       then (- RT_ERROR, m, upd_thread t (\<lambda>th. th\<lparr>th_error := - RT_ERROR\<rparr>) k)
       else
         let m = m\<lparr>mtx_hold := mtx_hold m - 1\<rparr>
         in if mtx_hold m = 0
            then let k = (if mtx_original_priority m \<noteq> current_priority (threads k t)
                          then rt_thread_control t (Ctrl_Change_Priority (mtx_original_priority m)) k
                          else k)
                 in case tlists k (Waiting (MutexObj n)) of
                      w # _ \<Rightarrow>
                        (RT_EOK,
                         m\<lparr>mtx_owner := Some w,
                           mtx_original_priority := current_priority (threads k w),
                           mtx_hold := mtx_hold m + 1\<rparr>,
                         rt_schedule (rt_ipc_list_resume (Waiting (MutexObj n)) k))
                    | [] \<Rightarrow>
                        (RT_EOK,
                         m\<lparr>mtx_value := mtx_value m + 1, mtx_owner := None,
                           mtx_original_priority := 0xFF\<rparr>, k)
            else (RT_EOK, m, k))"

definition rt_mutex_control :: "ipc_cmd \<Rightarrow> rt_mutex \<Rightarrow> int" where
  "rt_mutex_control cmd m = - RT_ERROR"


section \<open>Invariant\<close>

text \<open>A mutex is either free, with nobody waiting, or owned by one thread that holds it
  at least once and can be given its original priority back.\<close>

definition mutex_inv :: "nat \<Rightarrow> rt_mutex \<Rightarrow> 'a kernel_scheme \<Rightarrow> bool" where
  "mutex_inv n m k \<longleftrightarrow> mtx_flag m \<in> {0, 1} \<and>
    (case mtx_owner m of
       None \<Rightarrow> mtx_value m = 1 \<and> mtx_hold m = 0 \<and> tlists k (Waiting (MutexObj n)) = []
     | Some w \<Rightarrow> mtx_value m = 0 \<and> mtx_hold m \<noteq> 0 \<and> unat (mtx_original_priority m) < 32 \<and>
         stat_of k w \<noteq> RT_THREAD_CLOSE)"

lemma ready_prio:
  assumes "kinv b {} k" "stat_of k t \<in> {RT_THREAD_READY, RT_THREAD_SUSPEND}"
  shows "prio_of k t < 32"
  using kinvD(4)[OF assms(1), of t] assms(2) by (auto simp: thread_inv_def prio_ok_def)

lemma change_priority_fields:
  "stat_of (rt_thread_control t (Ctrl_Change_Priority p) k) x = stat_of k x"
  "prio_of (rt_thread_control t (Ctrl_Change_Priority p) k) x = (if x = t then unat p else prio_of k x)"
  "rt_tick (rt_thread_control t (Ctrl_Change_Priority p) k) = rt_tick k"
  "rt_current_thread (rt_thread_control t (Ctrl_Change_Priority p) k) = rt_current_thread k"
  by (auto simp: rt_thread_control_def set_priority_def Let_def)

lemma change_priority_waiting:
  assumes "kinv b {} k"
  shows "tlists (rt_thread_control t (Ctrl_Change_Priority p) k) (Waiting obj) = tlists k (Waiting obj)"
proof -
  have "stat_of k t = RT_THREAD_READY \<Longrightarrow> t \<notin> set (tlists k (Waiting obj))"
    using kinvD(4)[OF assms, of t] by (auto simp: thread_inv_def)
  then show ?thesis by (simp add: rt_thread_control_def Let_def push_back_def unlink_def)
qed

lemma u8_plus_one: "(x :: u8) + 1 = 0 \<longleftrightarrow> x = 255"
proof -
  have "(255 :: u8) = - 1" by simp
  then show ?thesis by (metis eq_neg_iff_add_eq_0)
qed

lemma mutex_take_inv [kernel_calls]:
  assumes "kernel_inv k" "mutex_inv n m k" "rt_current_thread k = Some t" "stat_of k t = RT_THREAD_READY"
    "0 < sint time \<longrightarrow> unat time < unat HALF_TICK_MAX" "mtx_hold m \<noteq> 255"
    "rt_mutex_take n time m k = (r, m', k')"
  shows "kernel_inv k' \<and> mutex_inv n m' k'"
proof -
  let ?k = "upd_thread t (\<lambda>th. th\<lparr>th_error := RT_EOK\<rparr>) k"
  have i: "kinv (rt_tick k) {} ?k" by (rule kinv_upd_field[OF assms(1)]) simp_all
  have e: "kinv (rt_tick k) {} (upd_thread t (\<lambda>th. th\<lparr>th_error := - RT_ETIMEOUT\<rparr>) ?k)"
    by (rule kinv_upd_field[OF i]) simp_all
  have p: "prio_of k t < 32" using ready_prio[OF assms(1)] assms(4) by simp
  have h: "mtx_hold m + 1 \<noteq> 0" using assms(6) by (simp add: u8_plus_one)
  have fl: "mtx_flag m \<in> {0, 1}" using assms(2) by (simp add: mutex_inv_def)
  show ?thesis
  proof (cases "mtx_owner m = Some t \<or> mtx_value m > 0 \<or> time = 0")
    case True
    then show ?thesis using assms p i e h
      by (auto simp: rt_mutex_take_def rt_thread_self_def mutex_inv_def Let_def split: if_splits option.splits)
  next
    case False
    then obtain w where w: "mtx_owner m = Some w" "w \<noteq> t" "stat_of k w \<noteq> RT_THREAD_CLOSE"
      using assms(2) by (auto simp: mutex_inv_def split: option.splits)
    define k1 where "k1 = (if current_priority (threads k t) < current_priority (threads k w)
      then rt_thread_control w (Ctrl_Change_Priority (current_priority (threads k t))) ?k else ?k)"
    have k1: "kinv (rt_tick k) {} k1" "rt_tick k1 = rt_tick k" "\<And>x. stat_of k1 x = stat_of k x"
      using change_priority_inv[OF i, of "current_priority (threads k t)" w] i p w(2,3)
      by (simp_all add: k1_def change_priority_fields)
    have k': "k' = ipc_wait (Waiting (MutexObj n)) t (mtx_flag m) time k1" "m' = m"
      using assms(3,7) False w(1,2) by (auto simp: rt_mutex_take_def rt_thread_self_def Let_def k1_def)
    have "stat_of k1 t = RT_THREAD_READY" using k1(3) assms(4) by simp
    note wt = ipc_wait_inv(1)[OF k1(1) this fl waiting_head_simps(1)[of "MutexObj n"], of time]
      ipc_wait_frame(1,2)[OF k1(1) this fl waiting_head_simps(1)[of "MutexObj n"], of time]
    show ?thesis using wt k1(2,3) assms(2,5) w
      by (simp add: k' mutex_inv_def)
  qed
qed

text \<open>Giving the lock up: the priority is restored, and the first waiting thread, if any,
  becomes the owner.\<close>

lemma restore_priority:
  fixes p :: u8
  assumes "kinv b {} k" "unat p < 32" "stat_of k t \<noteq> RT_THREAD_CLOSE"
  defines "k1 \<equiv> (if p \<noteq> current_priority (threads k t)
    then rt_thread_control t (Ctrl_Change_Priority p) k else k)"
  shows "kinv b {} k1" "rt_tick k1 = rt_tick k" "stat_of k1 x = stat_of k x"
    "prio_of k1 x = (if x = t then unat p else prio_of k x)"
    "tlists k1 (Waiting obj) = tlists k (Waiting obj)"
  using change_priority_inv[OF assms(1-3)] assms(1)
  by (simp_all add: k1_def change_priority_fields change_priority_waiting[OF assms(1)])

lemma mutex_release_last:
  assumes "rt_current_thread k = Some t" "mtx_owner m = Some t" "mtx_hold m - 1 = 0"
  defines "k1 \<equiv> (if mtx_original_priority m \<noteq> current_priority (threads k t)
    then rt_thread_control t (Ctrl_Change_Priority (mtx_original_priority m)) k else k)"
  shows "rt_mutex_release n m k =
    (case tlists k1 (Waiting (MutexObj n)) of
       w # _ \<Rightarrow> (RT_EOK, m\<lparr>mtx_owner := Some w, mtx_original_priority := current_priority (threads k1 w),
           mtx_hold := 1\<rparr>, rt_schedule (rt_ipc_list_resume (Waiting (MutexObj n)) k1))
     | [] \<Rightarrow> (RT_EOK, m\<lparr>mtx_value := mtx_value m + 1, mtx_owner := None,
           mtx_original_priority := 0xFF, mtx_hold := 0\<rparr>, k1))"
proof -
  have "mtx_original_priority (m\<lparr>mtx_hold := 0\<rparr>) = mtx_original_priority m" by simp
  then show ?thesis using assms(1-3)
    by (simp only: rt_mutex_release_def rt_thread_self_def option.case Let_def k1_def)
      (auto split: list.splits)
qed

lemma mutex_release_inv [kernel_calls]:
  assumes "kernel_inv k" "mutex_inv n m k" "rt_current_thread k = Some t" 
    "rt_mutex_release n m k = (r, m', k')"
  shows "kernel_inv k' \<and> mutex_inv n m' k'"
proof (cases "mtx_owner m = Some t \<and> mtx_hold m - 1 = 0")
  case False
  have "kinv (rt_tick k) {} (upd_thread t (\<lambda>th. th\<lparr>th_error := - RT_ERROR\<rparr>) k)"
    by (rule kinv_upd_field[OF assms(1)]) simp_all
  then show ?thesis using False assms
    by (auto simp: rt_mutex_release_def rt_thread_self_def mutex_inv_def Let_def split: if_splits option.splits)
next
  case True
  then have o: "mtx_value m = 0" "unat (mtx_original_priority m) < 32" "stat_of k t \<noteq> RT_THREAD_CLOSE"
      "mtx_flag m \<in> {0, 1}" using assms(2) by (auto simp: mutex_inv_def)
  define k1 where "k1 = (if mtx_original_priority m \<noteq> current_priority (threads k t)
    then rt_thread_control t (Ctrl_Change_Priority (mtx_original_priority m)) k else k)"
  note r = restore_priority[OF assms(1) o(2,3), folded k1_def]
  note eq = mutex_release_last[OF assms(3), of m n, folded k1_def, OF conjunct1[OF True] conjunct2[OF True],
      unfolded assms(4)]
  show ?thesis
  proof (cases "tlists k1 (Waiting (MutexObj n))")
    case Nil
    then show ?thesis using r(1,2) o eq by (auto simp: mutex_inv_def)
  next
    case (Cons w ws)
    note l = list_resume_inv[OF r(1) waiting_head_simps(1) Cons]
    have "prio_of k1 w < 32" 
      using waiting_suspended[OF r(1) waiting_head_simps(1), of w "MutexObj n"] Cons
      by (intro ready_prio[OF r(1)]) simp
    then show ?thesis using r(2) o l Cons eq by (auto simp: mutex_inv_def)
  qed
qed

section \<open>Mutual exclusion\<close>

text \<open>A history of one mutex with a ghost count, for every thread, of how many times the
  thread holds the mutex: a granted take adds one, a successful release subtracts one,
  and the release of the last hold grants the mutex to the first waiting thread.
  Between the calls the kernel may go to any other state.  The nesting stays below the
  range of the 8-bit \<^verbatim>\<open>hold\<close> field.\<close>

definition pass_on :: "nat \<Rightarrow> nat list \<Rightarrow> (nat \<Rightarrow> nat) \<Rightarrow> nat \<Rightarrow> nat" where
  "pass_on t waiting holds =
    (if holds t > 0 then holds else case waiting of [] \<Rightarrow> holds | w # _ \<Rightarrow> holds(w := holds w + 1))"

inductive mutex_history :: "nat \<Rightarrow> rt_mutex \<Rightarrow> (nat \<Rightarrow> nat) \<Rightarrow> bool" for n :: nat where
  mhist_new: "mutex_history n (new_mutex flag) (\<lambda>_. 0)"
| mhist_take: "mutex_history n m holds \<Longrightarrow> mtx_hold m \<noteq> 255 \<Longrightarrow>
    rt_current_thread (k :: kernel) = Some t \<Longrightarrow> rt_mutex_take n time m k = (r, m', k') \<Longrightarrow>
    mutex_history n m' (if r = Returned RT_EOK then holds(t := holds t + 1) else holds)"
| mhist_release: "mutex_history n m holds \<Longrightarrow> kernel_inv (k :: kernel) \<Longrightarrow>
    rt_current_thread k = Some t \<Longrightarrow> rt_mutex_release n m k = (r, m', k') \<Longrightarrow>
    mutex_history n m' (if r = RT_EOK
      then pass_on t (tlists k (Waiting (MutexObj n))) (holds(t := holds t - 1)) else holds)"

definition holds_match :: "rt_mutex \<Rightarrow> (nat \<Rightarrow> nat) \<Rightarrow> bool" where
  "holds_match m holds \<longleftrightarrow>
    (case mtx_owner m of
       None \<Rightarrow> mtx_value m = 1 \<and> mtx_hold m = 0 \<and> holds = (\<lambda>_. 0)
     | Some w \<Rightarrow> mtx_value m = 0 \<and> mtx_hold m \<noteq> 0 \<and> holds = (\<lambda>_. 0)(w := unat (mtx_hold m)))"

lemma mutex_take_result:
  assumes "rt_current_thread k = Some t"
  shows "fst (rt_mutex_take n time m k) = Returned RT_EOK \<and>
      fst (snd (rt_mutex_take n time m k)) =
        (if mtx_owner m = Some t then m\<lparr>mtx_hold := mtx_hold m + 1\<rparr>
         else m\<lparr>mtx_value := mtx_value m - 1, mtx_owner := Some t,
           mtx_original_priority := current_priority (threads k t), mtx_hold := mtx_hold m + 1\<rparr>) \<and>
      (mtx_owner m = Some t \<or> mtx_value m > 0) \<or>
    fst (rt_mutex_take n time m k) \<noteq> Returned RT_EOK \<and> fst (snd (rt_mutex_take n time m k)) = m \<and>
      mtx_owner m \<noteq> Some t \<and> mtx_value m = 0"
  using assms by (auto simp: rt_mutex_take_def rt_thread_self_def Let_def word_gt_0 split: option.splits)

lemma mutex_release_result:
  assumes "kinv b {} k" "rt_current_thread k = Some t" "rt_mutex_release n m k = (r, m', k')"
  shows "r = - RT_ERROR \<and> m' = m \<and> mtx_owner m \<noteq> Some t \<or>
    r = RT_EOK \<and> mtx_owner m = Some t \<and> mtx_hold m \<noteq> 1 \<and> m' = m\<lparr>mtx_hold := mtx_hold m - 1\<rparr> \<or>
    r = RT_EOK \<and> mtx_owner m = Some t \<and> mtx_hold m = 1 \<and>
      (case tlists k (Waiting (MutexObj n)) of
         [] \<Rightarrow> mtx_owner m' = None \<and> mtx_value m' = mtx_value m + 1 \<and> mtx_hold m' = 0
       | w # _ \<Rightarrow> mtx_owner m' = Some w \<and> mtx_value m' = mtx_value m \<and> mtx_hold m' = 1)"
proof (cases "mtx_owner m = Some t \<and> mtx_hold m = 1")
  case False
  then show ?thesis using assms(2,3)
    by (auto simp: rt_mutex_release_def rt_thread_self_def Let_def split: if_splits)
next
  case True
  define k1 where "k1 = (if mtx_original_priority m \<noteq> current_priority (threads k t)
    then rt_thread_control t (Ctrl_Change_Priority (mtx_original_priority m)) k else k)"
  have "tlists k1 (Waiting (MutexObj n)) = tlists k (Waiting (MutexObj n))"
    by (simp add: k1_def change_priority_waiting[OF assms(1)])
  then show ?thesis using True mutex_release_last[OF assms(2), of m n, folded k1_def] assms(3)
    by (auto split: list.splits)
qed

lemma holds_match_take:
  assumes "holds_match m holds" "mtx_hold m \<noteq> 255" "rt_current_thread k = Some t"
    "rt_mutex_take n time m k = (r, m', k')"
  shows "holds_match m' (if r = Returned RT_EOK then holds(t := holds t + 1) else holds)"
proof -
  have h: "mtx_hold m + 1 \<noteq> 0" using assms(2) by (simp add: u8_plus_one)
  then have "unat (mtx_hold m + 1) = unat (mtx_hold m) + 1" by (metis add.commute unatSuc Suc_eq_plus1)
  then show ?thesis using mutex_take_result[OF assms(3), of n time m] assms(1,4) h
    by (auto simp: holds_match_def split: option.splits)
qed

lemma holds_match_release:
  assumes "holds_match m holds" "kinv b {} k" "rt_current_thread k = Some t"
    "rt_mutex_release n m k = (r, m', k')"
  shows "holds_match m' (if r = RT_EOK
    then pass_on t (tlists k (Waiting (MutexObj n))) (holds(t := holds t - 1)) else holds)"
proof -
  have "unat (mtx_hold m - 1) = unat (mtx_hold m) - 1" if "mtx_hold m \<noteq> 0"
    using that by (metis unat_minus_one)
  moreover have "unat (mtx_hold m) - 1 > 0" if "mtx_hold m \<noteq> 0" "mtx_hold m \<noteq> 1"
    using that by (metis One_nat_def Suc_lessI unat_1 unat_gt_0 word_unat_eq_iff zero_less_diff)
  ultimately show ?thesis using mutex_release_result[OF assms(2-4)] assms(1)
    by (auto simp: holds_match_def pass_on_def fun_eq_iff split: option.splits list.splits)
qed

lemma mutex_history_match: "mutex_history n m holds \<Longrightarrow> holds_match m holds"
proof (induction rule: mutex_history.induct)
  case (mhist_new flag)
  show ?case by (simp add: holds_match_def new_mutex_def)
next
  case (mhist_take m holds k t time r m' k')
  show ?case by (rule holds_match_take[OF mhist_take.IH mhist_take.hyps(2-4)])
next
  case (mhist_release m holds k t r m' k')
  show ?case by (rule holds_match_release[OF mhist_release.IH mhist_release.hyps(2-4)])
qed

text \<open>C10: Mutual exclusion.  In every history of a mutex at most one thread holds it, that
  thread is the recorded owner, and the recorded hold count is how often the owner took
  the mutex without giving it back.\<close>

theorem mutex_exclusive:
  assumes "mutex_history n m holds"
  shows "(holds s > 0 \<longrightarrow> holds t > 0 \<longrightarrow> s = t) \<and> (holds t > 0 \<longleftrightarrow> mtx_owner m = Some t) \<and>
    (mtx_owner m = Some t \<longrightarrow> holds t = unat (mtx_hold m)) \<and>
    (mtx_value m > 0 \<longleftrightarrow> (\<forall>x. holds x = 0))"
  using mutex_history_match[OF assms]
  by (auto simp: holds_match_def unat_gt_0 split: option.splits if_splits)

theorem mutex_exclusive_witness:
  "mtx_owner (fst (snd (rt_mutex_take 0 0 (new_mutex 0) demo_kernel))) = Some 1 \<and>
    unat (mtx_hold (fst (snd (rt_mutex_take 0 0 (new_mutex 0) demo_kernel)))) = 1"
proof -
  obtain r m' k' where e: "rt_mutex_take 0 0 (new_mutex 0) demo_kernel = (r, m', k')" by (rule prod_cases3)
  have "r = Returned RT_EOK" "mtx_owner m' = Some 1"
    using mutex_take_result[OF demo_current, of 0 0 "new_mutex 0"] e by (auto simp: new_mutex_def)
  moreover from mhist_take[OF mhist_new _ demo_current e]
  have "mutex_history 0 m' (if r = Returned RT_EOK then (\<lambda>_. 0)(1 := 0 + 1) else (\<lambda>_. 0))"
    by (simp add: new_mutex_def)
  ultimately show ?thesis using mutex_exclusive[of 0 m' "(\<lambda>_. 0)(1 := 1)" 1 1] e by simp
qed


section \<open>Priority inheritance\<close>

text \<open>C11: Blocking on a mutex.  A thread that has to wait for a mutex lends its priority to
  the owner: the owner then runs at the better of the two priorities, no other priority
  changes, and the caller waits in the list of the mutex.\<close>

theorem mutex_priority_inheritance:
  assumes "kernel_inv k" "mutex_inv n m k" "rt_current_thread k = Some t" "stat_of k t = RT_THREAD_READY"
    "mtx_owner m = Some w" "w \<noteq> t" "time \<noteq> 0" "0 < sint time \<longrightarrow> unat time < unat HALF_TICK_MAX"
    "rt_mutex_take n time m k = (r, m', k')"
  shows "r = Blocked \<and> m' = m \<and> stat_of k' t = RT_THREAD_SUSPEND \<and>
    prio_of k' w = min (prio_of k w) (prio_of k t) \<and> (\<forall>x. x \<noteq> w \<longrightarrow> prio_of k' x = prio_of k x) \<and>
    tlists k' (Waiting (MutexObj n)) = wait_list (mtx_flag m) k' t (tlists k (Waiting (MutexObj n)))"
proof -
  let ?k = "upd_thread t (\<lambda>th. th\<lparr>th_error := RT_EOK\<rparr>) k"
  have i: "kinv (rt_tick k) {} ?k" by (rule kinv_upd_field[OF assms(1)]) simp_all
  have m: "mtx_flag m \<in> {0, 1}" "\<not> mtx_value m > 0" "stat_of k w \<noteq> RT_THREAD_CLOSE"
    using assms(2,5) by (simp_all add: mutex_inv_def)
  have p: "unat (current_priority (threads k t)) < 32" using ready_prio[OF assms(1)] assms(4) by simp
  define k1 where "k1 = (if current_priority (threads k t) < current_priority (threads k w)
    then rt_thread_control w (Ctrl_Change_Priority (current_priority (threads k t))) ?k else ?k)"
  have k1: "kinv (rt_tick k) {} k1" "rt_tick k1 = rt_tick k" "\<And>x. stat_of k1 x = stat_of k x"
    "\<And>x. prio_of k1 x = (if x = w then min (prio_of k w) (prio_of k t) else prio_of k x)"
    "tlists k1 (Waiting (MutexObj n)) = tlists k (Waiting (MutexObj n))"
    using change_priority_inv[OF i p] i assms(6) m(3) change_priority_waiting[OF i]
    by (simp_all add: k1_def change_priority_fields word_less_nat_alt)
  have k': "k' = ipc_wait (Waiting (MutexObj n)) t (mtx_flag m) time k1" "r = Blocked" "m' = m"
    using assms(3,5-7,9) m(2) by (auto simp: rt_mutex_take_def rt_thread_self_def Let_def k1_def)
  have st: "stat_of k1 t = RT_THREAD_READY" using k1(3) assms(4) by simp
  note w = ipc_wait_inv(2,3)[OF k1(1) st m(1) waiting_head_simps(1)[of "MutexObj n"], of time]
    and f = ipc_wait_frame(1)[OF k1(1) st m(1) waiting_head_simps(1)[of "MutexObj n"], of time]
  have "wait_list (mtx_flag m) k' t = wait_list (mtx_flag m) k1 t"
    using f by (auto simp: wait_list_def fun_eq_iff k'(1) intro!: arg_cong2[of _ _ _ _ prio_insert] arg_cong[of _ _ "\<lambda>p. prio_insert p t _"])
  then show ?thesis using w f k1(2,4,5) k' assms(8) by simp
qed

text \<open>The states of the examples: the idle thread, of the lowest priority, owns the mutex
  and thread 1 comes to wait for it; then the idle thread runs.\<close>

definition demo_mutex :: rt_mutex where
  "demo_mutex = \<lparr>mtx_flag = 1, mtx_value = 0, mtx_original_priority = 31, mtx_hold = 1, mtx_owner = Some 0\<rparr>"

definition demo_inherited :: kernel where
  "demo_inherited = snd (snd (rt_mutex_take 0 RT_WAITING_FOREVER demo_mutex demo_kernel))"

lemma demo_mutex_inv: "mutex_inv 0 demo_mutex demo_kernel"
proof -
  have "stat_of demo_kernel 0 \<noteq> RT_THREAD_CLOSE" by code_simp
  then show ?thesis by (simp add: mutex_inv_def demo_mutex_def)
qed

lemma demo_running: "stat_of demo_kernel 1 = RT_THREAD_READY"
  by code_simp

lemma demo_inherited_inv: "kernel_inv demo_inherited" "mutex_inv 0 demo_mutex demo_inherited"
proof -
  obtain r m' where e: "rt_mutex_take 0 RT_WAITING_FOREVER demo_mutex demo_kernel = (r, m', demo_inherited)"
    unfolding demo_inherited_def by (metis prod.collapse)
  have "m' = demo_mutex"
    using mutex_take_result[OF demo_current, of 0 RT_WAITING_FOREVER demo_mutex] e
    by (auto simp: demo_mutex_def)
  then show "kernel_inv demo_inherited" "mutex_inv 0 demo_mutex demo_inherited"
    using mutex_take_inv[OF demo_kernel_inv demo_mutex_inv demo_current demo_running _ _ e]
    by (simp_all add: demo_mutex_def)
qed

theorem mutex_priority_inheritance_witness:
  "prio_of demo_kernel 0 = 31 \<and> prio_of demo_kernel 1 = 8 \<and> prio_of demo_inherited 0 = 8 \<and>
    1 \<in> set (tlists demo_inherited (Waiting (MutexObj 0)))"
proof -
  have p: "prio_of demo_kernel 0 = 31 \<and> prio_of demo_kernel 1 = 8" by code_simp
  obtain r m' where e: "rt_mutex_take 0 RT_WAITING_FOREVER demo_mutex demo_kernel = (r, m', demo_inherited)"
    unfolding demo_inherited_def by (metis prod.collapse)
  have "mtx_owner demo_mutex = Some 0" by (simp add: demo_mutex_def)
  from mutex_priority_inheritance[OF demo_kernel_inv demo_mutex_inv demo_current demo_running this _ _ _ e] p
  show ?thesis by simp
qed

text \<open>C12: Handing a mutex over.  When the owner gives its last hold up while threads wait,
  the owner's priority is the one it had when it took the mutex, the first waiting
  thread leaves the list, becomes the owner with one hold and is ready to run, and its
  own priority is the one that will be restored.  With \<^verbatim>\<open>RT_IPC_FLAG_PRIO\<close> (a sorted
  list) no remaining waiting thread has a better priority than the new owner.\<close>

theorem mutex_release_hands_over:
  assumes "kernel_inv k" "mutex_inv n m k" "rt_current_thread k = Some t" "stat_of k t = RT_THREAD_READY"
    "mtx_owner m = Some t" "mtx_hold m = 1" "tlists k (Waiting (MutexObj n)) = w # ws"
    "rt_mutex_release n m k = (r, m', k')"
  shows "r = RT_EOK \<and> kernel_inv k' \<and> mutex_inv n m' k' \<and> mtx_owner m' = Some w \<and> mtx_hold m' = 1 \<and>
    mtx_original_priority m' = current_priority (threads k' w) \<and> stat_of k' w = RT_THREAD_READY \<and>
    prio_of k' t = unat (mtx_original_priority m) \<and> (\<forall>x. x \<noteq> t \<longrightarrow> prio_of k' x = prio_of k x) \<and>
    tlists k' (Waiting (MutexObj n)) = ws \<and>
    (sorted (map (prio_of k) (w # ws)) \<longrightarrow> (\<forall>x \<in> set ws. prio_of k' w \<le> prio_of k' x))"
proof -
  have o: "unat (mtx_original_priority m) < 32" "stat_of k t \<noteq> RT_THREAD_CLOSE"
    using assms(2,4,5) by (simp_all add: mutex_inv_def)
  define k1 where "k1 = (if mtx_original_priority m \<noteq> current_priority (threads k t)
    then rt_thread_control t (Ctrl_Change_Priority (mtx_original_priority m)) k else k)"
  note r = restore_priority[OF assms(1) o, folded k1_def]
  have c: "tlists k1 (Waiting (MutexObj n)) = w # ws" using r(5) assms(7) by simp
  note l = list_resume_inv[OF r(1) waiting_head_simps(1) c]
  have e: "r = RT_EOK" "m' = m\<lparr>mtx_owner := Some w, mtx_original_priority := current_priority (threads k1 w), mtx_hold := 1\<rparr>"
    "k' = rt_schedule (rt_ipc_list_resume (Waiting (MutexObj n)) k1)"
    using mutex_release_last[OF assms(3,5), of n, folded k1_def] assms(6,8) c by simp_all
  have n: "t \<notin> set (w # ws)"
    using waiting_suspended[OF assms(1) waiting_head_simps(1), of t "MutexObj n"] assms(4,7) by auto
  have p: "\<And>x. prio_of k' x = (if x = t then unat (mtx_original_priority m) else prio_of k x)"
    using r(4) by (simp add: e(3) l(5))
  have "sorted (map (prio_of k) (w # ws)) \<longrightarrow> (\<forall>x \<in> set ws. prio_of k' w \<le> prio_of k' x)"
    using n by (auto simp: p)
  moreover have "mtx_original_priority m' = current_priority (threads k' w)" "stat_of k' w = RT_THREAD_READY"
    "tlists k' (Waiting (MutexObj n)) = ws" "mtx_owner m' = Some w" "mtx_hold m' = 1"
    using l by (simp_all add: e)
  ultimately show ?thesis using mutex_release_inv[OF assms(1-3,8)] e(1) by (auto simp: p)
qed

definition demo_lender :: kernel where
  "demo_lender = demo_inherited\<lparr>rt_current_thread := Some 0\<rparr>"

theorem mutex_release_hands_over_witness:
  "mtx_owner (fst (snd (rt_mutex_release 0 demo_mutex demo_lender))) = Some 1 \<and>
    prio_of (snd (snd (rt_mutex_release 0 demo_mutex demo_lender))) 0 = 31"
proof -
  have i: "kernel_inv demo_lender" using demo_inherited_inv(1)
    by (simp add: demo_lender_def kinv_switch)
  have w: "tlists demo_lender (Waiting (MutexObj 0)) = [1]" by code_simp
  have st: "stat_of demo_lender 0 = RT_THREAD_READY" by code_simp
  have m: "mutex_inv 0 demo_mutex demo_lender"
    using demo_inherited_inv(2) by (simp add: mutex_inv_def demo_lender_def cong: option.case_cong)
  have c: "rt_current_thread demo_lender = Some 0" by (simp add: demo_lender_def)
  have o: "mtx_owner demo_mutex = Some 0" "mtx_hold demo_mutex = 1" "mtx_original_priority demo_mutex = 31"
    by (simp_all add: demo_mutex_def)
  obtain r m' k' where e: "rt_mutex_release 0 demo_mutex demo_lender = (r, m', k')" by (rule prod_cases3)
  from mutex_release_hands_over[OF i m c st o(1,2) w e] show ?thesis by (simp add: e o(3))
qed

end
