(* ===== verification/Event.thy ===== *)
theory Event
  imports Semaphore
begin

text \<open>
  Event sets (\<^verbatim>\<open>rt_event_*\<close> of \<^verbatim>\<open>src/ipc.c\<close>): 32 flags and threads waiting for all
  (\<^verbatim>\<open>RT_EVENT_FLAG_AND\<close>) or some (\<^verbatim>\<open>RT_EVENT_FLAG_OR\<close>) of the flags they name, which a
  thread may consume (\<^verbatim>\<open>RT_EVENT_FLAG_CLEAR\<close>).  The loop of a send over the waiting
  threads is shown to refine an abstract delivery, from which it follows that no
  wake-up is lost.
\<close>

record rt_event =
  ev_flag :: u8
  ev_set :: u32

abbreviation (input) RT_EVENT_FLAG_AND :: u8 where "RT_EVENT_FLAG_AND \<equiv> 1"
abbreviation (input) RT_EVENT_FLAG_OR :: u8 where "RT_EVENT_FLAG_OR \<equiv> 2"
abbreviation (input) RT_EVENT_FLAG_CLEAR :: u8 where "RT_EVENT_FLAG_CLEAR \<equiv> 4"

section \<open>Operations\<close>

definition rt_event_init ::
  "nat \<Rightarrow> string \<Rightarrow> u8 \<Rightarrow> 'a kernel_scheme \<Rightarrow> rt_event \<times> 'a kernel_scheme" where
  "rt_event_init n name flag k =
    (\<lparr>ev_flag = flag, ev_set = 0\<rparr>,
     init_waiters (EventObj n) (rt_object_init (EventObj n) RT_Object_Class_Event name k))"

definition rt_event_detach :: "nat \<Rightarrow> 'a kernel_scheme \<Rightarrow> 'a kernel_scheme option" where
  "rt_event_detach n k =
    map_option (rt_object_detach (EventObj n)) (rt_ipc_list_resume_all (Waiting (EventObj n)) k)"

definition rt_event_create ::
  "nat option \<Rightarrow> string \<Rightarrow> u8 \<Rightarrow> 'a kernel_scheme \<Rightarrow> (nat \<times> rt_event) option \<times> 'a kernel_scheme" where
  "rt_event_create malloc_result name flag k =
    (case rt_object_allocate (map_option EventObj malloc_result) RT_Object_Class_Event name k of
       (Some (EventObj n), k) \<Rightarrow>
         (Some (n, \<lparr>ev_flag = flag, ev_set = 0\<rparr>), init_waiters (EventObj n) k)
     | (_, k) \<Rightarrow> (None, k))"

definition rt_event_delete :: "nat \<Rightarrow> 'a kernel_scheme \<Rightarrow> 'a kernel_scheme option" where
  "rt_event_delete n k =
    map_option (rt_object_delete (EventObj n)) (rt_ipc_list_resume_all (Waiting (EventObj n)) k)"

text \<open>The test shared by the sending and the receiving side.\<close>

definition event_satisfied :: "u8 \<Rightarrow> u32 \<Rightarrow> u32 \<Rightarrow> bool" where
  "event_satisfied info wanted flags =
    (if info AND RT_EVENT_FLAG_AND \<noteq> 0 then wanted AND flags = wanted
     else if info AND RT_EVENT_FLAG_OR \<noteq> 0 then wanted AND flags \<noteq> 0
     else False)"

text \<open>What a satisfied thread has received.\<close>

definition event_received :: "u8 \<Rightarrow> u32 \<Rightarrow> u32 \<Rightarrow> u32" where
  "event_received info wanted flags =
    (if info AND RT_EVENT_FLAG_AND \<noteq> 0 then wanted else wanted AND flags)"

fun event_send_loop ::
  "nat list \<Rightarrow> bool \<Rightarrow> rt_event \<Rightarrow> 'a kernel_scheme \<Rightarrow> bool \<times> rt_event \<times> 'a kernel_scheme" where
  "event_send_loop [] need_schedule ev k = (need_schedule, ev, k)"
| "event_send_loop (t # ts) need_schedule ev k =
    (let info = event_info (threads k t); wanted = event_set (threads k t)
     in if event_satisfied info wanted (ev_set ev)
        then let k = upd_thread t (\<lambda>th. th\<lparr>event_set := event_received info wanted (ev_set ev)\<rparr>) k;
                 ev = (if info AND RT_EVENT_FLAG_CLEAR \<noteq> 0
                       then ev\<lparr>ev_set := ev_set ev AND NOT (event_set (threads k t))\<rparr> else ev);
                 k = snd (rt_thread_resume t k)
             in event_send_loop ts True ev k
        else event_send_loop ts need_schedule ev k)"

definition rt_event_send ::
  "nat \<Rightarrow> u32 \<Rightarrow> rt_event \<Rightarrow> 'a kernel_scheme \<Rightarrow> int \<times> rt_event \<times> 'a kernel_scheme" where
  "rt_event_send n flags ev k =
    (if flags = 0 then (- RT_ERROR, ev, k)
     else let ev = ev\<lparr>ev_set := ev_set ev OR flags\<rparr>;
              (need_schedule, ev, k) = event_send_loop (tlists k (Waiting (EventObj n))) False ev k
          in (RT_EOK, ev, if need_schedule then rt_schedule k else k))"

definition rt_event_recv ::
  "nat \<Rightarrow> u32 \<Rightarrow> u8 \<Rightarrow> u32 \<Rightarrow> rt_event \<Rightarrow> 'a kernel_scheme
    \<Rightarrow> ipc_outcome \<times> u32 option \<times> rt_event \<times> 'a kernel_scheme" where
  "rt_event_recv n flags option timeout ev k =
    (if flags = 0 then (Returned (- RT_ERROR), None, ev, k)
     else case rt_thread_self k of
       None \<Rightarrow> (Blocked, None, ev, k\<lparr>k_status := Bad_Access\<rparr>)
     | Some t \<Rightarrow>
       let k = upd_thread t (\<lambda>th. th\<lparr>th_error := RT_EOK\<rparr>) k
       in if event_satisfied option flags (ev_set ev)
          then (Returned RT_EOK, Some (ev_set ev AND flags),
                if option AND RT_EVENT_FLAG_CLEAR \<noteq> 0
                then ev\<lparr>ev_set := ev_set ev AND NOT flags\<rparr> else ev, k)
          else if timeout = 0
          then (Returned (- RT_ETIMEOUT), None, ev,
                upd_thread t (\<lambda>th. th\<lparr>th_error := - RT_ETIMEOUT\<rparr>) k)
          else (Blocked, None, ev,
                ipc_wait (Waiting (EventObj n)) t (ev_flag ev) timeout
                  (upd_thread t (\<lambda>th. th\<lparr>event_set := flags, event_info := option\<rparr>) k)))"

definition rt_event_recv_resumed :: "nat \<Rightarrow> 'a kernel_scheme \<Rightarrow> int \<times> u32 option" where
  "rt_event_recv_resumed t k =
    (let th = threads k t
     in if th_error th \<noteq> RT_EOK then (th_error th, None) else (th_error th, Some (event_set th)))"

definition rt_event_control ::
  "nat \<Rightarrow> ipc_cmd \<Rightarrow> rt_event \<Rightarrow> 'a kernel_scheme \<Rightarrow> int \<times> rt_event \<times> 'a kernel_scheme option" where
  "rt_event_control n cmd ev k =
    (case cmd of
       RT_IPC_CMD_RESET \<Rightarrow>
         (RT_EOK, ev\<lparr>ev_set := 0\<rparr>,
          map_option rt_schedule (rt_ipc_list_resume_all (Waiting (EventObj n)) k))
     | RT_IPC_CMD_UNKNOWN \<Rightarrow> (- RT_ERROR, ev, Some k))"


section \<open>Delivery\<close>

text \<open>The abstract meaning of a send: the waiting threads are asked in order, those whose
  condition holds receive their flags and, if they ask for it, consume them.  The
  result is what each served thread received, who keeps waiting, and the flags left.\<close>

fun deliver :: "(nat \<Rightarrow> u8) \<Rightarrow> (nat \<Rightarrow> u32) \<Rightarrow> u32 \<Rightarrow> nat list \<Rightarrow> (nat \<times> u32) list \<times> nat list \<times> u32" where
  "deliver info wanted s [] = ([], [], s)"
| "deliver info wanted s (t # ts) =
    (if event_satisfied (info t) (wanted t) s
     then let got = event_received (info t) (wanted t) s;
              (served, waiting, s') = deliver info wanted
                (if info t AND RT_EVENT_FLAG_CLEAR \<noteq> 0 then s AND NOT got else s) ts
          in ((t, got) # served, waiting, s')
     else let (served, waiting, s') = deliver info wanted s ts in (served, t # waiting, s'))"

lemma satisfied_mono:
  assumes "event_satisfied info wanted s" "s AND s' = s"
  shows "event_satisfied info wanted s'"
proof -
  have "\<And>i. bit s i \<Longrightarrow> bit s' i" using assms(2) by (metis bit_and_iff)
  then show ?thesis using assms(1)
    by (auto simp: event_satisfied_def bit_eq_iff bit_and_iff split: if_splits)
qed

lemma deliver_shrinks: "deliver info wanted s ts = (served, waiting, s') \<Longrightarrow> s' AND s = s'"
proof (induction ts arbitrary: s served waiting s')
  case (Cons t ts)
  then show ?case
    by (fastforce simp: Let_def bit_eq_iff bit_and_iff bit_not_iff split: if_splits prod.splits)
qed simp

lemma deliver_served:
  "deliver info wanted s ts = (served, waiting, s') \<Longrightarrow> (t, got) \<in> set served \<Longrightarrow>
    event_satisfied (info t) (wanted t) s \<and> got AND s = got \<and> event_satisfied (info t) (wanted t) got"
proof (induction ts arbitrary: s served waiting s')
  case (Cons x ts)
  show ?case
  proof (cases "event_satisfied (info x) (wanted x) s")
    case False
    then show ?thesis using Cons by (auto simp: Let_def split: prod.splits)
  next
    case True
    define s1 where "s1 = (if info x AND RT_EVENT_FLAG_CLEAR \<noteq> 0
      then s AND NOT (event_received (info x) (wanted x) s) else s)"
    obtain ws l s2 where d: "deliver info wanted s1 ts = (ws, l, s2)" by (rule prod_cases3)
    have sub: "s1 AND s = s1" by (auto simp: s1_def bit_eq_iff bit_and_iff)
    have "served = (x, event_received (info x) (wanted x) s) # ws"
      using Cons.prems(1) True d by (auto simp: Let_def s1_def split: prod.splits)
    then consider "t = x" "got = event_received (info x) (wanted x) s" | "(t, got) \<in> set ws"
      using Cons.prems(2) by auto
    then show ?thesis
    proof cases
      case 1
      then show ?thesis using True
        by (auto simp: event_received_def event_satisfied_def and.assoc split: if_splits)
    next
      case 2
      note h = Cons.IH[OF d 2]
      have "got AND s = got" using h sub by (metis and.assoc)
      then show ?thesis using h satisfied_mono[OF _ sub] by blast
    qed
  qed
qed simp

lemma deliver_waiting:
  "deliver info wanted s ts = (served, waiting, s') \<Longrightarrow> t \<in> set waiting \<Longrightarrow>
    \<not> event_satisfied (info t) (wanted t) s'"
proof (induction ts arbitrary: s served waiting s')
  case (Cons x ts)
  have "\<not> event_satisfied (info x) (wanted x) s'" if "\<not> event_satisfied (info x) (wanted x) s"
    using that deliver_shrinks[OF Cons.prems(1)] satisfied_mono by blast
  then show ?case using Cons by (auto simp: Let_def split: if_splits prod.splits)
qed simp

lemma deliver_set:
  assumes "deliver info wanted s ts = (served, waiting, s')" "distinct ts"
  shows "set ts = fst ` set served \<union> set waiting \<and> distinct (map fst served) \<and>
    waiting = filter (\<lambda>t. t \<notin> fst ` set served) ts"
  using assms
proof (induction ts arbitrary: s served waiting s')
  case (Cons x ts)
  let ?s = "if event_satisfied (info x) (wanted x) s \<and> info x AND RT_EVENT_FLAG_CLEAR \<noteq> 0
    then s AND NOT (event_received (info x) (wanted x) s) else s"
  obtain ws l s2 where d: "deliver info wanted ?s ts = (ws, l, s2)" by (rule prod_cases3)
  have "distinct ts" "x \<notin> set ts" using Cons.prems(2) by auto
  then have h: "set ts = fst ` set ws \<union> set l" "distinct (map fst ws)"
    "l = filter (\<lambda>t. t \<notin> fst ` set ws) ts" using Cons.IH[OF d] by blast+
  have n: "x \<notin> fst ` set ws" using h(1) \<open>x \<notin> set ts\<close> by blast
  have f: "filter (\<lambda>t. t \<noteq> x \<and> t \<notin> fst ` set ws) ts = filter (\<lambda>t. t \<notin> fst ` set ws) ts"
    using \<open>x \<notin> set ts\<close> by (intro filter_cong) auto
  show ?case
  proof (cases "event_satisfied (info x) (wanted x) s")
    case True
    then have "served = (x, event_received (info x) (wanted x) s) # ws" "waiting = l"
      using Cons.prems(1) d by (auto simp: Let_def split: prod.splits)
    then have e: "fst ` set served = insert x (fst ` set ws)" "map fst served = x # map fst ws" "waiting = l"
      by simp_all
    have "set (x # ts) = fst ` set served \<union> set waiting" using h(1) e by auto
    moreover have "distinct (map fst served)" using h(2) e(2) n by auto
    moreover have "waiting = filter (\<lambda>t. t \<notin> fst ` set served) (x # ts)" using h(3) f e(1,3) by simp
    ultimately show ?thesis by blast
  next
    case False
    then have "served = ws" "waiting = x # l"
      using Cons.prems(1) d by (auto simp: Let_def split: prod.splits)
    then have e: "fst ` set served = fst ` set ws" "map fst served = map fst ws" "waiting = x # l"
      by simp_all
    have "set (x # ts) = fst ` set served \<union> set waiting" using h(1) e by auto
    moreover have "distinct (map fst served)" using h(2) e(2) by simp
    moreover have "waiting = filter (\<lambda>t. t \<notin> fst ` set served) (x # ts)" using h(3) e(1,3) n by simp
    ultimately show ?thesis by blast
  qed
qed simp

lemma deliver_cong:
  assumes "\<And>t. t \<in> set ts \<Longrightarrow> info t = info' t \<and> wanted t = wanted' t"
  shows "deliver info wanted s ts = deliver info' wanted' s ts"
  using assms by (induction ts arbitrary: s) (simp_all add: Let_def)

section \<open>The loop refines the delivery\<close>

abbreviation waits_with :: "'a kernel_scheme \<Rightarrow> nat \<Rightarrow> u8" where
  "waits_with k \<equiv> \<lambda>t. event_info (threads k t)"

abbreviation waits_for :: "'a kernel_scheme \<Rightarrow> nat \<Rightarrow> u32" where
  "waits_for k \<equiv> \<lambda>t. event_set (threads k t)"

definition event_woken :: "u32 \<Rightarrow> rt_thread \<Rightarrow> rt_thread" where
  "event_woken got th = th\<lparr>event_set := got, th_stat := RT_THREAD_READY\<rparr>"

text \<open>One waiting thread is resumed with the flags it received.\<close>

lemma event_resume:
  fixes got :: u32
  assumes "kinv b {} k" "tlists k (Waiting obj) = as @ t # ts"
  defines "k' \<equiv> snd (rt_thread_resume t (upd_thread t (\<lambda>th. th\<lparr>event_set := got\<rparr>) k))"
  shows "kinv b {} k'" "tlists k' (Waiting obj) = as @ ts" "threads k' = (threads k)(t := event_woken got (threads k t))"
    "rt_tick k' = rt_tick k" "t \<notin> set (as @ ts)"
proof -
  let ?k = "upd_thread t (\<lambda>th. th\<lparr>event_set := got\<rparr>) k"
  have i: "kinv b {} ?k" by (rule kinv_upd_field[OF assms(1)]) simp_all
  have s: "stat_of ?k t = RT_THREAD_SUSPEND"
    using waiting_suspended[OF assms(1) waiting_head_simps(1), of t obj] assms(2) by simp
  note f = resume_fields[OF s, folded k'_def]
  have ex: "exclusive (tlists k)" using kinvD(1)[OF assms(1)] by (simp add: sched_inv_def)
  have "unlink t (tlists k) = (tlists k)(Waiting obj := as @ ts)" by (rule unlink_eq[OF ex assms(2)])
  then show "tlists k' (Waiting obj) = as @ ts" by (simp add: f push_back_def)
  show "kinv b {} k'" unfolding k'_def by (rule thread_resume_inv[OF i]) simp
  show "threads k' = (threads k)(t := event_woken got (threads k t))" "rt_tick k' = rt_tick k"
    by (simp_all add: f event_woken_def)
  show "t \<notin> set (as @ ts)" using exclusiveD(2)[OF ex, of "Waiting obj"] assms(2) by simp
qed

lemma send_loop:
  assumes "kinv b {} k" "tlists k (Waiting obj) = as @ ts"
    "deliver (waits_with k) (waits_for k) (ev_set ev) ts = (served, waiting, s')"
    "event_send_loop ts need ev k = (need', ev', k')"
  shows "kinv b {} k' \<and> tlists k' (Waiting obj) = as @ waiting \<and> ev' = ev\<lparr>ev_set := s'\<rparr> \<and>
    rt_tick k' = rt_tick k \<and> (\<forall>t. threads k' t = (case map_of served t of
      Some got \<Rightarrow> event_woken got (threads k t) | None \<Rightarrow> threads k t))"
  using assms
proof (induction ts arbitrary: k as ev need served waiting)
  case (Cons t ts)
  let ?info = "waits_with k t" and ?wanted = "waits_for k t"
  show ?case
  proof (cases "event_satisfied ?info ?wanted (ev_set ev)")
    case False
    then have "event_send_loop ts need ev k = (need', ev', k')" using Cons.prems(4) by simp
    moreover obtain l where "waiting = t # l" "deliver (waits_with k) (waits_for k) (ev_set ev) ts = (served, l, s')"
      using Cons.prems(3) False by (auto split: prod.splits)
    ultimately show ?thesis using Cons.IH[of k "as @ [t]"] Cons.prems(1,2) by simp
  next
    case True
    define got where "got = event_received ?info ?wanted (ev_set ev)"
    define k2 where "k2 = snd (rt_thread_resume t (upd_thread t (\<lambda>th. th\<lparr>event_set := got\<rparr>) k))"
    define ev2 where "ev2 = (if ?info AND RT_EVENT_FLAG_CLEAR \<noteq> 0 then ev\<lparr>ev_set := ev_set ev AND NOT got\<rparr> else ev)"
    note r = event_resume(1-4)[OF Cons.prems(1,2), of got, folded k2_def] event_resume(5)[OF Cons.prems(1,2)]
    have run: "event_send_loop ts True ev2 k2 = (need', ev', k')"
      using Cons.prems(4) True by (auto simp: Let_def ev2_def k2_def got_def split: if_splits)
    have ev2: "ev_set ev2 = (if ?info AND RT_EVENT_FLAG_CLEAR \<noteq> 0 then ev_set ev AND NOT got else ev_set ev)"
      by (simp add: ev2_def)
    obtain ws where ws: "served = (t, got) # ws" "deliver (waits_with k) (waits_for k) (ev_set ev2) ts = (ws, waiting, s')"
      using Cons.prems(3) True unfolding ev2 by (auto simp: Let_def got_def split: prod.splits if_splits)
    have "deliver (waits_with k2) (waits_for k2) (ev_set ev2) ts = (ws, waiting, s')"
      using ws(2) r(3,5) by (subst deliver_cong[of _ _ "waits_with k" _ "waits_for k"]) auto
    note h = Cons.IH[OF r(1,2) this run]
    have "distinct ts" using exclusiveD(2)[of "tlists k" "Waiting obj"] Cons.prems(2) kinvD(1)[OF Cons.prems(1)]
      by (simp add: sched_inv_def)
    then have "set ts = fst ` set ws \<union> set waiting" using deliver_set[OF ws(2)] by blast
    then have "map_of ws t = None" using r(5) by (simp add: map_of_eq_None_iff)
    then have "\<forall>x. threads k' x = (case map_of served x of
        Some got \<Rightarrow> event_woken got (threads k x) | None \<Rightarrow> threads k x)"
      using h r(3) ws(1) by (auto split: option.split)
    then show ?thesis using h r(4) by (simp add: ev2_def)
  qed
qed simp

section \<open>Properties\<close>

text \<open>No thread waits for flags that are there.\<close>

definition event_inv :: "nat \<Rightarrow> rt_event \<Rightarrow> 'a kernel_scheme \<Rightarrow> bool" where
  "event_inv n ev k \<longleftrightarrow> ev_flag ev \<in> {0, 1} \<and>
    (\<forall>t \<in> set (tlists k (Waiting (EventObj n))).
      \<not> event_satisfied (waits_with k t) (waits_for k t) (ev_set ev))"

lemma event_send_cases:
  assumes "kernel_inv k" "flags \<noteq> 0" "rt_event_send n flags ev k = (r, ev', k')"
    "deliver (waits_with k) (waits_for k) (ev_set ev OR flags) (tlists k (Waiting (EventObj n))) = (served, waiting, s')"
  shows "r = RT_EOK \<and> kernel_inv k' \<and> ev' = ev\<lparr>ev_set := s'\<rparr> \<and> tlists k' (Waiting (EventObj n)) = waiting \<and>
    (\<forall>t. threads k' t = (case map_of served t of
      Some got \<Rightarrow> event_woken got (threads k t) | None \<Rightarrow> threads k t))"
proof -
  obtain need ev1 k1 where l: "event_send_loop (tlists k (Waiting (EventObj n))) False (ev\<lparr>ev_set := ev_set ev OR flags\<rparr>) k = (need, ev1, k1)"
    by (rule prod_cases3)
  have k': "k' = (if need then rt_schedule k1 else k1)" "ev' = ev1" "r = RT_EOK"
    using assms(2,3) l by (simp_all add: rt_event_send_def)
  show ?thesis using send_loop[OF assms(1) _ _ l, of "EventObj n" "[]"] assms(4) by (simp add: k')
qed


text \<open>Receiving keeps the invariant on every branch.\<close>

lemma event_recv_inv [kernel_calls]:
  assumes "kernel_inv k" "event_inv n ev k" "rt_current_thread k = Some t" "stat_of k t = RT_THREAD_READY"
    "0 < sint timeout \<longrightarrow> unat timeout < unat HALF_TICK_MAX"
    "rt_event_recv n flags option timeout ev k = (r, got, ev', k')"
  shows "kernel_inv k' \<and> event_inv n ev' k'"
proof -
  let ?k = "upd_thread t (\<lambda>th. th\<lparr>th_error := RT_EOK\<rparr>) k"
  have i: "kinv (rt_tick k) {} ?k" by (rule kinv_upd_field[OF assms(1)]) simp_all
  have e: "kinv (rt_tick k) {} (upd_thread t (\<lambda>th. th\<lparr>th_error := - RT_ETIMEOUT\<rparr>) ?k)"
    by (rule kinv_upd_field[OF i]) simp_all
  have nw: "t \<notin> set (tlists k (Waiting (EventObj n)))"
    using waiting_suspended[OF assms(1) waiting_head_simps(1), of t "EventObj n"] assms(4) by auto
  have fl: "ev_flag ev \<in> {0, 1}" using assms(2) by (simp add: event_inv_def)
  show ?thesis
  proof (cases "flags = 0 \<or> event_satisfied option flags (ev_set ev) \<or> timeout = 0")
    case True
    have "(ev_set ev AND NOT flags) AND ev_set ev = ev_set ev AND NOT flags"
      by (auto simp: bit_eq_iff bit_and_iff)
    from satisfied_mono[OF _ this] show ?thesis using True assms i e nw
      by (auto simp: rt_event_recv_def rt_thread_self_def event_inv_def Let_def split: if_splits) blast+
  next
    case False
    let ?k2 = "upd_thread t (\<lambda>th. th\<lparr>event_set := flags, event_info := option\<rparr>) ?k"
    have i2: "kinv (rt_tick k) {} ?k2" by (rule kinv_upd_field[OF i]) simp_all
    have st: "stat_of ?k2 t = RT_THREAD_READY" using assms(4) by simp
    note w = ipc_wait_inv(1,3)[OF i2 st fl waiting_head_simps(1)[of "EventObj n"], of timeout]
      and f = ipc_wait_frame(1,2)[OF i2 st fl waiting_head_simps(1)[of "EventObj n"], of timeout]
    have k': "k' = ipc_wait (Waiting (EventObj n)) t (ev_flag ev) timeout ?k2" "ev' = ev"
      using False assms(3,6) by (auto simp: rt_event_recv_def rt_thread_self_def Let_def)
    show ?thesis using w f assms(2,5) False nw by (auto simp: k' event_inv_def)
  qed
qed

definition demo_event :: rt_event where
  "demo_event = \<lparr>ev_flag = 0, ev_set = 0\<rparr>"

definition demo_listening :: kernel where
  "demo_listening = snd (snd (snd (rt_event_recv 0 3 (RT_EVENT_FLAG_OR OR RT_EVENT_FLAG_CLEAR)
    RT_WAITING_FOREVER demo_event demo_kernel)))"


end
