(* ===== verification/Fifo.thy ===== *)
theory Fifo
  imports Prelude
begin

text \<open>
  The contract of a bounded first-in first-out store, which mailboxes and message
  queues provide with two different data structures.  The lemmas of the locale are
  about arbitrary sequences of operations and are proved once, from the contract.
\<close>

datatype 'm fifo_op = Put 'm | Get

locale bounded_fifo =
  fixes invar :: "'q \<Rightarrow> bool"
    and contents :: "'q \<Rightarrow> 'm list"
    and capacity :: "'q \<Rightarrow> nat"
    and put :: "'m \<Rightarrow> 'q \<Rightarrow> 'q option"
    and get :: "'q \<Rightarrow> ('m \<times> 'q) option"
    and accepts :: "'q \<Rightarrow> 'm \<Rightarrow> bool"
  assumes bounded: "invar q \<Longrightarrow> length (contents q) \<le> capacity q"
    and put_full: "invar q \<Longrightarrow> length (contents q) = capacity q \<Longrightarrow> put m q = None"
    and put_room: "invar q \<Longrightarrow> length (contents q) < capacity q \<Longrightarrow> accepts q m \<Longrightarrow>
      \<exists>q'. put m q = Some q' \<and> invar q' \<and> contents q' = contents q @ [m] \<and> capacity q' = capacity q \<and>
        accepts q' = accepts q"
    and get_empty: "invar q \<Longrightarrow> contents q = [] \<Longrightarrow> get q = None"
    and get_some: "invar q \<Longrightarrow> contents q = m # ms \<Longrightarrow>
      \<exists>q'. get q = Some (m, q') \<and> invar q' \<and> contents q' = ms \<and> capacity q' = capacity q \<and>
        accepts q' = accepts q"
begin

text \<open>A sequence of operations: the store at the end, the messages taken in and the
  messages given out.  A put into a full store and a get from an empty one have no
  effect.\<close>

primrec run :: "'m fifo_op list \<Rightarrow> 'q \<Rightarrow> 'q \<times> 'm list \<times> 'm list" where
  "run [] q = (q, [], [])"
| "run (x # xs) q =
    (case x of
       Put m \<Rightarrow>
         (case put m q of
            None \<Rightarrow> run xs q
          | Some q' \<Rightarrow> (case run xs q' of (r, taken, given) \<Rightarrow> (r, m # taken, given)))
     | Get \<Rightarrow>
         (case get q of
            None \<Rightarrow> run xs q
          | Some (m, q') \<Rightarrow> (case run xs q' of (r, taken, given) \<Rightarrow> (r, taken, m # given))))"

text \<open>Nothing is lost, invented or reordered: what was there followed by what was taken in
  is what was given out followed by what is left.\<close>

lemma run_fifo:
  assumes "invar q" "\<forall>m. Put m \<in> set xs \<longrightarrow> accepts q m" "run xs q = (q', taken, given)"
  shows "invar q' \<and> contents q @ taken = given @ contents q' \<and> capacity q' = capacity q"
  using assms
proof (induction xs arbitrary: q taken given)
  case (Cons x xs)
  show ?case
  proof (cases x)
    case (Put m)
    show ?thesis
    proof (cases "length (contents q) = capacity q")
      case True
      then show ?thesis using Cons Put put_full[OF Cons.prems(1) True, of m] by simp
    next
      case False
      then have "length (contents q) < capacity q" using bounded[OF Cons.prems(1)] by simp
      then obtain q1 where q1: "put m q = Some q1" "invar q1" "contents q1 = contents q @ [m]"
        "capacity q1 = capacity q" "accepts q1 = accepts q"
        using put_room[OF Cons.prems(1), of m] Cons.prems(2) Put by auto
      obtain t where t: "run xs q1 = (q', t, given)" "taken = m # t"
        using Cons.prems(3) Put q1(1) by (auto split: prod.splits)
      show ?thesis using Cons.IH[OF q1(2) _ t(1)] Cons.prems(2) q1(3-5) t(2) by simp
    qed
  next
    case Get
    show ?thesis
    proof (cases "contents q")
      case Nil
      then show ?thesis using Cons.IH[OF Cons.prems(1), of taken given] Cons.prems Get get_empty by simp
    next
      case c: (Cons m ms)
      then obtain q1 where q1: "get q = Some (m, q1)" "invar q1" "contents q1 = ms"
        "capacity q1 = capacity q" "accepts q1 = accepts q" using get_some[OF Cons.prems(1)] by blast
      obtain g where g: "run xs q1 = (q', taken, g)" "given = m # g"
        using Cons.prems(3) Get q1(1) by (auto split: prod.splits)
      show ?thesis using Cons.IH[OF q1(2) _ g(1)] Cons.prems(2) q1(3-5) g(2) c by simp
    qed
  qed
qed simp

end

end
