(* ===== verification/Mailbox.thy ===== *)
theory Mailbox
  imports Semaphore Fifo
begin

text \<open>
  Mailboxes (\<^verbatim>\<open>rt_mb_*\<close> of \<^verbatim>\<open>src/ipc.c\<close>): a ring of 32-bit values with two 16-bit offsets,
  threads waiting to receive on \<open>Waiting (MailBoxObj n)\<close> and threads waiting to send on
  \<open>Senders (MailBoxObj n)\<close>.  The ring refines a bounded queue, and every interleaving of
  sends and receives, blocked ones included, delivers the values in order.

  The loops of \<^verbatim>\<open>rt_mb_send_wait\<close> and \<^verbatim>\<open>rt_mb_recv\<close> test again after every wake-up: one
  pass is \<open>mb_send_loop\<close> or \<open>mb_recv_loop\<close>, and the continuation after \<^verbatim>\<open>rt_schedule\<close> is the
  definition with the suffix \<^verbatim>\<open>_resumed\<close>, which goes back to the test with the time that
  remains.  A position outside the message pool is recorded as \<open>Bad_Access\<close>.
\<close>

record rt_mailbox =
  mb_flag :: u8
  msg_pool :: "u32 list"
  mb_size :: u16
  mb_entry :: u16
  in_offset :: u16
  out_offset :: u16

section \<open>Operations\<close>

definition new_mailbox :: "u32 list \<Rightarrow> u32 \<Rightarrow> u8 \<Rightarrow> rt_mailbox" where
  "new_mailbox msgpool mbsize flag =
    \<lparr>mb_flag = flag, msg_pool = msgpool, mb_size = ucast mbsize, mb_entry = 0, in_offset = 0, out_offset = 0\<rparr>"

definition init_senders :: "rt_object_ref \<Rightarrow> 'a kernel_scheme \<Rightarrow> 'a kernel_scheme" where
  "init_senders obj k = k\<lparr>tlists := (tlists k)(Senders obj := [])\<rparr>"

definition rt_mb_init ::
  "nat \<Rightarrow> string \<Rightarrow> u32 list \<Rightarrow> u32 \<Rightarrow> u8 \<Rightarrow> 'a kernel_scheme \<Rightarrow> rt_mailbox \<times> 'a kernel_scheme" where
  "rt_mb_init n name msgpool mbsize flag k =
    (new_mailbox msgpool mbsize flag,
     init_senders (MailBoxObj n)
       (init_waiters (MailBoxObj n) (rt_object_init (MailBoxObj n) RT_Object_Class_MailBox name k)))"

definition mb_resume_all :: "nat \<Rightarrow> 'a kernel_scheme \<Rightarrow> 'a kernel_scheme option" where
  "mb_resume_all n k =
    Option.bind (rt_ipc_list_resume_all (Waiting (MailBoxObj n)) k)
      (rt_ipc_list_resume_all (Senders (MailBoxObj n)))"

definition rt_mb_detach :: "nat \<Rightarrow> 'a kernel_scheme \<Rightarrow> 'a kernel_scheme option" where
  "rt_mb_detach n k = map_option (rt_object_detach (MailBoxObj n)) (mb_resume_all n k)"

text \<open>The pool of a created mailbox comes from the heap: \<open>pool_result\<close> is the block
  \<^verbatim>\<open>RT_KERNEL_MALLOC\<close> returns, \<open>None\<close> if there is none.\<close>

definition rt_mb_create ::
  "nat option \<Rightarrow> u32 list option \<Rightarrow> string \<Rightarrow> u32 \<Rightarrow> u8 \<Rightarrow> 'a kernel_scheme
    \<Rightarrow> (nat \<times> rt_mailbox) option \<times> 'a kernel_scheme" where
  "rt_mb_create malloc_result pool_result name mbsize flag k =
    (case rt_object_allocate (map_option MailBoxObj malloc_result) RT_Object_Class_MailBox name k of
       (Some (MailBoxObj n), k) \<Rightarrow>
         let k = init_waiters (MailBoxObj n) k
         in (case pool_result of
               None \<Rightarrow> (None, rt_object_delete (MailBoxObj n) k)
             | Some pool \<Rightarrow> (Some (n, new_mailbox pool mbsize flag), init_senders (MailBoxObj n) k))
     | (_, k) \<Rightarrow> (None, k))"

definition rt_mb_delete :: "nat \<Rightarrow> 'a kernel_scheme \<Rightarrow> 'a kernel_scheme option" where
  "rt_mb_delete n k =
    map_option (\<lambda>k. rt_object_delete (MailBoxObj n) (k\<lparr>k_freed := PoolMem (MailBoxObj n) # k_freed k\<rparr>))
      (mb_resume_all n k)"

definition put_mail :: "u32 \<Rightarrow> rt_mailbox \<Rightarrow> rt_mailbox" where
  "put_mail value mb =
    (let mb = mb\<lparr>msg_pool := (msg_pool mb)[unat (in_offset mb) := value], in_offset := in_offset mb + 1\<rparr>;
         mb = (if in_offset mb \<ge> mb_size mb then mb\<lparr>in_offset := 0\<rparr> else mb)
     in mb\<lparr>mb_entry := mb_entry mb + 1\<rparr>)"

definition take_mail :: "rt_mailbox \<Rightarrow> rt_mailbox" where
  "take_mail mb =
    (let mb = mb\<lparr>out_offset := out_offset mb + 1\<rparr>;
         mb = (if out_offset mb \<ge> mb_size mb then mb\<lparr>out_offset := 0\<rparr> else mb)
     in mb\<lparr>mb_entry := mb_entry mb - 1\<rparr>)"

text \<open>Accesses at an offset, and the resumption of a thread on the other side.\<close>

definition pool_access :: "u16 \<Rightarrow> rt_mailbox \<Rightarrow> 'a kernel_scheme \<Rightarrow> 'a kernel_scheme" where
  "pool_access i mb k = (if unat i < length (msg_pool mb) then k else k\<lparr>k_status := Bad_Access\<rparr>)"

definition resume_one :: "tlist_head \<Rightarrow> 'a kernel_scheme \<Rightarrow> 'a kernel_scheme" where
  "resume_one h k = (if tlists k h \<noteq> [] then rt_schedule (rt_ipc_list_resume h k) else k)"

definition remaining_time :: "u32 \<Rightarrow> u32 \<Rightarrow> u32 \<Rightarrow> u32" where
  "remaining_time timeout start now =
    (if 0 < sint timeout
     then let timeout = timeout - (now - start) in if sint timeout < 0 then 0 else timeout
     else timeout)"

definition mb_send_loop ::
  "nat \<Rightarrow> nat option \<Rightarrow> u32 \<Rightarrow> u32 \<Rightarrow> rt_mailbox \<Rightarrow> 'a kernel_scheme
    \<Rightarrow> ipc_outcome \<times> rt_mailbox \<times> 'a kernel_scheme" where
  "mb_send_loop n thread value timeout mb k =
    (if mb_entry mb = mb_size mb
     then case thread of
            None \<Rightarrow> (Blocked, mb, k\<lparr>k_status := Bad_Access\<rparr>)
          | Some t \<Rightarrow>
              let k = upd_thread t (\<lambda>th. th\<lparr>th_error := RT_EOK\<rparr>) k
              in if timeout = 0 then (Returned (- RT_EFULL), mb, k)
                 else (Blocked, mb, ipc_wait (Senders (MailBoxObj n)) t (mb_flag mb) timeout k)
     else (Returned RT_EOK, put_mail value mb,
           resume_one (Waiting (MailBoxObj n)) (pool_access (in_offset mb) mb k)))"

definition rt_mb_send_wait ::
  "nat \<Rightarrow> u32 \<Rightarrow> u32 \<Rightarrow> rt_mailbox \<Rightarrow> 'a kernel_scheme \<Rightarrow> ipc_outcome \<times> rt_mailbox \<times> 'a kernel_scheme" where
  "rt_mb_send_wait n value timeout mb k =
    (if mb_entry mb = mb_size mb \<and> timeout = 0 then (Returned (- RT_EFULL), mb, k)
     else mb_send_loop n (rt_thread_self k) value timeout mb k)"

definition rt_mb_send_resumed ::
  "nat \<Rightarrow> nat \<Rightarrow> u32 \<Rightarrow> u32 \<Rightarrow> u32 \<Rightarrow> rt_mailbox \<Rightarrow> 'a kernel_scheme
    \<Rightarrow> ipc_outcome \<times> rt_mailbox \<times> 'a kernel_scheme" where
  "rt_mb_send_resumed n t value timeout start mb k =
    (if th_error (threads k t) \<noteq> RT_EOK then (Returned (th_error (threads k t)), mb, k)
     else mb_send_loop n (Some t) value (remaining_time timeout start (rt_tick_get k)) mb k)"

definition rt_mb_send ::
  "nat \<Rightarrow> u32 \<Rightarrow> rt_mailbox \<Rightarrow> 'a kernel_scheme \<Rightarrow> ipc_outcome \<times> rt_mailbox \<times> 'a kernel_scheme" where
  "rt_mb_send n value mb k = rt_mb_send_wait n value 0 mb k"

definition mb_recv_loop ::
  "nat \<Rightarrow> nat option \<Rightarrow> u32 \<Rightarrow> rt_mailbox \<Rightarrow> 'a kernel_scheme
    \<Rightarrow> ipc_outcome \<times> u32 option \<times> rt_mailbox \<times> 'a kernel_scheme" where
  "mb_recv_loop n thread timeout mb k =
    (if mb_entry mb = 0
     then case thread of
            None \<Rightarrow> (Blocked, None, mb, k\<lparr>k_status := Bad_Access\<rparr>)
          | Some t \<Rightarrow>
              let k = upd_thread t (\<lambda>th. th\<lparr>th_error := RT_EOK\<rparr>) k
              in if timeout = 0
                 then (Returned (- RT_ETIMEOUT), None, mb,
                       upd_thread t (\<lambda>th. th\<lparr>th_error := - RT_ETIMEOUT\<rparr>) k)
                 else (Blocked, None, mb, ipc_wait (Waiting (MailBoxObj n)) t (mb_flag mb) timeout k)
     else (Returned RT_EOK, Some (msg_pool mb ! unat (out_offset mb)), take_mail mb,
           resume_one (Senders (MailBoxObj n)) (pool_access (out_offset mb) mb k)))"

definition rt_mb_recv ::
  "nat \<Rightarrow> u32 \<Rightarrow> rt_mailbox \<Rightarrow> 'a kernel_scheme
    \<Rightarrow> ipc_outcome \<times> u32 option \<times> rt_mailbox \<times> 'a kernel_scheme" where
  "rt_mb_recv n timeout mb k =
    (if mb_entry mb = 0 \<and> timeout = 0 then (Returned (- RT_ETIMEOUT), None, mb, k)
     else mb_recv_loop n (rt_thread_self k) timeout mb k)"

definition rt_mb_recv_resumed ::
  "nat \<Rightarrow> nat \<Rightarrow> u32 \<Rightarrow> u32 \<Rightarrow> rt_mailbox \<Rightarrow> 'a kernel_scheme
    \<Rightarrow> ipc_outcome \<times> u32 option \<times> rt_mailbox \<times> 'a kernel_scheme" where
  "rt_mb_recv_resumed n t timeout start mb k =
    (if th_error (threads k t) \<noteq> RT_EOK then (Returned (th_error (threads k t)), None, mb, k)
     else mb_recv_loop n (Some t) (remaining_time timeout start (rt_tick_get k)) mb k)"

definition rt_mb_control ::
  "nat \<Rightarrow> ipc_cmd \<Rightarrow> rt_mailbox \<Rightarrow> 'a kernel_scheme \<Rightarrow> int \<times> rt_mailbox \<times> 'a kernel_scheme option" where
  "rt_mb_control n cmd mb k =
    (case cmd of
       RT_IPC_CMD_RESET \<Rightarrow>
         (RT_EOK, mb\<lparr>mb_entry := 0, in_offset := 0, out_offset := 0\<rparr>,
          map_option rt_schedule (mb_resume_all n k))
     | RT_IPC_CMD_UNKNOWN \<Rightarrow> (- RT_ERROR, mb, Some k))"


section \<open>The ring refines a queue\<close>

definition mb_contents :: "rt_mailbox \<Rightarrow> u32 list" where
  "mb_contents mb = map (\<lambda>i. msg_pool mb ! ((unat (out_offset mb) + i) mod unat (mb_size mb)))
    [0..<unat (mb_entry mb)]"

definition mb_inv :: "rt_mailbox \<Rightarrow> bool" where
  "mb_inv mb \<longleftrightarrow> 0 < mb_size mb \<and> length (msg_pool mb) = unat (mb_size mb) \<and> mb_entry mb \<le> mb_size mb \<and>
    out_offset mb < mb_size mb \<and>
    unat (in_offset mb) = (unat (out_offset mb) + unat (mb_entry mb)) mod unat (mb_size mb)"

lemma u16_less_Suc: "(x :: u16) < y \<Longrightarrow> unat (x + 1) = unat x + 1"
  by unat_arith

lemma next_offset:
  fixes i n :: u16
  assumes "i < n"
  shows "unat (if i + 1 \<ge> n then 0 else i + 1) = (unat i + 1) mod unat n"
  using assms u16_less_Suc[OF assms] by (auto simp: word_less_nat_alt word_le_nat_alt not_le mod_Suc)

lemma map_upt_Suc: "map f [0..<Suc n] = f 0 # map (\<lambda>i. f (Suc i)) [0..<n]"
  by (simp add: upt_conv_Cons map_Suc_upt[symmetric] del: upt_Suc)

lemma put_mail_fields:
  "mb_size (put_mail v mb) = mb_size mb" "mb_entry (put_mail v mb) = mb_entry mb + 1"
  "out_offset (put_mail v mb) = out_offset mb" "mb_flag (put_mail v mb) = mb_flag mb"
  "msg_pool (put_mail v mb) = (msg_pool mb)[unat (in_offset mb) := v]"
  "in_offset (put_mail v mb) = (if in_offset mb + 1 \<ge> mb_size mb then 0 else in_offset mb + 1)"
  by (simp_all add: put_mail_def Let_def)

lemma take_mail_fields:
  "mb_size (take_mail mb) = mb_size mb" "mb_entry (take_mail mb) = mb_entry mb - 1"
  "in_offset (take_mail mb) = in_offset mb" "mb_flag (take_mail mb) = mb_flag mb"
  "msg_pool (take_mail mb) = msg_pool mb"
  "out_offset (take_mail mb) = (if out_offset mb + 1 \<ge> mb_size mb then 0 else out_offset mb + 1)"
  by (simp_all add: take_mail_def Let_def)

lemma ring_distinct:
  assumes "i < e" "(e :: nat) < n"
  shows "(out + i) mod n \<noteq> (out + e) mod n"
proof
  assume "(out + i) mod n = (out + e) mod n"
  then have "n dvd (out + e) - (out + i)" using assms(1) by (metis add_le_cancel_left less_imp_le mod_eq_dvd_iff_nat)
  then show False using assms by (auto dest: dvd_imp_le)
qed

lemma put_mail_queue:
  assumes "mb_inv mb" "mb_entry mb \<noteq> mb_size mb"
  shows "mb_inv (put_mail v mb)" "mb_contents (put_mail v mb) = mb_contents mb @ [v]"
proof -
  let ?n = "unat (mb_size mb)" and ?o = "unat (out_offset mb)" and ?e = "unat (mb_entry mb)"
  have lt: "mb_entry mb < mb_size mb" using assms by (simp add: mb_inv_def order_neq_le_trans)
  have n: "0 < ?n" "length (msg_pool mb) = ?n" "unat (in_offset mb) = (?o + ?e) mod ?n" "?e < ?n"
    using assms(1) lt by (simp_all add: mb_inv_def unat_gt_0 word_less_nat_alt)
  have e: "unat (mb_entry mb + 1) = Suc ?e" using u16_less_Suc[OF lt] by simp
  have i: "in_offset mb < mb_size mb" using n(1,3) by (simp add: word_less_nat_alt)
  have io: "unat (in_offset (put_mail v mb)) = (?o + Suc ?e) mod ?n"
    using next_offset[OF i] n(3) by (simp add: put_mail_fields mod_Suc_eq)
  show "mb_inv (put_mail v mb)"
    using assms(1) lt e io n by (simp add: mb_inv_def put_mail_fields word_le_nat_alt Suc_le_eq)
  have "unat (in_offset mb) \<noteq> (?o + j) mod ?n" if "j < ?e" for j
    using ring_distinct[OF that n(4)] n(3) by metis
  then have "map (\<lambda>j. (msg_pool mb)[unat (in_offset mb) := v] ! ((?o + j) mod ?n)) [0..<?e] = mb_contents mb"
    by (simp add: mb_contents_def)
  moreover have "(msg_pool mb)[unat (in_offset mb) := v] ! ((?o + ?e) mod ?n) = v"
    using n by simp
  ultimately show "mb_contents (put_mail v mb) = mb_contents mb @ [v]"
    by (simp add: mb_contents_def[of "put_mail v mb"] put_mail_fields e)
qed

lemma take_mail_queue:
  assumes "mb_inv mb" "mb_entry mb \<noteq> 0"
  shows "mb_inv (take_mail mb)"
    "mb_contents mb = msg_pool mb ! unat (out_offset mb) # mb_contents (take_mail mb)"
proof -
  let ?n = "unat (mb_size mb)" and ?o = "unat (out_offset mb)"
  obtain e where e: "unat (mb_entry mb) = Suc e" "unat (mb_entry mb - 1) = e"
    using assms(2) by (metis Suc_pred' diff_Suc_1 unat_gt_0 unat_minus_one)
  have n: "0 < ?n" "?o < ?n" "unat (in_offset mb) = (?o + Suc e) mod ?n" "Suc e \<le> ?n"
    using assms(1) e by (simp_all add: mb_inv_def unat_gt_0 word_less_nat_alt word_le_nat_alt)
  have lt: "out_offset mb < mb_size mb" using assms(1) by (simp add: mb_inv_def)
  have o: "unat (out_offset (take_mail mb)) = Suc ?o mod ?n"
    using next_offset[OF lt] by (simp add: take_mail_fields)
  show "mb_inv (take_mail mb)"
    using assms(1) e o n by (simp add: mb_inv_def take_mail_fields(1-5) word_le_nat_alt word_less_nat_alt mod_add_left_eq)
  have "(Suc ?o mod ?n + i) mod ?n = (?o + Suc i) mod ?n" for i by (simp add: mod_add_left_eq)
  then show "mb_contents mb = msg_pool mb ! ?o # mb_contents (take_mail mb)"
    using n(2) by (simp add: mb_contents_def e(1) map_upt_Suc take_mail_fields(1-5) e(2) o del: upt_Suc)
qed

lemma mb_contents_length: "length (mb_contents mb) = unat (mb_entry mb)"
  by (simp add: mb_contents_def)

definition mb_put :: "u32 \<Rightarrow> rt_mailbox \<Rightarrow> rt_mailbox option" where
  "mb_put v mb = (if mb_entry mb = mb_size mb then None else Some (put_mail v mb))"

definition mb_get :: "rt_mailbox \<Rightarrow> (u32 \<times> rt_mailbox) option" where
  "mb_get mb = (if mb_entry mb = 0 then None else Some (msg_pool mb ! unat (out_offset mb), take_mail mb))"

interpretation mb: bounded_fifo mb_inv mb_contents "\<lambda>mb. unat (mb_size mb)" mb_put mb_get "\<lambda>_ _. True"
proof unfold_locales
  fix mb :: rt_mailbox and m ms
  assume i: "mb_inv mb"
  show "length (mb_contents mb) \<le> unat (mb_size mb)"
    using i by (simp add: mb_contents_length mb_inv_def word_le_nat_alt)
  show "length (mb_contents mb) = unat (mb_size mb) \<Longrightarrow> mb_put m mb = None"
    by (simp add: mb_contents_length mb_put_def word_unat_eq_iff)
  show "length (mb_contents mb) < unat (mb_size mb) \<Longrightarrow>
    \<exists>q'. mb_put m mb = Some q' \<and> mb_inv q' \<and> mb_contents q' = mb_contents mb @ [m] \<and>
      unat (mb_size q') = unat (mb_size mb) \<and> (\<lambda>_. True) = (\<lambda>_. True)"
    using put_mail_queue[OF i, of m] by (auto simp: mb_contents_length mb_put_def put_mail_fields)
  show "mb_contents mb = [] \<Longrightarrow> mb_get mb = None"
    using mb_contents_length[of mb] by (simp add: mb_get_def unat_eq_zero)
  assume c: "mb_contents mb = m # ms"
  then have "mb_entry mb \<noteq> 0" using mb_contents_length[of mb] by auto
  then show "\<exists>q'. mb_get mb = Some (m, q') \<and> mb_inv q' \<and> mb_contents q' = ms \<and>
      unat (mb_size q') = unat (mb_size mb) \<and> (\<lambda>_. True) = (\<lambda>_. True)"
    using take_mail_queue[OF i] c by (auto simp: mb_get_def take_mail_fields)
qed

section \<open>Messages arrive in order\<close>

text \<open>A history of one mailbox.  The calls are made, and continued after blocking, in any
  order and in any kernel states.  Two ghost lists record the values whose send returned
  \<^verbatim>\<open>RT_EOK\<close> and the values received.\<close>

inductive mb_history :: "nat \<Rightarrow> rt_mailbox \<Rightarrow> rt_mailbox \<Rightarrow> u32 list \<Rightarrow> u32 list \<Rightarrow> bool"
  for n :: nat and mb0 :: rt_mailbox where
  mbh_start: "mb_history n mb0 mb0 [] []"
| mbh_send: "mb_history n mb0 mb sent received \<Longrightarrow>
    rt_mb_send_wait n value timeout mb (k :: kernel) = (r, mb', k') \<or>
    rt_mb_send_resumed n t value timeout start mb k = (r, mb', k') \<Longrightarrow>
    mb_history n mb0 mb' (if r = Returned RT_EOK then sent @ [value] else sent) received"
| mbh_recv: "mb_history n mb0 mb sent received \<Longrightarrow>
    rt_mb_recv n timeout mb (k :: kernel) = (r, got, mb', k') \<or>
    rt_mb_recv_resumed n t timeout start mb k = (r, got, mb', k') \<Longrightarrow>
    mb_history n mb0 mb' sent (case got of Some v \<Rightarrow> received @ [v] | None \<Rightarrow> received)"

lemma send_loop_cases:
  assumes "mb_send_loop n thread v timeout mb k = (r, mb', k')"
  shows "r = Returned RT_EOK \<and> mb_entry mb \<noteq> mb_size mb \<and> mb' = put_mail v mb \<or>
    r \<noteq> Returned RT_EOK \<and> mb' = mb"
  using assms by (auto simp: mb_send_loop_def Let_def split: if_splits option.splits)

lemma recv_loop_cases:
  assumes "mb_recv_loop n thread timeout mb k = (r, got, mb', k')"
  shows "r = Returned RT_EOK \<and> mb_entry mb \<noteq> 0 \<and> got = Some (msg_pool mb ! unat (out_offset mb)) \<and> mb' = take_mail mb \<or>
    r \<noteq> Returned RT_EOK \<and> got = None \<and> mb' = mb"
  using assms by (auto simp: mb_recv_loop_def Let_def split: if_splits option.splits)

lemma send_cases:
  assumes "rt_mb_send_wait n v timeout mb k = (r, mb', k') \<or> rt_mb_send_resumed n t v timeout start mb k = (r, mb', k')"
  shows "r = Returned RT_EOK \<and> mb_entry mb \<noteq> mb_size mb \<and> mb' = put_mail v mb \<or>
    r \<noteq> Returned RT_EOK \<and> mb' = mb"
  using assms
  by (elim disjE) (auto simp: rt_mb_send_wait_def rt_mb_send_resumed_def split: if_splits dest: send_loop_cases)

lemma recv_cases:
  assumes "rt_mb_recv n timeout mb k = (r, got, mb', k') \<or> rt_mb_recv_resumed n t timeout start mb k = (r, got, mb', k')"
  shows "r = Returned RT_EOK \<and> mb_entry mb \<noteq> 0 \<and> got = Some (msg_pool mb ! unat (out_offset mb)) \<and> mb' = take_mail mb \<or>
    r \<noteq> Returned RT_EOK \<and> got = None \<and> mb' = mb"
  using assms
  by (elim disjE) (auto simp: rt_mb_recv_def rt_mb_recv_resumed_def split: if_splits dest: recv_loop_cases)

text \<open>C14: Mail is delivered once, in order and completely.  In every history of a mailbox,
  what was in it followed by the values sent equals the values received followed by what
  is in it, and the ring never holds more than its size.\<close>

theorem mb_delivers_in_order:
  assumes "mb_history n mb0 mb sent received" "mb_inv mb0"
  shows "mb_inv mb \<and> mb_contents mb0 @ sent = received @ mb_contents mb \<and>
    length (mb_contents mb) \<le> unat (mb_size mb) \<and> mb_size mb = mb_size mb0"
  using assms
proof (induction rule: mb_history.induct)
  case mbh_start
  then show ?case using mb.bounded by simp
next
  case (mbh_send mb sent received v timeout k r mb' k' t start)
  note c = send_cases[OF mbh_send.hyps(2)]
  show ?case using c mbh_send.IH mbh_send.prems put_mail_queue[of mb v] mb.bounded[of mb']
    by (auto simp: put_mail_fields)
next
  case (mbh_recv mb sent received timeout k r got mb' k' t start)
  note c = recv_cases[OF mbh_recv.hyps(2)]
  show ?case using c mbh_recv.IH mbh_recv.prems take_mail_queue[of mb] mb.bounded[of mb']
    by (auto simp: take_mail_fields)
qed

definition demo_mailbox :: rt_mailbox where
  "demo_mailbox = \<lparr>mb_flag = 0, msg_pool = [0, 0], mb_size = 2, mb_entry = 0, in_offset = 1, out_offset = 1\<rparr>"

lemma demo_mailbox_inv: "mb_inv demo_mailbox" "mb_contents demo_mailbox = []"
  by (simp_all add: demo_mailbox_def mb_inv_def mb_contents_def)

theorem mb_delivers_in_order_witness:
  "mb_contents (put_mail 8 (put_mail 7 demo_mailbox)) = [7, 8]"
proof -
  have s: "rt_mb_send_wait 0 7 0 demo_mailbox demo_kernel = (Returned RT_EOK, put_mail 7 demo_mailbox, snd (snd (rt_mb_send_wait 0 7 0 demo_mailbox demo_kernel)))"
    "rt_mb_send_wait 0 8 0 (put_mail 7 demo_mailbox) demo_kernel = (Returned RT_EOK, put_mail 8 (put_mail 7 demo_mailbox), snd (snd (rt_mb_send_wait 0 8 0 (put_mail 7 demo_mailbox) demo_kernel)))"
    by (simp_all add: rt_mb_send_wait_def mb_send_loop_def put_mail_fields) (simp_all add: demo_mailbox_def)
  have "mb_history 0 demo_mailbox (put_mail 8 (put_mail 7 demo_mailbox)) [7, 8] []"
    using mbh_send[OF mbh_send[OF mbh_start disjI1[OF s(1)]] disjI1[OF s(2)]] by simp
  from mb_delivers_in_order[OF this demo_mailbox_inv(1)] demo_mailbox_inv(2) show ?thesis by simp
qed


section \<open>The calls in the kernel\<close>

lemma pool_access_ok:
  assumes "mb_inv mb"
  shows "pool_access (out_offset mb) mb k = k" "pool_access (in_offset mb) mb k = k"
  using assms by (simp_all add: pool_access_def mb_inv_def word_less_nat_alt unat_gt_0)

lemma resume_one_inv:
  assumes "kernel_inv k" "waiting_head h"
  defines "k' \<equiv> resume_one h k"
  shows "kernel_inv k'" "rt_tick k' = rt_tick k"
    "case tlists k h of [] \<Rightarrow> k' = k | w # ws \<Rightarrow> stat_of k' w = RT_THREAD_READY \<and> tlists k' h = ws \<and>
      tlists k' (Ready (prio_of k w)) = tlists k (Ready (prio_of k w)) @ [w]"
proof -
  have "kernel_inv k' \<and> rt_tick k' = rt_tick k \<and> (case tlists k h of [] \<Rightarrow> k' = k | w # ws \<Rightarrow>
      stat_of k' w = RT_THREAD_READY \<and> tlists k' h = ws \<and>
      tlists k' (Ready (prio_of k w)) = tlists k (Ready (prio_of k w)) @ [w])"
  proof (cases "tlists k h")
    case Nil
    then show ?thesis using assms(1) by (simp add: k'_def resume_one_def)
  next
    case (Cons w ws)
    show ?thesis using list_resume_inv[OF assms(1,2) Cons] Cons by (simp add: k'_def resume_one_def)
  qed
  then show "kernel_inv k'" "rt_tick k' = rt_tick k"
    "case tlists k h of [] \<Rightarrow> k' = k | w # ws \<Rightarrow> stat_of k' w = RT_THREAD_READY \<and> tlists k' h = ws \<and>
      tlists k' (Ready (prio_of k w)) = tlists k (Ready (prio_of k w)) @ [w]" by blast+
qed

text \<open>Blocking on one of the two lists.\<close>

lemma block_inv:
  assumes "kernel_inv k" "stat_of k t = RT_THREAD_READY" "flag \<in> {0, 1}" "waiting_head h"
    "0 < sint timeout \<longrightarrow> unat timeout < unat HALF_TICK_MAX"
  defines "k' \<equiv> ipc_wait h t flag timeout (upd_thread t (\<lambda>th. th\<lparr>th_error := RT_EOK\<rparr>) k)"
  shows "kernel_inv k' \<and> stat_of k' t = RT_THREAD_SUSPEND \<and> t \<in> set (tlists k' h) \<and>
    (0 < sint timeout \<longrightarrow> timeout_of k' (ThreadTimer t) = rt_tick k + timeout)"
proof -
  let ?k = "upd_thread t (\<lambda>th. th\<lparr>th_error := RT_EOK\<rparr>) k"
  have i: "kinv (rt_tick k) {} ?k" by (rule kinv_upd_field[OF assms(1)]) simp_all
  have st: "stat_of ?k t = RT_THREAD_READY" using assms(2) by simp
  show ?thesis
    using ipc_wait_inv[OF i st assms(3,4), of timeout] ipc_wait_frame(2)[OF i st assms(3,4), of timeout] assms(5)
    by (simp add: k'_def)
qed

text \<open>C15: Sending mail, on every branch.  With room, the value is appended and the first waiting
  receiver, if any, becomes ready.  Without room the mailbox is unchanged: a call that does
  not wait fails with \<^verbatim>\<open>-RT_EFULL\<close>, any other suspends the caller in the list of senders,
  with its timer due when the time is up.\<close>

theorem mb_send_effect:
  assumes "kernel_inv k" "mb_inv mb" "mb_flag mb \<in> {0, 1}" "rt_current_thread k = Some t"
    "stat_of k t = RT_THREAD_READY" "0 < sint timeout \<longrightarrow> unat timeout < unat HALF_TICK_MAX"
    "rt_mb_send_wait n v timeout mb k = (r, mb', k')"
  shows "kernel_inv k' \<and>
    (if length (mb_contents mb) < unat (mb_size mb)
     then r = Returned RT_EOK \<and> mb_contents mb' = mb_contents mb @ [v] \<and>
       (case tlists k (Waiting (MailBoxObj n)) of
          [] \<Rightarrow> k' = k
        | w # ws \<Rightarrow> stat_of k' w = RT_THREAD_READY \<and> tlists k' (Waiting (MailBoxObj n)) = ws)
     else mb' = mb \<and>
       (if timeout = 0 then r = Returned (- RT_EFULL) \<and> k' = k
        else r = Blocked \<and> stat_of k' t = RT_THREAD_SUSPEND \<and> t \<in> set (tlists k' (Senders (MailBoxObj n))) \<and>
          (0 < sint timeout \<longrightarrow> timeout_of k' (ThreadTimer t) = rt_tick k + timeout)))"
proof (cases "mb_entry mb = mb_size mb")
  case True
  then show ?thesis
    using assms(1,4,7) block_inv[OF assms(1,5,3) waiting_head_simps(2), of timeout "MailBoxObj n"] assms(6)
    by (auto simp: rt_mb_send_wait_def mb_send_loop_def rt_thread_self_def mb_contents_length Let_def split: if_splits)
next
  case False
  then have l: "length (mb_contents mb) < unat (mb_size mb)"
    using assms(2) by (simp add: mb_contents_length mb_inv_def word_le_nat_alt order_neq_le_trans word_unat_eq_iff)
  have e: "r = Returned RT_EOK" "mb' = put_mail v mb" "k' = resume_one (Waiting (MailBoxObj n)) k"
    using assms(7) False by (simp_all add: rt_mb_send_wait_def mb_send_loop_def pool_access_ok[OF assms(2)])
  show ?thesis
    using l put_mail_queue(2)[OF assms(2) False] resume_one_inv[OF assms(1) waiting_head_simps(1), of "MailBoxObj n"]
    by (auto simp: e split: list.splits)
qed

theorem mb_send_effect_witness:
  "length (mb_contents (put_mail 8 (put_mail 7 demo_mailbox))) = 2 \<and>
    fst (rt_mb_send_wait 0 9 20 (put_mail 8 (put_mail 7 demo_mailbox)) demo_kernel) = Blocked \<and>
    timeout_of (snd (snd (rt_mb_send_wait 0 9 20 (put_mail 8 (put_mail 7 demo_mailbox)) demo_kernel))) (ThreadTimer 1)
      = rt_tick demo_kernel + 20"
proof -
  let ?mb = "put_mail 8 (put_mail 7 demo_mailbox)"
  have c: "length (mb_contents ?mb) = 2" "mb_flag ?mb = 0" "mb_size ?mb = 2" "mb_inv ?mb"
    by code_simp+
  obtain r mb' k' where s: "rt_mb_send_wait 0 9 20 ?mb demo_kernel = (r, mb', k')" by (rule prod_cases3)
  have "stat_of demo_kernel 1 = RT_THREAD_READY" by code_simp
  from mb_send_effect[OF demo_kernel_inv c(4) _ demo_current this _ s] c s show ?thesis by simp
qed

text \<open>The calls and their continuations keep the invariants.\<close>

lemma mb_send_loop_inv:
  assumes "kernel_inv k" "mb_inv mb" "mb_flag mb \<in> {0, 1}" "stat_of k t = RT_THREAD_READY"
    "0 < sint timeout \<longrightarrow> unat timeout < unat HALF_TICK_MAX"
    "mb_send_loop n (Some t) v timeout mb k = (r, mb', k')"
  shows "kernel_inv k' \<and> mb_inv mb' \<and> mb_flag mb' = mb_flag mb"
proof (cases "mb_entry mb = mb_size mb")
  case True
  have "kinv (rt_tick k) {} (upd_thread t (\<lambda>th. th\<lparr>th_error := RT_EOK\<rparr>) k)"
    by (rule kinv_upd_field[OF assms(1)]) simp_all
  then show ?thesis using True assms(2,6) block_inv[OF assms(1,4,3) waiting_head_simps(2) assms(5)]
    by (auto simp: mb_send_loop_def Let_def split: if_splits)
next
  case False
  then show ?thesis using assms(6) put_mail_queue(1)[OF assms(2) False]
      resume_one_inv(1)[OF assms(1) waiting_head_simps(1)]
    by (auto simp: mb_send_loop_def pool_access_ok[OF assms(2)] put_mail_fields)
qed

lemma mb_recv_loop_inv:
  assumes "kernel_inv k" "mb_inv mb" "mb_flag mb \<in> {0, 1}" "stat_of k t = RT_THREAD_READY"
    "0 < sint timeout \<longrightarrow> unat timeout < unat HALF_TICK_MAX"
    "mb_recv_loop n (Some t) timeout mb k = (r, got, mb', k')"
  shows "kernel_inv k' \<and> mb_inv mb' \<and> mb_flag mb' = mb_flag mb"
proof (cases "mb_entry mb = 0")
  case True
  have i: "kinv (rt_tick k) {} (upd_thread t (\<lambda>th. th\<lparr>th_error := RT_EOK\<rparr>) k)"
    by (rule kinv_upd_field[OF assms(1)]) simp_all
  have "kinv (rt_tick k) {} (upd_thread t (\<lambda>th. th\<lparr>th_error := - RT_ETIMEOUT\<rparr>)
      (upd_thread t (\<lambda>th. th\<lparr>th_error := RT_EOK\<rparr>) k))"
    by (rule kinv_upd_field[OF i]) simp_all
  then show ?thesis using True assms(2,6) block_inv[OF assms(1,4,3) waiting_head_simps(1) assms(5)]
    by (auto simp: mb_recv_loop_def Let_def split: if_splits)
next
  case False
  then show ?thesis using assms(6) take_mail_queue(1)[OF assms(2) False]
      resume_one_inv(1)[OF assms(1) waiting_head_simps(2)]
    by (auto simp: mb_recv_loop_def pool_access_ok[OF assms(2)] take_mail_fields)
qed

text \<open>C16: The time left to wait.  After a wake-up, the remaining time is the requested time
  minus the ticks that have passed, also across a wrap-around of the tick counter, and it
  is 0, never negative, when the time is used up.\<close>

theorem remaining_time_exact:
  assumes "0 < sint timeout" "uint (now - start) < 2147483648"
  shows "sint (remaining_time timeout start now) = max 0 (sint timeout - uint (now - start))"
proof -
  define e where "e = now - start"
  have t: "uint timeout < 2147483648" "sint timeout = uint timeout"
    using assms(1) uint_bounded[of timeout] by (auto simp: sint_u32 split: if_splits)
  note b = t(1) assms(2)[folded e_def] uint_ge_0[of e] uint_ge_0[of timeout]
  have "sint (timeout - e) = uint timeout - uint e"
  proof (cases "uint e \<le> uint timeout")
    case True
    then have "uint (timeout - e) = uint timeout - uint e" by (simp add: uint_sub_if_size)
    moreover have "uint timeout - uint e < 2147483648" using b by linarith
    ultimately show ?thesis by (simp add: sint_u32)
  next
    case False
    then have "uint (timeout - e) = uint timeout - uint e + 4294967296" by (simp add: uint_sub_if_size word_size)
    moreover have "\<not> uint timeout - uint e + 4294967296 < 2147483648" using b by linarith
    ultimately show ?thesis by (simp add: sint_u32)
  qed
  then show ?thesis using assms(1) t by (auto simp: remaining_time_def e_def Let_def)
qed

theorem remaining_time_exact_witness: "sint (remaining_time 20 0xFFFFFFFE 3) = 15"
proof -
  have "0 < sint (20 :: u32)" "uint ((3 :: u32) - 0xFFFFFFFE) < 2147483648" by simp_all
  from remaining_time_exact[OF this] show ?thesis by simp
qed

end
