(* ===== verification/MsgQueue.thy ===== *)
theory MsgQueue
  imports Mailbox
begin

text \<open>
  Message queues (\<^verbatim>\<open>rt_mq_*\<close> of \<^verbatim>\<open>src/ipc.c\<close>): a pool of fixed-size message nodes on two singly
  linked lists, the queue and the free list.  Node \<open>i\<close> is the \<open>i\<close>-th node of the pool,
  \<open>mq_next\<close> its link and \<open>mq_data\<close> the bytes behind it.

  A send takes a free node and links it to the queue in two regions with interrupts
  disabled and copies the message in between with interrupts enabled; a receive copies
  between unlinking and giving back.  So the pieces \<open>mq_claim\<close>, \<open>mq_fill\<close>, \<open>mq_link_tail\<close>,
  \<open>mq_link_head\<close>, \<open>mq_unlink\<close> and \<open>mq_give_back\<close> are operations of their own, the calls are
  composed of them, and the refinement is proved for every interleaving of the pieces.
\<close>

record rt_messagequeue =
  mq_flag :: u8
  mq_msg_size :: u16
  mq_max_msgs :: u16
  mq_entry :: u16
  msg_queue_head :: "nat option"
  msg_queue_tail :: "nat option"
  msg_queue_free :: "nat option"
  mq_next :: "nat \<Rightarrow> nat option"
  mq_data :: "nat \<Rightarrow> u8 list"

abbreviation (input) sizeof_mq_message :: u32 where "sizeof_mq_message \<equiv> 4"

section \<open>Operations\<close>

primrec mq_link_free :: "nat \<Rightarrow> rt_messagequeue \<Rightarrow> rt_messagequeue" where
  "mq_link_free 0 mq = mq"
| "mq_link_free (Suc temp) mq =
    (let mq = mq_link_free temp mq
     in mq\<lparr>mq_next := (mq_next mq)(temp := msg_queue_free mq), msg_queue_free := Some temp\<rparr>)"

definition new_mq :: "(nat \<Rightarrow> u8 list) \<Rightarrow> u16 \<Rightarrow> u16 \<Rightarrow> u8 \<Rightarrow> rt_messagequeue" where
  "new_mq pool msg_size max_msgs flag =
    mq_link_free (unat max_msgs)
      \<lparr>mq_flag = flag, mq_msg_size = msg_size, mq_max_msgs = max_msgs, mq_entry = 0,
       msg_queue_head = None, msg_queue_tail = None, msg_queue_free = None,
       mq_next = (\<lambda>_. None), mq_data = pool\<rparr>"

definition rt_mq_init ::
  "nat \<Rightarrow> string \<Rightarrow> (nat \<Rightarrow> u8 list) \<Rightarrow> u32 \<Rightarrow> u32 \<Rightarrow> u8 \<Rightarrow> 'a kernel_scheme \<Rightarrow> rt_messagequeue \<times> 'a kernel_scheme" where
  "rt_mq_init n name msgpool msg_size pool_size flag k =
    (let size16 = ucast (RT_ALIGN msg_size RT_ALIGN_SIZE) :: u16
     in (new_mq msgpool size16 (ucast (pool_size div (ucast size16 + sizeof_mq_message))) flag,
         init_waiters (MqObj n) (rt_object_init (MqObj n) RT_Object_Class_MessageQueue name k)))"

definition rt_mq_detach :: "nat \<Rightarrow> 'a kernel_scheme \<Rightarrow> 'a kernel_scheme option" where
  "rt_mq_detach n k =
    map_option (rt_object_detach (MqObj n)) (rt_ipc_list_resume_all (Waiting (MqObj n)) k)"

definition rt_mq_delete :: "nat \<Rightarrow> 'a kernel_scheme \<Rightarrow> 'a kernel_scheme option" where
  "rt_mq_delete n k =
    map_option (\<lambda>k. rt_object_delete (MqObj n) (k\<lparr>k_freed := PoolMem (MqObj n) # k_freed k\<rparr>))
      (rt_ipc_list_resume_all (Waiting (MqObj n)) k)"

definition rt_mq_create ::
  "nat option \<Rightarrow> (nat \<Rightarrow> u8 list) option \<Rightarrow> string \<Rightarrow> u32 \<Rightarrow> u32 \<Rightarrow> u8 \<Rightarrow> 'a kernel_scheme
    \<Rightarrow> (nat \<times> rt_messagequeue) option \<times> 'a kernel_scheme option" where
  "rt_mq_create malloc_result pool_result name msg_size max_msgs flag k =
    (case rt_object_allocate (map_option MqObj malloc_result) RT_Object_Class_MessageQueue name k of
       (Some (MqObj n), k) \<Rightarrow>
         let k = init_waiters (MqObj n) k
         in (case pool_result of
               None \<Rightarrow> (None, rt_mq_delete n k)
             | Some pool \<Rightarrow>
                 (Some (n, new_mq pool (ucast (RT_ALIGN msg_size RT_ALIGN_SIZE)) (ucast max_msgs) flag), Some k))
     | (_, k) \<Rightarrow> (None, Some k))"

definition mq_claim :: "rt_messagequeue \<Rightarrow> (nat \<times> rt_messagequeue) option" where
  "mq_claim mq =
    (case msg_queue_free mq of None \<Rightarrow> None | Some m \<Rightarrow> Some (m, mq\<lparr>msg_queue_free := mq_next mq m\<rparr>))"

definition mq_fill :: "nat \<Rightarrow> u8 list \<Rightarrow> u32 \<Rightarrow> rt_messagequeue \<Rightarrow> rt_messagequeue" where
  "mq_fill m buffer msize mq =
    mq\<lparr>mq_data := (mq_data mq)(m := take (unat msize) buffer @ drop (unat msize) (mq_data mq m))\<rparr>"

definition mq_end :: "nat \<Rightarrow> rt_messagequeue \<Rightarrow> rt_messagequeue" where
  "mq_end m mq = mq\<lparr>mq_next := (mq_next mq)(m := None)\<rparr>"

definition mq_link_tail :: "nat \<Rightarrow> rt_messagequeue \<Rightarrow> rt_messagequeue" where
  "mq_link_tail m mq =
    (let mq = (case msg_queue_tail mq of
                 Some l \<Rightarrow> mq\<lparr>mq_next := (mq_next mq)(l := Some m)\<rparr> | None \<Rightarrow> mq);
         mq = mq\<lparr>msg_queue_tail := Some m\<rparr>;
         mq = (if msg_queue_head mq = None then mq\<lparr>msg_queue_head := Some m\<rparr> else mq)
     in mq\<lparr>mq_entry := mq_entry mq + 1\<rparr>)"

definition mq_link_head :: "nat \<Rightarrow> rt_messagequeue \<Rightarrow> rt_messagequeue" where
  "mq_link_head m mq =
    (let mq = mq\<lparr>mq_next := (mq_next mq)(m := msg_queue_head mq), msg_queue_head := Some m\<rparr>;
         mq = (if msg_queue_tail mq = None then mq\<lparr>msg_queue_tail := Some m\<rparr> else mq)
     in mq\<lparr>mq_entry := mq_entry mq + 1\<rparr>)"

definition rt_mq_send ::
  "nat \<Rightarrow> u8 list \<Rightarrow> u32 \<Rightarrow> rt_messagequeue \<Rightarrow> 'a kernel_scheme \<Rightarrow> int \<times> rt_messagequeue \<times> 'a kernel_scheme" where
  "rt_mq_send n buffer msize mq k =
    (if msize > ucast (mq_msg_size mq) then (- RT_ERROR, mq, k)
     else case mq_claim mq of
            None \<Rightarrow> (- RT_EFULL, mq, k)
          | Some (m, mq) \<Rightarrow>
              (RT_EOK, mq_link_tail m (mq_fill m buffer msize (mq_end m mq)), resume_one (Waiting (MqObj n)) k))"

definition rt_mq_urgent ::
  "nat \<Rightarrow> u8 list \<Rightarrow> u32 \<Rightarrow> rt_messagequeue \<Rightarrow> 'a kernel_scheme \<Rightarrow> int \<times> rt_messagequeue \<times> 'a kernel_scheme" where
  "rt_mq_urgent n buffer msize mq k =
    (if msize > ucast (mq_msg_size mq) then (- RT_ERROR, mq, k)
     else case mq_claim mq of
            None \<Rightarrow> (- RT_EFULL, mq, k)
          | Some (m, mq) \<Rightarrow>
              (RT_EOK, mq_link_head m (mq_fill m buffer msize mq), resume_one (Waiting (MqObj n)) k))"

text \<open>Taking the first node off the queue; a null head would be dereferenced.\<close>

definition mq_unlink :: "rt_messagequeue \<Rightarrow> (nat \<times> rt_messagequeue) option" where
  "mq_unlink mq =
    (case msg_queue_head mq of
       None \<Rightarrow> None
     | Some m \<Rightarrow>
         let mq = mq\<lparr>msg_queue_head := mq_next mq m\<rparr>;
             mq = (if msg_queue_tail mq = Some m then mq\<lparr>msg_queue_tail := None\<rparr> else mq)
         in Some (m, mq\<lparr>mq_entry := mq_entry mq - 1\<rparr>))"

definition mq_give_back :: "nat \<Rightarrow> rt_messagequeue \<Rightarrow> rt_messagequeue" where
  "mq_give_back m mq = mq\<lparr>mq_next := (mq_next mq)(m := msg_queue_free mq), msg_queue_free := Some m\<rparr>"

definition mq_recv_loop ::
  "nat \<Rightarrow> nat option \<Rightarrow> u32 \<Rightarrow> u32 \<Rightarrow> rt_messagequeue \<Rightarrow> 'a kernel_scheme
    \<Rightarrow> ipc_outcome \<times> u8 list \<times> rt_messagequeue \<times> 'a kernel_scheme" where
  "mq_recv_loop n thread msize timeout mq k =
    (if mq_entry mq = 0
     then case thread of
            None \<Rightarrow> (Blocked, [], mq, k\<lparr>k_status := Bad_Access\<rparr>)
          | Some t \<Rightarrow>
              let k = upd_thread t (\<lambda>th. th\<lparr>th_error := RT_EOK\<rparr>) k
              in if timeout = 0
                 then (Returned (- RT_ETIMEOUT), [], mq,
                       upd_thread t (\<lambda>th. th\<lparr>th_error := - RT_ETIMEOUT\<rparr>) k)
                 else (Blocked, [], mq, ipc_wait (Waiting (MqObj n)) t (mq_flag mq) timeout k)
     else case mq_unlink mq of
            None \<Rightarrow> (Blocked, [], mq, k\<lparr>k_status := Bad_Access\<rparr>)
          | Some (m, mq) \<Rightarrow>
              let len = (if msize > ucast (mq_msg_size mq) then ucast (mq_msg_size mq) else msize)
              in (Returned RT_EOK, take (unat len) (mq_data mq m), mq_give_back m mq, k))"

definition rt_mq_recv ::
  "nat \<Rightarrow> u32 \<Rightarrow> u32 \<Rightarrow> rt_messagequeue \<Rightarrow> 'a kernel_scheme
    \<Rightarrow> ipc_outcome \<times> u8 list \<times> rt_messagequeue \<times> 'a kernel_scheme" where
  "rt_mq_recv n msize timeout mq k =
    (if mq_entry mq = 0 \<and> timeout = 0 then (Returned (- RT_ETIMEOUT), [], mq, k)
     else mq_recv_loop n (rt_thread_self k) msize timeout mq k)"

definition rt_mq_recv_resumed ::
  "nat \<Rightarrow> nat \<Rightarrow> u32 \<Rightarrow> u32 \<Rightarrow> u32 \<Rightarrow> rt_messagequeue \<Rightarrow> 'a kernel_scheme
    \<Rightarrow> ipc_outcome \<times> u8 list \<times> rt_messagequeue \<times> 'a kernel_scheme" where
  "rt_mq_recv_resumed n t msize timeout start mq k =
    (if th_error (threads k t) \<noteq> RT_EOK then (Returned (th_error (threads k t)), [], mq, k)
     else mq_recv_loop n (Some t) msize (remaining_time timeout start (rt_tick_get k)) mq k)"

text \<open>The loop of a reset that moves every queued node to the free list.\<close>

partial_function (option) mq_release_all :: "rt_messagequeue \<Rightarrow> rt_messagequeue option" where
  "mq_release_all mq =
    (case msg_queue_head mq of
       None \<Rightarrow> Some mq
     | Some m \<Rightarrow>
         (let mq = mq\<lparr>msg_queue_head := mq_next mq m\<rparr>;
              mq = (if msg_queue_tail mq = Some m then mq\<lparr>msg_queue_tail := None\<rparr> else mq)
          in mq_release_all (mq_give_back m mq)))"

definition rt_mq_control ::
  "nat \<Rightarrow> ipc_cmd \<Rightarrow> rt_messagequeue \<Rightarrow> 'a kernel_scheme
    \<Rightarrow> int \<times> rt_messagequeue option \<times> 'a kernel_scheme option" where
  "rt_mq_control n cmd mq k =
    (case cmd of
       RT_IPC_CMD_RESET \<Rightarrow>
         (RT_EOK, map_option (\<lambda>mq. mq\<lparr>mq_entry := 0\<rparr>) (mq_release_all mq),
          map_option rt_schedule (rt_ipc_list_resume_all (Waiting (MqObj n)) k))
     | RT_IPC_CMD_UNKNOWN \<Rightarrow> (- RT_ERROR, Some mq, Some k))"

section \<open>The node lists\<close>

fun chain :: "(nat \<Rightarrow> nat option) \<Rightarrow> nat option \<Rightarrow> nat list \<Rightarrow> bool" where
  "chain nx p [] \<longleftrightarrow> p = None"
| "chain nx p (m # ms) \<longleftrightarrow> p = Some m \<and> chain nx (nx m) ms"

lemma chain_frame [simp]: "x \<notin> set ms \<Longrightarrow> chain (nx(x := v)) p ms = chain nx p ms"
  by (induction ms arbitrary: p) auto

lemma chain_snoc:
  assumes "chain nx p (ms @ [l])" "distinct (ms @ [l, m])" "nx m = None"
  shows "chain (nx(l := Some m)) p (ms @ [l, m])"
  using assms by (induction ms arbitrary: p) auto

lemma chain_head: "chain nx p ms \<Longrightarrow> p = (case ms of [] \<Rightarrow> None | m # _ \<Rightarrow> Some m)"
  by (cases ms) auto

text \<open>The nodes of the pool are partitioned into the queue \<open>qs\<close>, the free list \<open>fs\<close> and the
  nodes \<open>F\<close> that a thread is copying from or to.\<close>

definition mq_rep :: "rt_messagequeue \<Rightarrow> nat list \<Rightarrow> nat list \<Rightarrow> nat set \<Rightarrow> bool" where
  "mq_rep mq qs fs F \<longleftrightarrow>
    chain (mq_next mq) (msg_queue_head mq) qs \<and> chain (mq_next mq) (msg_queue_free mq) fs \<and>
    msg_queue_tail mq = (if qs = [] then None else Some (last qs)) \<and>
    distinct (qs @ fs) \<and> set (qs @ fs) \<inter> F = {} \<and> set (qs @ fs) \<union> F = {..<unat (mq_max_msgs mq)} \<and>
    mq_entry mq = of_nat (length qs)"

lemma mq_repD:
  assumes "mq_rep mq qs fs F"
  shows "chain (mq_next mq) (msg_queue_head mq) qs" "chain (mq_next mq) (msg_queue_free mq) fs"
    "msg_queue_tail mq = (if qs = [] then None else Some (last qs))" "distinct qs" "distinct fs"
    "set qs \<inter> set fs = {}" "set qs \<inter> F = {}" "set fs \<inter> F = {}"
    "set qs \<union> set fs \<union> F = {..<unat (mq_max_msgs mq)}" "mq_entry mq = of_nat (length qs)"
  using assms by (auto simp: mq_rep_def)

lemma mq_rep_card:
  assumes "mq_rep mq qs fs F"
  shows "length qs + length fs + card F = unat (mq_max_msgs mq)" "unat (mq_entry mq) = length qs"
proof -
  have "finite F" using mq_repD(9)[OF assms] by (metis finite_Un finite_lessThan)
  then have "card (set qs \<union> set fs \<union> F) = card (set qs) + card (set fs) + card F"
    using mq_repD(6-8)[OF assms] by (subst card_Un_disjoint; simp add: Int_Un_distrib2 card_Un_disjoint)
  then show s: "length qs + length fs + card F = unat (mq_max_msgs mq)"
    using mq_repD(4,5,9)[OF assms] by (simp add: distinct_card)
  have "length qs < 2 ^ 16" using s unsigned_less[of "mq_max_msgs mq", where 'a = nat] by simp
  then show "unat (mq_entry mq) = length qs" using mq_repD(10)[OF assms] by (simp add: unat_of_nat take_bit_nat_eq_self)
qed

lemma claim_rep:
  assumes "mq_rep mq qs (m # fs) F"
  shows "mq_claim mq = Some (m, mq\<lparr>msg_queue_free := mq_next mq m\<rparr>)"
    "mq_rep (mq\<lparr>msg_queue_free := mq_next mq m\<rparr>) qs fs (insert m F)"
  using assms by (auto simp: mq_claim_def mq_rep_def)

lemma claim_full: "mq_rep mq qs [] F \<Longrightarrow> mq_claim mq = None"
  by (simp add: mq_claim_def mq_rep_def)

lemma flying: "mq_rep mq qs fs F \<Longrightarrow> m \<in> F \<Longrightarrow> m \<notin> set qs \<and> m \<notin> set fs"
  by (auto simp: mq_rep_def)

lemma fill_rep:
  assumes "mq_rep mq qs fs F" "m \<in> F"
  shows "mq_rep (mq_fill m buffer msize mq) qs fs F" "mq_rep (mq_end m mq) qs fs F"
  using assms flying[OF assms] by (simp_all add: mq_fill_def mq_end_def mq_rep_def)

lemma link_tail_rep:
  assumes "mq_rep mq qs fs F" "m \<in> F" "mq_next mq m = None"
  shows "mq_rep (mq_link_tail m mq) (qs @ [m]) fs (F - {m})"
proof (cases qs rule: rev_cases)
  case Nil
  then show ?thesis using assms flying[OF assms(1,2)] by (auto simp: mq_rep_def mq_link_tail_def Let_def)
next
  case (snoc as l)
  have n: "m \<notin> set qs" "m \<notin> set fs" "l \<notin> set fs" "l \<noteq> m"
    using mq_repD(6-8)[OF assms(1)] assms(2) snoc by auto
  have "chain ((mq_next mq)(l := Some m)) (msg_queue_head mq) (as @ [l, m])"
    using mq_repD(1,4)[OF assms(1)] snoc n assms(3) by (intro chain_snoc) auto
  moreover have "msg_queue_head mq \<noteq> None" using chain_head[OF mq_repD(1)[OF assms(1)]] snoc by (cases as) auto
  ultimately show ?thesis
    using assms(1,2) n snoc by (auto simp: mq_rep_def mq_link_tail_def Let_def)
qed

lemma link_head_rep:
  assumes "mq_rep mq qs fs F" "m \<in> F"
  shows "mq_rep (mq_link_head m mq) (m # qs) fs (F - {m})"
  using assms flying[OF assms] by (auto simp: mq_rep_def mq_link_head_def Let_def)

lemma unlink_rep:
  assumes "mq_rep mq (m # qs) fs F"
  obtains mq' where "mq_unlink mq = Some (m, mq')" "mq_rep mq' qs fs (insert m F)"
    "mq_data mq' = mq_data mq" "mq_msg_size mq' = mq_msg_size mq" "mq_max_msgs mq' = mq_max_msgs mq" "mq_flag mq' = mq_flag mq"
proof -
  have "last (m # qs) = m \<longleftrightarrow> qs = []" using mq_repD(4)[OF assms] by (auto dest: last_in_set)
  then show ?thesis using assms that
    by (auto simp: mq_rep_def mq_unlink_def Let_def)
qed

lemma give_back_rep:
  assumes "mq_rep mq qs fs F" "m \<in> F"
  shows "mq_rep (mq_give_back m mq) qs (m # fs) (F - {m})"
  using assms flying[OF assms] by (auto simp: mq_rep_def mq_give_back_def)

text \<open>A new queue: every node is free.\<close>

lemma link_free_fields:
  "msg_queue_head (mq_link_free n mq) = msg_queue_head mq" "msg_queue_tail (mq_link_free n mq) = msg_queue_tail mq"
  "mq_max_msgs (mq_link_free n mq) = mq_max_msgs mq" "mq_entry (mq_link_free n mq) = mq_entry mq"
  "mq_data (mq_link_free n mq) = mq_data mq" "mq_msg_size (mq_link_free n mq) = mq_msg_size mq"
  "mq_flag (mq_link_free n mq) = mq_flag mq"
  by (induction n) (simp_all add: Let_def)

lemma link_free_chain:
  assumes "msg_queue_free mq = None"
  shows "chain (mq_next (mq_link_free n mq)) (msg_queue_free (mq_link_free n mq)) (rev [0..<n])"
  using assms by (induction n) (simp_all add: Let_def)

lemma new_mq_rep: "mq_rep (new_mq pool sz n flag) [] (rev [0..<unat n]) {}"
  using link_free_chain[of "\<lparr>mq_flag = flag, mq_msg_size = sz, mq_max_msgs = n, mq_entry = 0,
       msg_queue_head = None, msg_queue_tail = None, msg_queue_free = None,
       mq_next = (\<lambda>_. None), mq_data = pool\<rparr>"]
  by (auto simp: mq_rep_def new_mq_def link_free_fields)

text \<open>The messages in the queue.\<close>

fun mq_walk :: "(nat \<Rightarrow> nat option) \<Rightarrow> nat option \<Rightarrow> nat \<Rightarrow> nat list" where
  "mq_walk nx (Some m) (Suc n) = m # mq_walk nx (nx m) n"
| "mq_walk nx _ _ = []"

definition mq_contents :: "rt_messagequeue \<Rightarrow> u8 list list" where
  "mq_contents mq = map (mq_data mq) (mq_walk (mq_next mq) (msg_queue_head mq) (unat (mq_entry mq)))"

lemma walk_chain: "chain nx p ms \<Longrightarrow> mq_walk nx p (length ms) = ms"
  by (induction ms arbitrary: p) auto

lemma contents_rep: "mq_rep mq qs fs F \<Longrightarrow> mq_contents mq = map (mq_data mq) qs"
  using mq_rep_card(2)[of mq qs fs F] walk_chain[of "mq_next mq" "msg_queue_head mq" qs]
  by (auto simp: mq_contents_def mq_rep_def)

lemma piece_fields [simp]:
  "mq_data (mq_link_tail m mq) = mq_data mq" "mq_data (mq_link_head m mq) = mq_data mq"
  "mq_data (mq_end m mq) = mq_data mq" "mq_data (mq_give_back m mq) = mq_data mq"
  "mq_max_msgs (mq_link_tail m mq) = mq_max_msgs mq" "mq_max_msgs (mq_link_head m mq) = mq_max_msgs mq"
  "mq_max_msgs (mq_end m mq) = mq_max_msgs mq" "mq_max_msgs (mq_give_back m mq) = mq_max_msgs mq"
  "mq_max_msgs (mq_fill m buf sz mq) = mq_max_msgs mq"
  "mq_msg_size (mq_link_tail m mq) = mq_msg_size mq" "mq_msg_size (mq_link_head m mq) = mq_msg_size mq"
  "mq_msg_size (mq_end m mq) = mq_msg_size mq" "mq_msg_size (mq_give_back m mq) = mq_msg_size mq"
  "mq_msg_size (mq_fill m buf sz mq) = mq_msg_size mq"
  "mq_flag (mq_link_tail m mq) = mq_flag mq" "mq_flag (mq_link_head m mq) = mq_flag mq"
  "mq_flag (mq_end m mq) = mq_flag mq" "mq_flag (mq_give_back m mq) = mq_flag mq"
  "mq_flag (mq_fill m buf sz mq) = mq_flag mq"
  "mq_next (mq_fill m buf sz mq) = mq_next mq" "mq_next (mq_end m mq) = (mq_next mq)(m := None)"
  by (simp_all add: mq_link_tail_def mq_link_head_def mq_end_def mq_give_back_def mq_fill_def Let_def split: option.split)

section \<open>Every interleaving\<close>

text \<open>The pieces of sends and receives of many threads, interleaved: \<open>S\<close> are the nodes being
  filled, \<open>T\<close> the nodes being read with the message each reader is to get, \<open>q\<close> the abstract
  queue.  A node is linked at the end only after its link has been cleared.\<close>

inductive mq_run :: "rt_messagequeue \<Rightarrow> rt_messagequeue \<Rightarrow> nat set \<Rightarrow> (nat \<rightharpoonup> u8 list) \<Rightarrow> u8 list list \<Rightarrow> bool"
  for mq0 :: rt_messagequeue where
  mqr_start: "mq_run mq0 mq0 {} Map.empty []"
| mqr_claim: "mq_run mq0 mq S T q \<Longrightarrow> mq_claim mq = Some (m, mq') \<Longrightarrow> mq_run mq0 mq' (insert m S) T q"
| mqr_fill: "mq_run mq0 mq S T q \<Longrightarrow> m \<in> S \<Longrightarrow> mq_run mq0 (mq_fill m buffer msize mq) S T q"
| mqr_end: "mq_run mq0 mq S T q \<Longrightarrow> m \<in> S \<Longrightarrow> mq_run mq0 (mq_end m mq) S T q"
| mqr_tail: "mq_run mq0 mq S T q \<Longrightarrow> m \<in> S \<Longrightarrow> mq_next mq m = None \<Longrightarrow>
    mq_run mq0 (mq_link_tail m mq) (S - {m}) T (q @ [mq_data mq m])"
| mqr_head: "mq_run mq0 mq S T q \<Longrightarrow> m \<in> S \<Longrightarrow>
    mq_run mq0 (mq_link_head m mq) (S - {m}) T (mq_data mq m # q)"
| mqr_unlink: "mq_run mq0 mq S T q \<Longrightarrow> mq_entry mq \<noteq> 0 \<Longrightarrow> mq_unlink mq = Some (m, mq') \<Longrightarrow>
    mq_run mq0 mq' S (T(m \<mapsto> hd q)) (tl q)"
| mqr_back: "mq_run mq0 mq S T q \<Longrightarrow> T m = Some d \<Longrightarrow>
    mq_run mq0 (mq_give_back m mq) S (T(m := None)) q"

definition mq_state :: "rt_messagequeue \<Rightarrow> nat set \<Rightarrow> (nat \<rightharpoonup> u8 list) \<Rightarrow> u8 list list \<Rightarrow> bool" where
  "mq_state mq S T q \<longleftrightarrow> S \<inter> dom T = {} \<and> (\<forall>m d. T m = Some d \<longrightarrow> mq_data mq m = d) \<and>
    (\<exists>qs fs. mq_rep mq qs fs (S \<union> dom T) \<and> q = map (mq_data mq) qs)"

lemma mq_stateI:
  assumes "S \<inter> dom T = {}" "\<And>m d. T m = Some d \<Longrightarrow> mq_data mq m = d"
    "mq_rep mq qs fs (S \<union> dom T)" "q = map (mq_data mq) qs"
  shows "mq_state mq S T q"
  using assms by (auto simp: mq_state_def)

lemma mq_stateE:
  assumes "mq_state mq S T q"
  obtains qs fs where "S \<inter> dom T = {}" "\<forall>m d. T m = Some d \<longrightarrow> mq_data mq m = d"
    "mq_rep mq qs fs (S \<union> dom T)" "q = map (mq_data mq) qs"
  using assms unfolding mq_state_def by metis

lemma state_claim:
  assumes "mq_state mq S T q" "mq_claim mq = Some (m, mq')"
  shows "mq_state mq' (insert m S) T q"
proof -
  obtain qs fs where r: "S \<inter> dom T = {}" "\<forall>m d. T m = Some d \<longrightarrow> mq_data mq m = d"
    "mq_rep mq qs fs (S \<union> dom T)" "q = map (mq_data mq) qs" using assms(1) by (rule mq_stateE)
  then obtain fs' where fs: "fs = m # fs'"
    using assms(2) claim_full[of mq qs] claim_rep(1)[of mq qs] by (cases fs) auto
  note c = claim_rep[OF r(3)[unfolded fs]]
  have "m \<notin> dom T" using mq_repD(8)[OF r(3)] fs by auto
  then show ?thesis using c assms(2) r by (intro mq_stateI[of _ _ _ qs fs']) auto
qed

lemma state_fill:
  assumes "mq_state mq S T q" "m \<in> S"
  shows "mq_state (mq_fill m buffer msize mq) S T q" "mq_state (mq_end m mq) S T q"
proof -
  obtain qs fs where r: "S \<inter> dom T = {}" "\<forall>m d. T m = Some d \<longrightarrow> mq_data mq m = d"
    "mq_rep mq qs fs (S \<union> dom T)" "q = map (mq_data mq) qs" using assms(1) by (rule mq_stateE)
  have n: "m \<notin> set qs" "m \<notin> dom T" "m \<in> S \<union> dom T" using flying[OF r(3), of m] assms(2) r(1) by auto
  have "T x = Some d \<Longrightarrow> mq_data (mq_fill m buffer msize mq) x = d" for x d using r(2) n(2) by (auto simp: mq_fill_def)
  then show "mq_state (mq_fill m buffer msize mq) S T q"
    using n(1) r(1,4) fill_rep(1)[OF r(3) n(3)] by (intro mq_stateI[of _ _ _ qs fs]) (auto simp: mq_fill_def)
  show "mq_state (mq_end m mq) S T q"
    using r fill_rep(2)[OF r(3) n(3)] by (intro mq_stateI[of _ _ _ qs fs]) auto
qed

lemma state_link:
  assumes "mq_state mq S T q" "m \<in> S"
  shows "mq_next mq m = None \<Longrightarrow> mq_state (mq_link_tail m mq) (S - {m}) T (q @ [mq_data mq m])"
    "mq_state (mq_link_head m mq) (S - {m}) T (mq_data mq m # q)"
proof -
  obtain qs fs where r: "S \<inter> dom T = {}" "\<forall>m d. T m = Some d \<longrightarrow> mq_data mq m = d"
    "mq_rep mq qs fs (S \<union> dom T)" "q = map (mq_data mq) qs" using assms(1) by (rule mq_stateE)
  have n: "S \<union> dom T - {m} = (S - {m}) \<union> dom T" "m \<in> S \<union> dom T" using assms(2) r(1) by auto
  show "mq_state (mq_link_head m mq) (S - {m}) T (mq_data mq m # q)"
    using link_head_rep[OF r(3) n(2)] r n(1) by (intro mq_stateI[of _ _ _ "m # qs" fs]) auto
  assume "mq_next mq m = None"
  then show "mq_state (mq_link_tail m mq) (S - {m}) T (q @ [mq_data mq m])"
    using link_tail_rep[OF r(3) n(2)] r n(1) by (intro mq_stateI[of _ _ _ "qs @ [m]" fs]) auto
qed

lemma state_unlink:
  assumes "mq_state mq S T q" "mq_entry mq \<noteq> 0"
  obtains m mq' where "mq_unlink mq = Some (m, mq')" "mq_state mq' S (T(m \<mapsto> hd q)) (tl q)"
proof -
  obtain qs fs where r: "S \<inter> dom T = {}" "\<forall>m d. T m = Some d \<longrightarrow> mq_data mq m = d"
    "mq_rep mq qs fs (S \<union> dom T)" "q = map (mq_data mq) qs" using assms(1) by (rule mq_stateE)
  obtain m qs' where qs: "qs = m # qs'" using mq_rep_card(2)[OF r(3)] assms(2) by (cases qs) (auto simp: unat_eq_zero)
  obtain mq' where u: "mq_unlink mq = Some (m, mq')" "mq_rep mq' qs' fs (insert m (S \<union> dom T))"
    "mq_data mq' = mq_data mq" using unlink_rep[OF r(3)[unfolded qs]] by metis
  have "m \<notin> S" using mq_repD(7)[OF r(3)] qs by auto
  then have "mq_state mq' S (T(m \<mapsto> hd q)) (tl q)"
    using u(2,3) r qs by (intro mq_stateI[of _ _ _ qs' fs]) (auto split: if_splits)
  then show ?thesis using that u(1) by blast
qed

lemma state_back:
  assumes "mq_state mq S T q" "T m = Some d"
  shows "mq_state (mq_give_back m mq) S (T(m := None)) q"
proof -
  obtain qs fs where r: "S \<inter> dom T = {}" "\<forall>m d. T m = Some d \<longrightarrow> mq_data mq m = d"
    "mq_rep mq qs fs (S \<union> dom T)" "q = map (mq_data mq) qs" using assms(1) by (rule mq_stateE)
  have n: "S \<union> dom T - {m} = S \<union> dom (T(m := None))" "m \<in> S \<union> dom T" using assms(2) r(1) by auto
  show ?thesis using give_back_rep[OF r(3) n(2)] r n(1)
    by (intro mq_stateI[of _ _ _ qs "m # fs"]) (auto split: if_splits)
qed

lemma mq_run_state:
  assumes "mq_run (new_mq pool sz n flag) mq S T q"
  shows "mq_state mq S T q"
  using assms
proof (induction rule: mq_run.induct)
  case mqr_start
  show ?case using new_mq_rep[of pool sz n flag] by (intro mq_stateI) auto
next
  case (mqr_unlink mq S T q m mq')
  then show ?case using state_unlink[of mq S T q] by (metis option.inject prod.inject)
qed (blast intro: state_claim state_fill state_link state_back)+

text \<open>C17: The message queue under every interleaving.  However the pieces of concurrent sends,
  urgent sends and receives are interleaved, the linked nodes hold exactly the abstract
  queue (sends append, urgent sends prepend, receives take the first message), the entry
  count is its length, a receiver still finds its own message in the node it took, no
  node is used twice, and a non-zero count means there is a first node.\<close>

theorem mq_interleaving:
  assumes "mq_run (new_mq pool sz n flag) mq S T q"
  shows "mq_contents mq = q \<and> unat (mq_entry mq) = length q \<and> (\<forall>m d. T m = Some d \<longrightarrow> mq_data mq m = d) \<and>
    S \<inter> dom T = {} \<and> length q + card (S \<union> dom T) \<le> unat (mq_max_msgs mq) \<and>
    (mq_entry mq \<noteq> 0 \<longrightarrow> (\<exists>m mq'. mq_unlink mq = Some (m, mq')))"
proof -
  note s = mq_run_state[OF assms]
  obtain qs fs where r: "S \<inter> dom T = {}" "\<forall>m d. T m = Some d \<longrightarrow> mq_data mq m = d"
    "mq_rep mq qs fs (S \<union> dom T)" "q = map (mq_data mq) qs" using s by (rule mq_stateE)
  have "mq_entry mq \<noteq> 0 \<longrightarrow> (\<exists>m mq'. mq_unlink mq = Some (m, mq'))" using state_unlink[OF s] by metis
  then show ?thesis using contents_rep[OF r(3)] mq_rep_card[OF r(3)] r(1,2,4) by auto
qed

theorem mq_interleaving_witness:
  "mq_contents (mq_link_head 0 (mq_link_tail 1 (mq_end 1 (new_mq (\<lambda>i. [of_nat i]) 1 2 0)\<lparr>msg_queue_free := None\<rparr>)))
    = [[0], [1]]"
proof -
  let ?mq0 = "new_mq (\<lambda>i. [of_nat i]) 1 2 0"
  let ?mq1 = "?mq0\<lparr>msg_queue_free := Some 0\<rparr>" and ?mq2 = "?mq0\<lparr>msg_queue_free := None\<rparr>"
  have u: "mq_link_free 2 mq = mq_link_free (Suc (Suc 0)) mq" for mq by (simp only: numeral_2_eq_2)
  have c1: "mq_claim ?mq0 = Some (1, ?mq1)" and c2: "mq_claim ?mq1 = Some (0, ?mq2)"
    by (simp_all add: new_mq_def mq_claim_def Let_def u)
  have e: "mq_end 1 ?mq0\<lparr>msg_queue_free := None\<rparr> = mq_end 1 ?mq2" by (simp add: mq_end_def)
  have d: "mq_data ?mq0 = (\<lambda>i. [of_nat i])" by (simp add: new_mq_def link_free_fields)
  from mqr_claim[OF mqr_claim[OF mqr_start c1] c2] have "mq_run ?mq0 ?mq2 {0, 1} Map.empty []" by simp
  from mqr_end[OF this, of 1] have "mq_run ?mq0 (mq_end 1 ?mq2) {0, 1} Map.empty []" by simp
  from mqr_tail[OF this, of 1] have "mq_run ?mq0 (mq_link_tail 1 (mq_end 1 ?mq2)) {0} Map.empty [[1]]"
    by (simp add: d insert_Diff_if)
  from mqr_head[OF this, of 0] have "mq_run ?mq0 (mq_link_head 0 (mq_link_tail 1 (mq_end 1 ?mq2))) {} Map.empty [[0], [1]]"
    by (simp add: d)
  from mq_interleaving[OF this] show ?thesis unfolding e by simp
qed

section \<open>Undisturbed calls\<close>

definition mq_inv :: "rt_messagequeue \<Rightarrow> bool" where
  "mq_inv mq \<longleftrightarrow> mq_state mq {} Map.empty (mq_contents mq) \<and>
    (\<forall>m < unat (mq_max_msgs mq). length (mq_data mq m) = unat (mq_msg_size mq))"

lemma mq_stateD: "mq_state mq S T q \<Longrightarrow> q = mq_contents mq"
  using contents_rep by (elim mq_stateE) simp

lemma mq_invE:
  assumes "mq_inv mq"
  obtains qs fs where "mq_rep mq qs fs {}" "mq_contents mq = map (mq_data mq) qs"
  using assms unfolding mq_inv_def mq_state_def by auto

lemma mq_inv_bound:
  assumes "mq_inv mq"
  shows "length (mq_contents mq) \<le> unat (mq_max_msgs mq)" "unat (mq_entry mq) = length (mq_contents mq)"
proof -
  obtain qs fs where r: "mq_rep mq qs fs {}" "mq_contents mq = map (mq_data mq) qs" using assms by (rule mq_invE)
  show "length (mq_contents mq) \<le> unat (mq_max_msgs mq)" "unat (mq_entry mq) = length (mq_contents mq)"
    using mq_rep_card[OF r(1)] r(2) by auto
qed

text \<open>A call that is not disturbed appends or prepends the message, padded to the message
  size with what the node held before.\<close>

lemma mq_insert:
  assumes "mq_inv mq" "length (mq_contents mq) < unat (mq_max_msgs mq)" "unat msize \<le> length buffer"
    "unat msize \<le> unat (mq_msg_size mq)"
  obtains m mq1 pad where "mq_claim mq = Some (m, mq1)" "length (take (unat msize) buffer @ pad) = unat (mq_msg_size mq)"
    "mq_inv (mq_link_tail m (mq_fill m buffer msize (mq_end m mq1)))"
    "mq_contents (mq_link_tail m (mq_fill m buffer msize (mq_end m mq1))) = mq_contents mq @ [take (unat msize) buffer @ pad]"
    "mq_inv (mq_link_head m (mq_fill m buffer msize mq1))"
    "mq_contents (mq_link_head m (mq_fill m buffer msize mq1)) = (take (unat msize) buffer @ pad) # mq_contents mq"
    "mq_max_msgs mq1 = mq_max_msgs mq" "mq_msg_size mq1 = mq_msg_size mq" "mq_flag mq1 = mq_flag mq"
proof -
  obtain qs fs where r: "mq_rep mq qs fs {}" "mq_contents mq = map (mq_data mq) qs"
    using assms(1) by (rule mq_invE)
  have "fs \<noteq> []" using mq_rep_card(1)[OF r(1)] assms(2) r(2) by auto
  then obtain m fs' where fs: "fs = m # fs'" by (cases fs) auto
  have m: "m < unat (mq_max_msgs mq)" using mq_repD(9)[OF r(1)] fs by auto
  define mq1 where "mq1 = mq\<lparr>msg_queue_free := mq_next mq m\<rparr>"
  have c: "mq_claim mq = Some (m, mq1)" using claim_rep(1)[of mq qs m fs' "{}"] r(1) fs by (simp add: mq1_def)
  have f: "mq_data mq1 = mq_data mq" "mq_max_msgs mq1 = mq_max_msgs mq" "mq_msg_size mq1 = mq_msg_size mq" "mq_flag mq1 = mq_flag mq"
    by (simp_all add: mq1_def)
  define pad where "pad = drop (unat msize) (mq_data mq m)"
  have l: "\<And>i. i < unat (mq_max_msgs mq) \<Longrightarrow> length (mq_data mq i) = unat (mq_msg_size mq)"
    using assms(1) by (simp add: mq_inv_def)
  have p: "length (take (unat msize) buffer @ pad) = unat (mq_msg_size mq)"
    using l[OF m] assms(3,4) by (simp add: pad_def)
  have d: "mq_data (mq_fill m buffer msize x) = (mq_data mq)(m := take (unat msize) buffer @ pad)" if "mq_data x = mq_data mq" for x
    using that by (simp add: mq_fill_def pad_def)
  have s1: "mq_state mq1 {m} Map.empty (mq_contents mq)"
    using state_claim[OF _ c, of "{}" Map.empty] assms(1) by (simp add: mq_inv_def)
  note t = state_link(1)[OF state_fill(1)[OF state_fill(2)[OF s1]], of m m m buffer msize]
    and h = state_link(2)[OF state_fill(1)[OF s1], of m m buffer msize]
  let ?t = "mq_link_tail m (mq_fill m buffer msize (mq_end m mq1))" and ?h = "mq_link_head m (mq_fill m buffer msize mq1)"
  have t': "mq_state ?t {} Map.empty (mq_contents mq @ [take (unat msize) buffer @ pad])" using t by (simp add: d f)
  have h': "mq_state ?h {} Map.empty ((take (unat msize) buffer @ pad) # mq_contents mq)" using h by (simp add: d f)
  note ct = mq_stateD[OF t'] and ch = mq_stateD[OF h']
  have "mq_inv ?t" using t' ct l p by (simp add: mq_inv_def d f)
  moreover have "mq_inv ?h" using h' ch l p by (simp add: mq_inv_def d f)
  ultimately show ?thesis using that[OF c p] ct ch f by simp
qed

lemma mq_remove:
  assumes "mq_inv mq" "mq_contents mq = d # ds"
  obtains m mq1 where "mq_unlink mq = Some (m, mq1)" "mq_data mq1 m = d" "mq_inv (mq_give_back m mq1)"
    "mq_contents (mq_give_back m mq1) = ds" "mq_max_msgs mq1 = mq_max_msgs mq" "mq_msg_size mq1 = mq_msg_size mq"
    "mq_flag mq1 = mq_flag mq" "mq_data mq1 = mq_data mq"
proof -
  obtain qs fs where r: "mq_rep mq qs fs {}" "mq_contents mq = map (mq_data mq) qs" using assms(1) by (rule mq_invE)
  then obtain m qs' where qs: "qs = m # qs'" "mq_data mq m = d" "ds = map (mq_data mq) qs'" using assms(2) by auto
  obtain mq1 where u: "mq_unlink mq = Some (m, mq1)" "mq_rep mq1 qs' fs {m}" "mq_data mq1 = mq_data mq"
    "mq_msg_size mq1 = mq_msg_size mq" "mq_max_msgs mq1 = mq_max_msgs mq" "mq_flag mq1 = mq_flag mq"
    using unlink_rep[of mq m qs' fs "{}"] r(1) qs(1) by metis
  have g: "mq_rep (mq_give_back m mq1) qs' (m # fs) {}" using give_back_rep[OF u(2), of m] by simp
  note c = contents_rep[OF g]
  have "mq_state (mq_give_back m mq1) {} Map.empty (mq_contents (mq_give_back m mq1))"
    using g c by (intro mq_stateI[of _ _ _ qs' "m # fs"]) auto
  then have "mq_inv (mq_give_back m mq1)" using assms(1) u(3-5) by (simp add: mq_inv_def)
  then show ?thesis using that[OF u(1)] u c qs by simp
qed

lemma mq_full:
  assumes "mq_inv mq" "length (mq_contents mq) = unat (mq_max_msgs mq)"
  shows "mq_claim mq = None"
proof -
  obtain qs fs where r: "mq_rep mq qs fs {}" "mq_contents mq = map (mq_data mq) qs" using assms(1) by (rule mq_invE)
  have "fs = []" using mq_rep_card(1)[OF r(1)] assms(2) r(2) by auto
  then show ?thesis using claim_full r(1) by blast
qed

text \<open>Full-size messages in and out: the queue is a bounded queue.\<close>

definition mq_put :: "u8 list \<Rightarrow> rt_messagequeue \<Rightarrow> rt_messagequeue option" where
  "mq_put msg mq = map_option (\<lambda>(m, mq1). mq_link_tail m (mq_fill m msg (ucast (mq_msg_size mq)) (mq_end m mq1))) (mq_claim mq)"

definition mq_get :: "rt_messagequeue \<Rightarrow> (u8 list \<times> rt_messagequeue) option" where
  "mq_get mq = (if mq_entry mq = 0 then None
    else map_option (\<lambda>(m, mq1). (mq_data mq1 m, mq_give_back m mq1)) (mq_unlink mq))"

lemma u16_u32: "unat (ucast (x :: u16) :: u32) = unat x"
  using unsigned_less[of x, where 'a = nat] by (simp add: unsigned_ucast_eq take_bit_nat_eq_self)

interpretation mqf: bounded_fifo mq_inv mq_contents "\<lambda>mq. unat (mq_max_msgs mq)" mq_put mq_get
  "\<lambda>mq msg. length msg = unat (mq_msg_size mq)"
proof unfold_locales
  fix mq :: rt_messagequeue and msg ms
  assume i: "mq_inv mq"
  show "length (mq_contents mq) \<le> unat (mq_max_msgs mq)" by (rule mq_inv_bound(1)[OF i])
  show "length (mq_contents mq) = unat (mq_max_msgs mq) \<Longrightarrow> mq_put msg mq = None"
    using mq_full[OF i] by (simp add: mq_put_def)
  show "mq_contents mq = [] \<Longrightarrow> mq_get mq = None"
    using mq_inv_bound(2)[OF i] by (simp add: mq_get_def unat_eq_zero)
  show "\<exists>q'. mq_put msg mq = Some q' \<and> mq_inv q' \<and> mq_contents q' = mq_contents mq @ [msg] \<and>
      unat (mq_max_msgs q') = unat (mq_max_msgs mq) \<and>
      (\<lambda>msg. length msg = unat (mq_msg_size q')) = (\<lambda>msg. length msg = unat (mq_msg_size mq))"
    if "length (mq_contents mq) < unat (mq_max_msgs mq)" "length msg = unat (mq_msg_size mq)"
  proof -
    have s: "unat (ucast (mq_msg_size mq) :: u32) = length msg" using that(2) by (simp add: u16_u32)
    have "unat (ucast (mq_msg_size mq) :: u32) \<le> length msg" "unat (ucast (mq_msg_size mq) :: u32) \<le> unat (mq_msg_size mq)"
      using s that(2) by simp_all
    from mq_insert[OF i that(1) this] obtain m mq1 pad where
      c: "mq_claim mq = Some (m, mq1)" "length (take (length msg) msg @ pad) = unat (mq_msg_size mq)"
      "mq_inv (mq_link_tail m (mq_fill m msg (ucast (mq_msg_size mq)) (mq_end m mq1)))"
      "mq_contents (mq_link_tail m (mq_fill m msg (ucast (mq_msg_size mq)) (mq_end m mq1))) = mq_contents mq @ [take (length msg) msg @ pad]"
      "mq_max_msgs mq1 = mq_max_msgs mq" "mq_msg_size mq1 = mq_msg_size mq" unfolding s by metis
    then show ?thesis using that(2) by (simp add: mq_put_def)
  qed
  show "\<exists>q'. mq_get mq = Some (msg, q') \<and> mq_inv q' \<and> mq_contents q' = ms \<and>
      unat (mq_max_msgs q') = unat (mq_max_msgs mq) \<and>
      (\<lambda>msg. length msg = unat (mq_msg_size q')) = (\<lambda>msg. length msg = unat (mq_msg_size mq))"
    if "mq_contents mq = msg # ms"
  proof -
    have "mq_entry mq \<noteq> 0" using mq_inv_bound(2)[OF i] that by auto
    moreover from mq_remove[OF i that] obtain m mq1 where "mq_unlink mq = Some (m, mq1)" "mq_data mq1 m = msg"
      "mq_inv (mq_give_back m mq1)" "mq_contents (mq_give_back m mq1) = ms" "mq_max_msgs mq1 = mq_max_msgs mq"
      "mq_msg_size mq1 = mq_msg_size mq" by metis
    ultimately show ?thesis by (simp add: mq_get_def)
  qed
qed

section \<open>The calls\<close>

text \<open>C18: Sending a message, on every branch.  A message longer than the message size is
  refused with \<^verbatim>\<open>-RT_ERROR\<close>, one that finds no free node with \<^verbatim>\<open>-RT_EFULL\<close>, and nothing
  changes.  Otherwise a send puts the message at the end and an urgent send at the front
  (a shorter message is padded to the message size).\<close>

theorem mq_send_effect:
  assumes "mq_inv mq" "unat msize \<le> length buffer"
  shows "(if unat msize > unat (mq_msg_size mq)
     then rt_mq_send n buffer msize mq k = (- RT_ERROR, mq, k) \<and> rt_mq_urgent n buffer msize mq k = (- RT_ERROR, mq, k)
     else if length (mq_contents mq) = unat (mq_max_msgs mq)
     then rt_mq_send n buffer msize mq k = (- RT_EFULL, mq, k) \<and> rt_mq_urgent n buffer msize mq k = (- RT_EFULL, mq, k)
     else \<exists>mq' mq'' pad. length (take (unat msize) buffer @ pad) = unat (mq_msg_size mq) \<and>
       rt_mq_send n buffer msize mq k = (RT_EOK, mq', resume_one (Waiting (MqObj n)) k) \<and> mq_inv mq' \<and>
       mq_contents mq' = mq_contents mq @ [take (unat msize) buffer @ pad] \<and>
       rt_mq_urgent n buffer msize mq k = (RT_EOK, mq'', resume_one (Waiting (MqObj n)) k) \<and> mq_inv mq'' \<and>
       mq_contents mq'' = (take (unat msize) buffer @ pad) # mq_contents mq)"
proof -
  have g: "ucast (mq_msg_size mq) < msize \<longleftrightarrow> unat (mq_msg_size mq) < unat msize"
    by (simp add: word_less_nat_alt u16_u32)
  consider "unat msize > unat (mq_msg_size mq)"
    | "\<not> unat msize > unat (mq_msg_size mq)" "length (mq_contents mq) = unat (mq_max_msgs mq)"
    | "\<not> unat msize > unat (mq_msg_size mq)" "length (mq_contents mq) < unat (mq_max_msgs mq)"
    using mq_inv_bound(1)[OF assms(1)] by linarith
  then show ?thesis
  proof cases
    case 3
    then have "unat msize \<le> unat (mq_msg_size mq)" by simp
    from mq_insert[OF assms(1) 3(2) assms(2) this] obtain m mq1 pad where
      c: "mq_claim mq = Some (m, mq1)" "length (take (unat msize) buffer @ pad) = unat (mq_msg_size mq)"
      "mq_inv (mq_link_tail m (mq_fill m buffer msize (mq_end m mq1)))"
      "mq_contents (mq_link_tail m (mq_fill m buffer msize (mq_end m mq1))) = mq_contents mq @ [take (unat msize) buffer @ pad]"
      "mq_inv (mq_link_head m (mq_fill m buffer msize mq1))"
      "mq_contents (mq_link_head m (mq_fill m buffer msize mq1)) = (take (unat msize) buffer @ pad) # mq_contents mq"
      by metis
    then show ?thesis using 3 g by (auto simp: rt_mq_send_def rt_mq_urgent_def)
  qed (use g mq_full[OF assms(1)] in \<open>auto simp: rt_mq_send_def rt_mq_urgent_def\<close>)
qed

definition demo_mq :: rt_messagequeue where
  "demo_mq = new_mq (\<lambda>_. [0, 0, 0, 0, 0, 0, 0, 0]) 8 2 0"

lemma demo_mq_inv: "mq_inv demo_mq" "mq_contents demo_mq = []"
proof -
  have c: "mq_contents demo_mq = []" using contents_rep[OF new_mq_rep] by (simp add: demo_mq_def)
  then show "mq_contents demo_mq = []" .
  have "mq_state demo_mq {} Map.empty []" using mq_run_state[OF mqr_start] by (simp add: demo_mq_def)
  then show "mq_inv demo_mq" using c by (simp add: mq_inv_def demo_mq_def new_mq_def link_free_fields)
qed

theorem mq_send_effect_witness:
  "fst (rt_mq_send 0 [1, 2, 3] 3 demo_mq demo_kernel) = RT_EOK \<and>
    rt_mq_send 0 (replicate 9 1) 9 demo_mq demo_kernel = (- RT_ERROR, demo_mq, demo_kernel)"
proof -
  have "unat (3 :: u32) \<le> length [1, 2, 3 :: u8]" "unat (9 :: u32) \<le> length (replicate 9 (1 :: u8))" by simp_all
  note e = mq_send_effect[OF demo_mq_inv(1) this(1), of 0 demo_kernel] mq_send_effect[OF demo_mq_inv(1) this(2), of 0 demo_kernel]
  have "mq_msg_size demo_mq = 8" "mq_max_msgs demo_mq = 2" by (simp_all add: demo_mq_def new_mq_def link_free_fields)
  then show ?thesis using e demo_mq_inv(2) by auto
qed

text \<open>What is sent is received.  With an empty queue, a message that fits is read back
  unchanged by the next receive of the same length, which leaves the queue empty.\<close>

theorem mq_roundtrip:
  assumes "mq_inv mq" "mq_contents mq = []" "0 < unat (mq_max_msgs mq)" "length buffer = unat msize"
    "unat msize \<le> unat (mq_msg_size mq)" "rt_mq_send n buffer msize mq k = (r, mq', k')"
  shows "r = RT_EOK \<and> (\<exists>mq''. rt_mq_recv n msize timeout mq' k'' = (Returned RT_EOK, buffer, mq'', k'') \<and>
    mq_inv mq'' \<and> mq_contents mq'' = [])"
proof -
  have "length (mq_contents mq) < unat (mq_max_msgs mq)" "unat msize \<le> length buffer" using assms(2-4) by simp_all
  from mq_insert[OF assms(1) this assms(5)] obtain m mq1 pad where
    c: "mq_claim mq = Some (m, mq1)" "mq_inv (mq_link_tail m (mq_fill m buffer msize (mq_end m mq1)))"
    "mq_contents (mq_link_tail m (mq_fill m buffer msize (mq_end m mq1))) = mq_contents mq @ [take (unat msize) buffer @ pad]"
    "mq_msg_size mq1 = mq_msg_size mq" by metis
  have ng: "\<not> ucast (mq_msg_size mq) < msize" using assms(5) by (simp add: word_less_nat_alt u16_u32)
  then have s: "r = RT_EOK" "mq' = mq_link_tail m (mq_fill m buffer msize (mq_end m mq1))"
    using assms(6) c(1) by (auto simp: rt_mq_send_def)
  have i: "mq_inv mq'" "mq_contents mq' = [buffer @ pad]" "mq_msg_size mq' = mq_msg_size mq"
    using c assms(2,4) s(2) by simp_all
  from mq_remove[OF i(1,2)] obtain x mq2 where
    u: "mq_unlink mq' = Some (x, mq2)" "mq_data mq2 x = buffer @ pad" "mq_inv (mq_give_back x mq2)"
    "mq_contents (mq_give_back x mq2) = []" "mq_msg_size mq2 = mq_msg_size mq'" by metis
  have "mq_entry mq' \<noteq> 0" using mq_inv_bound(2)[OF i(1)] i(2) by auto
  then show ?thesis using u i(3) ng s(1) assms(4) by (simp add: rt_mq_recv_def mq_recv_loop_def)
qed

theorem mq_roundtrip_witness:
  "fst (rt_mq_send 0 [1, 2, 3] 3 demo_mq demo_kernel) = RT_EOK \<and>
    fst (snd (rt_mq_recv 0 3 0 (fst (snd (rt_mq_send 0 [1, 2, 3] 3 demo_mq demo_kernel))) demo_kernel)) = [1, 2, 3]"
proof -
  obtain r mq' k' where e: "rt_mq_send 0 [1, 2, 3] 3 demo_mq demo_kernel = (r, mq', k')" by (rule prod_cases3)
  have "mq_msg_size demo_mq = 8" "mq_max_msgs demo_mq = 2" by (simp_all add: demo_mq_def new_mq_def link_free_fields)
  then show ?thesis using mq_roundtrip[OF demo_mq_inv _ _ _ e, of 0 demo_kernel] e by auto
qed

section \<open>Reset\<close>

lemma release_all_rep:
  assumes "mq_rep (mq\<lparr>mq_entry := of_nat (length qs)\<rparr>) qs fs {}"
  shows "\<exists>mq'. mq_release_all mq = Some mq' \<and> mq_rep (mq'\<lparr>mq_entry := 0\<rparr>) [] (rev qs @ fs) {} \<and>
    mq_data mq' = mq_data mq \<and> mq_msg_size mq' = mq_msg_size mq \<and> mq_max_msgs mq' = mq_max_msgs mq"
  using assms
proof (induction qs arbitrary: mq fs)
  case Nil
  then have "msg_queue_head mq = None" using mq_repD(1)[OF Nil] by simp
  then show ?case using Nil by (subst mq_release_all.simps) simp
next
  case (Cons m qs)
  let ?mq1 = "mq\<lparr>msg_queue_head := mq_next mq m\<rparr>"
  let ?mq2 = "if msg_queue_tail mq = Some m then ?mq1\<lparr>msg_queue_tail := None\<rparr> else ?mq1"
  have h: "msg_queue_head mq = Some m" using mq_repD(1)[OF Cons.prems] by simp
  have "last (m # qs) = m \<longleftrightarrow> qs = []" using mq_repD(4)[OF Cons.prems] by (auto dest: last_in_set)
  then have "mq_rep (mq_give_back m ?mq2\<lparr>mq_entry := of_nat (length qs)\<rparr>) qs (m # fs) {}"
    using Cons.prems by (auto simp: mq_rep_def mq_give_back_def)
  from Cons.IH[OF this] have "\<exists>mq'. mq_release_all (mq_give_back m ?mq2) = Some mq' \<and>
    mq_rep (mq'\<lparr>mq_entry := 0\<rparr>) [] (rev (m # qs) @ fs) {} \<and> mq_data mq' = mq_data mq \<and>
    mq_msg_size mq' = mq_msg_size mq \<and> mq_max_msgs mq' = mq_max_msgs mq"
    by (simp split: if_splits)
  then show ?case using h by (subst mq_release_all.simps) (auto simp: Let_def split: if_splits)
qed

text \<open>C19: Resetting a message queue ends, leaves it empty with every node free again, and
  wakes all waiting threads.\<close>

theorem mq_reset:
  assumes "mq_inv mq" "kernel_inv k"
  shows "\<exists>mq' k'. rt_mq_control n RT_IPC_CMD_RESET mq k = (RT_EOK, Some mq', Some k') \<and> mq_inv mq' \<and>
    mq_contents mq' = [] \<and> kernel_inv k' \<and> tlists k' (Waiting (MqObj n)) = [] \<and>
    (\<forall>t \<in> set (tlists k (Waiting (MqObj n))). stat_of k' t = RT_THREAD_READY \<and> th_error (threads k' t) = - RT_ERROR)"
proof -
  obtain qs fs where r: "mq_rep mq qs fs {}" "mq_contents mq = map (mq_data mq) qs" using assms(1) by (rule mq_invE)
  have "mq\<lparr>mq_entry := of_nat (length qs)\<rparr> = mq" using mq_repD(10)[OF r(1)] by simp
  then obtain mq' where m: "mq_release_all mq = Some mq'" "mq_rep (mq'\<lparr>mq_entry := 0\<rparr>) [] (rev qs @ fs) {}"
    "mq_data mq' = mq_data mq" "mq_msg_size mq' = mq_msg_size mq" "mq_max_msgs mq' = mq_max_msgs mq"
    using release_all_rep[where mq = mq and qs = qs and fs = fs] r(1) by auto
  let ?mq = "mq'\<lparr>mq_entry := 0\<rparr>"
  have c: "mq_contents ?mq = []" using contents_rep[OF m(2)] by simp
  then have "mq_state ?mq {} Map.empty (mq_contents ?mq)" using m(2) by (intro mq_stateI[of _ _ _ "[]" "rev qs @ fs"]) auto
  then have i: "mq_inv ?mq" using assms(1) m(3-5) by (simp add: mq_inv_def)
  obtain k' where k: "rt_ipc_list_resume_all (Waiting (MqObj n)) k = Some k'" "kinv (rt_tick k) {} k'"
    "tlists k' (Waiting (MqObj n)) = []" "rt_tick k' = rt_tick k"
    "\<forall>t. threads k' t = (if t \<in> set (tlists k (Waiting (MqObj n))) then dismissed (threads k t) else threads k t)"
    using list_resume_all_inv[OF assms(2) waiting_head_simps(1), of "MqObj n"] by blast
  show ?thesis using m(1) c i k by (auto simp: rt_mq_control_def dismissed_def)
qed

theorem mq_reset_witness:
  "mq_contents (fst (snd (rt_mq_send 0 [1, 2, 3] 3 demo_mq demo_kernel))) \<noteq> [] \<and>
    (\<exists>mq' k'. rt_mq_control 0 RT_IPC_CMD_RESET (fst (snd (rt_mq_send 0 [1, 2, 3] 3 demo_mq demo_kernel))) demo_kernel
      = (RT_EOK, Some mq', Some k') \<and> mq_contents mq' = [])"
proof -
  have s: "mq_msg_size demo_mq = 8" "mq_max_msgs demo_mq = 2" by (simp_all add: demo_mq_def new_mq_def link_free_fields)
  have "length (mq_contents demo_mq) < unat (mq_max_msgs demo_mq)" "unat (3 :: u32) \<le> length [1, 2, 3 :: u8]"
    "unat (3 :: u32) \<le> unat (mq_msg_size demo_mq)" using demo_mq_inv(2) s by simp_all
  from mq_insert[OF demo_mq_inv(1) this] obtain m mq1 where
    c: "mq_claim demo_mq = Some (m, mq1)" "mq_inv (mq_link_tail m (mq_fill m [1, 2, 3] 3 (mq_end m mq1)))"
    "mq_contents (mq_link_tail m (mq_fill m [1, 2, 3] 3 (mq_end m mq1))) \<noteq> []" by (metis append_is_Nil_conv list.distinct(1))
  then have "fst (snd (rt_mq_send 0 [1, 2, 3] 3 demo_mq demo_kernel)) = mq_link_tail m (mq_fill m [1, 2, 3] 3 (mq_end m mq1))"
    using s(1) by (simp add: rt_mq_send_def)
  then show ?thesis using mq_reset[OF c(2) demo_kernel_inv, of 0] c(3) by auto
qed

end
