(* ===== verification/KString.thy ===== *)
theory KString
  imports Prelude
begin

text \<open>
  The memory and string routines of \<^verbatim>\<open>src/kservice.c\<close> on the byte-addressed memory of the 32-bit
  processor.  Addresses wrap; counters are the unsigned numbers of the C code as natural numbers,
  which every loop decreases under a guard.  The word-wise fast paths are kept.
\<close>


section \<open>Memory\<close>

type_synonym memory = "u32 \<Rightarrow> u8"

definition store32 :: "u32 \<Rightarrow> u32 \<Rightarrow> memory \<Rightarrow> memory" where
  "store32 a w m =
    m(a := ucast w, a + 1 := ucast (drop_bit 8 w), a + 2 := ucast (drop_bit 16 w), a + 3 := ucast (drop_bit 24 w))"

definition load32 :: "memory \<Rightarrow> u32 \<Rightarrow> u32" where
  "load32 m a =
    ucast (m a) OR push_bit 8 (ucast (m (a + 1))) OR push_bit 16 (ucast (m (a + 2))) OR
    push_bit 24 (ucast (m (a + 3)))"


section \<open>The routines\<close>

fun set_big :: "u32 \<Rightarrow> nat \<Rightarrow> u32 \<Rightarrow> memory \<Rightarrow> nat \<times> u32 \<times> memory" where
  "set_big buffer count a m =
    (if count \<ge> 16
     then set_big buffer (count - 16) (a + 16)
            (store32 (a + 12) buffer (store32 (a + 8) buffer (store32 (a + 4) buffer (store32 a buffer m))))
     else (count, a, m))"

fun set_words :: "u32 \<Rightarrow> nat \<Rightarrow> u32 \<Rightarrow> memory \<Rightarrow> nat \<times> u32 \<times> memory" where
  "set_words buffer count a m =
    (if count \<ge> 4 then set_words buffer (count - 4) (a + 4) (store32 a buffer m) else (count, a, m))"

fun set_bytes :: "u8 \<Rightarrow> nat \<Rightarrow> u32 \<Rightarrow> memory \<Rightarrow> memory" where
  "set_bytes d 0 a m = m"
| "set_bytes d (Suc count) a m = set_bytes d count (a + 1) (m(a := d))"

definition rt_memset :: "u32 \<Rightarrow> u32 \<Rightarrow> u32 \<Rightarrow> memory \<Rightarrow> memory" where
  "rt_memset s c count m =
    (let d = c AND 0xff;
         (count, a, m) =
           (if \<not> unat count < 4 \<and> s AND 3 = 0
            then let buffer = push_bit 8 d OR d;
                     buffer = buffer OR push_bit 16 buffer;
                     (count, a, m) = set_big buffer (unat count) s m
                 in set_words buffer count a m
            else (unat count, s, m))
     in set_bytes (ucast d) count a m)"

fun copy_big :: "nat \<Rightarrow> u32 \<Rightarrow> u32 \<Rightarrow> memory \<Rightarrow> nat \<times> u32 \<times> u32 \<times> memory" where
  "copy_big len dst src m =
    (if len \<ge> 16
     then let m = store32 dst (load32 m src) m;
              m = store32 (dst + 4) (load32 m (src + 4)) m;
              m = store32 (dst + 8) (load32 m (src + 8)) m;
              m = store32 (dst + 12) (load32 m (src + 12)) m
          in copy_big (len - 16) (dst + 16) (src + 16) m
     else (len, dst, src, m))"

fun copy_words :: "nat \<Rightarrow> u32 \<Rightarrow> u32 \<Rightarrow> memory \<Rightarrow> nat \<times> u32 \<times> u32 \<times> memory" where
  "copy_words len dst src m =
    (if len \<ge> 4 then copy_words (len - 4) (dst + 4) (src + 4) (store32 dst (load32 m src) m)
     else (len, dst, src, m))"

fun copy_up :: "nat \<Rightarrow> u32 \<Rightarrow> u32 \<Rightarrow> memory \<Rightarrow> memory" where
  "copy_up 0 dst src m = m"
| "copy_up (Suc n) dst src m = copy_up n (dst + 1) (src + 1) (m(dst := m src))"

fun copy_down :: "nat \<Rightarrow> u32 \<Rightarrow> u32 \<Rightarrow> memory \<Rightarrow> memory" where
  "copy_down 0 tmp s m = m"
| "copy_down (Suc n) tmp s m = copy_down n (tmp - 1) (s - 1) (m(tmp - 1 := m (s - 1)))"

definition rt_memcpy :: "u32 \<Rightarrow> u32 \<Rightarrow> u32 \<Rightarrow> memory \<Rightarrow> memory" where
  "rt_memcpy dst src count m =
    (let (len, d, s, m) =
       (if \<not> unat count < 16 \<and> (src AND 3) OR (dst AND 3) = 0
        then let (len, d, s, m) = copy_big (unat count) dst src m in copy_words len d s m
        else (unat count, dst, src, m))
     in copy_up len d s m)"

definition rt_memmove :: "u32 \<Rightarrow> u32 \<Rightarrow> u32 \<Rightarrow> memory \<Rightarrow> memory" where
  "rt_memmove dest src n m =
    (if src < dest \<and> dest < src + n
     then copy_down (unat n) (dest + n) (src + n) m
     else copy_up (unat n) dest src m)"

fun memcmp_loop :: "nat \<Rightarrow> u32 \<Rightarrow> u32 \<Rightarrow> memory \<Rightarrow> int" where
  "memcmp_loop 0 su1 su2 m = 0"
| "memcmp_loop (Suc count) su1 su2 m =
    (let res = uint (m su1) - uint (m su2) in if res \<noteq> 0 then res else memcmp_loop count (su1 + 1) (su2 + 1) m)"

definition rt_memcmp :: "u32 \<Rightarrow> u32 \<Rightarrow> u32 \<Rightarrow> memory \<Rightarrow> int" where
  "rt_memcmp cs ct count m = memcmp_loop (unat count) cs ct m"

text \<open>A string without an end in memory keeps \<^verbatim>\<open>rt_strlen\<close> running: the value is then \<open>None\<close>.\<close>

partial_function (option) strlen_loop :: "u32 \<Rightarrow> memory \<Rightarrow> u32 option" where
  "strlen_loop sc m = (if m sc \<noteq> 0 then strlen_loop (sc + 1) m else Some sc)"

definition rt_strlen :: "u32 \<Rightarrow> memory \<Rightarrow> u32 option" where
  "rt_strlen s m = (case strlen_loop s m of None \<Rightarrow> None | Some sc \<Rightarrow> Some (sc - s))"

text \<open>The two lengths are signed integers in \<^verbatim>\<open>rt_strstr\<close>; the result 0 is the null pointer.\<close>

function strstr_loop :: "int \<Rightarrow> int \<Rightarrow> u32 \<Rightarrow> u32 \<Rightarrow> memory \<Rightarrow> u32" where
  "strstr_loop l1 l2 s1 s2 m =
    (if l1 \<ge> l2
     then if rt_memcmp s1 s2 (of_int l2) m = 0 then s1 else strstr_loop (l1 - 1) l2 (s1 + 1) s2 m
     else 0)"
  by pat_completeness auto
termination by (relation "measure (\<lambda>(l1, l2, _). nat (l1 - l2 + 1))") auto

definition rt_strstr :: "u32 \<Rightarrow> u32 \<Rightarrow> memory \<Rightarrow> u32 option" where
  "rt_strstr s1 s2 m =
    (case rt_strlen s2 m of
       None \<Rightarrow> None
     | Some l2 \<Rightarrow>
         if l2 = 0 then Some s1
         else case rt_strlen s1 m of
                None \<Rightarrow> None
              | Some l1 \<Rightarrow> Some (strstr_loop (sint l1) (sint l2) s1 s2 m))"

definition to_lower :: "int \<Rightarrow> int" where
  "to_lower c = (if c \<ge> 65 \<and> c \<le> 90 then c + (97 - 65) else c)"

partial_function (option) rt_strcasecmp :: "u32 \<Rightarrow> u32 \<Rightarrow> memory \<Rightarrow> u32 option" where
  "rt_strcasecmp a b m =
    (let ca = to_lower (uint (m a)); cb = to_lower (uint (m b))
     in if ca = cb \<and> ca \<noteq> 0 then rt_strcasecmp (a + 1) (b + 1) m else Some (of_int (ca - cb)))"

fun strncpy_loop :: "nat \<Rightarrow> u32 \<Rightarrow> u32 \<Rightarrow> memory \<Rightarrow> memory" where
  "strncpy_loop 0 d s m = m"
| "strncpy_loop (Suc n) d s m =
    (let c = m s; m = m(d := c)
     in if c = 0 then set_bytes 0 n (d + 1) m else strncpy_loop n (d + 1) (s + 1) m)"

definition rt_strncpy :: "u32 \<Rightarrow> u32 \<Rightarrow> u32 \<Rightarrow> memory \<Rightarrow> memory" where
  "rt_strncpy dst src n m = (if n \<noteq> 0 then strncpy_loop (unat n) dst src m else m)"

text \<open>The difference is kept in a signed byte, which is extended to the result.\<close>

fun strncmp_loop :: "nat \<Rightarrow> u8 \<Rightarrow> u32 \<Rightarrow> u32 \<Rightarrow> memory \<Rightarrow> u8" where
  "strncmp_loop 0 res cs ct m = res"
| "strncmp_loop (Suc count) res cs ct m =
    (let res = m cs - m ct in if res \<noteq> 0 \<or> m cs = 0 then res else strncmp_loop count res (cs + 1) (ct + 1) m)"

definition rt_strncmp :: "u32 \<Rightarrow> u32 \<Rightarrow> u32 \<Rightarrow> memory \<Rightarrow> u32" where
  "rt_strncmp cs ct count m = scast (strncmp_loop (unat count) 0 cs ct m)"

partial_function (option) rt_strcmp :: "u32 \<Rightarrow> u32 \<Rightarrow> memory \<Rightarrow> u32 option" where
  "rt_strcmp cs ct m =
    (if m cs \<noteq> 0 \<and> m cs = m ct then rt_strcmp (cs + 1) (ct + 1) m
     else Some (of_int (uint (m cs) - uint (m ct))))"


declare set_big.simps [simp del] set_words.simps [simp del] copy_big.simps [simp del] copy_words.simps [simp del]
  strstr_loop.simps [simp del]


section \<open>Regions of memory\<close>

definition fill :: "u32 \<Rightarrow> nat \<Rightarrow> u8 \<Rightarrow> memory \<Rightarrow> memory" where
  "fill s n v m = (\<lambda>a. if unat (a - s) < n then v else m a)"

definition blit :: "u32 \<Rightarrow> u32 \<Rightarrow> nat \<Rightarrow> memory \<Rightarrow> memory" where
  "blit dst src n m = (\<lambda>a. if unat (a - dst) < n then m (src + (a - dst)) else m a)"

lemma unat_diff_of_nat:
  "k < 2 ^ 32 \<Longrightarrow> unat (x - of_nat k :: u32) = (if k \<le> unat x then unat x - k else unat x + 2 ^ 32 - k)"
  by (simp add: unat_sub_if_size unat_of_nat take_bit_nat_eq_self word_size)

lemma region_split:
  assumes "k \<le> n" "n \<le> 2 ^ 32" "k < 2 ^ 32"
  shows "unat (x :: u32) < n \<longleftrightarrow> unat x < k \<or> unat (x - of_nat k) < n - k"
  using assms unsigned_less[of x, where 'a = nat] by (auto simp: unat_diff_of_nat)

lemma fill_split:
  assumes "k \<le> n" "n \<le> 2 ^ 32" "k < 2 ^ 32"
  shows "fill (s + of_nat k) (n - k) v (fill s k v m) = fill s n v m"
  using region_split[OF assms] by (auto simp: fill_def fun_eq_iff diff_diff_eq[symmetric])

lemma blit_split:
  assumes "k \<le> n" "k < 2 ^ 32" "unat (src - dst) + n \<le> 2 ^ 32"
  shows "blit (dst + of_nat k) (src + of_nat k) (n - k) (blit dst src k m) = blit dst src n m"
proof
  fix a
  define x where "x = a - dst"
  have a: "a - (dst + of_nat k) = x - of_nat k" "src + of_nat k + (x - of_nat k) = src + x"
    by (simp_all add: x_def)
  have "unat (src + x - dst) = unat (src - dst) + unat x" if "unat x < n"
  proof -
    define d where "d = src - dst"
    have eq: "src + x - dst = d + x" by (simp add: d_def)
    show ?thesis unfolding eq using that assms(3) by (simp add: d_def[symmetric] unat_word_ariths(1))
  qed
  then show "blit (dst + of_nat k) (src + of_nat k) (n - k) (blit dst src k m) a = blit dst src n m a"
    using region_split[of k n x] assms unat_diff_of_nat[of k x]
    by (auto simp: blit_def a x_def[symmetric])
qed

lemma region4: "unat (a - s :: u32) < 4 \<longleftrightarrow> a = s \<or> a = s + 1 \<or> a = s + 2 \<or> a = s + 3"
proof -
  have "unat x < 4 \<longleftrightarrow> x = 0 \<or> x = 1 \<or> x = 2 \<or> x = 3" for x :: u32
    by (auto simp: word_unat_eq_iff)
  from this[of "a - s"] show ?thesis by (simp add: diff_eq_eq add.commute)
qed

lemma store32_fill:
  assumes "b = c AND 0xff" "w = push_bit 8 b OR b"
  shows "store32 a (w OR push_bit 16 w) m = fill a 4 (ucast c) m"
proof -
  have "ucast (drop_bit n (w OR push_bit 16 w)) = (ucast c :: u8)" if "n = 0 \<or> n = 8 \<or> n = 16 \<or> n = 24" for n
    using that unfolding assms by (auto intro!: bit_word_eqI simp: bit_simps bit_low_masks)
  from this[of 0] this[of 8] this[of 16] this[of 24] show ?thesis
    by (auto simp: store32_def fill_def region4 fun_eq_iff)
qed

lemma store32_blit: "store32 dst (load32 m src) m = blit dst src 4 m"
proof -
  have high: "\<not> bit (x :: u8) (8 + n)" "\<not> bit (x :: u8) (16 + n)" "\<not> bit (x :: u8) (24 + n)" for x n
    using bit_imp_le_length[of x "8 + n"] bit_imp_le_length[of x "16 + n"] bit_imp_le_length[of x "24 + n"]
    by auto
  have "ucast (load32 m src) = m src" "ucast (drop_bit 8 (load32 m src)) = m (src + 1)"
    "ucast (drop_bit 16 (load32 m src)) = m (src + 2)" "ucast (drop_bit 24 (load32 m src)) = m (src + 3)"
    unfolding load32_def by (auto intro!: bit_word_eqI simp: bit_simps high)
  then show ?thesis by (auto simp: store32_def blit_def region4 fun_eq_iff)
qed

lemma set_bytes_fill: "n \<le> 2 ^ 32 \<Longrightarrow> set_bytes d n a m = fill a n d m"
proof (induction n arbitrary: a m)
  case (Suc n)
  have "fill a 1 d m = m(a := d)"
    by (rule ext) (simp add: fill_def unat_eq_0)
  then have "set_bytes d (Suc n) a m = set_bytes d n (a + 1) (fill a 1 d m)" by (simp only: set_bytes.simps)
  also have "\<dots> = fill (a + 1) n d (fill a 1 d m)" using Suc.prems by (intro Suc.IH) simp
  also have "\<dots> = fill a (Suc n) d m" using Suc.prems fill_split[of 1 "Suc n" a d m] by simp
  finally show ?case .
qed (simp add: fill_def)

lemma set_words_fill:
  assumes "n \<le> 2 ^ 32" "b = c AND 0xff" "w = push_bit 8 b OR b" "set_words (w OR push_bit 16 w) n a m = (n', a', m')"
  shows "set_bytes (ucast c) n' a' m' = fill a n (ucast c) m"
  using assms
proof (induction n arbitrary: a m rule: less_induct)
  case (less n)
  show ?case
  proof (cases "4 \<le> n")
    case True
    then have "set_bytes (ucast c) n' a' m' = fill (a + 4) (n - 4) (ucast c) (fill a 4 (ucast c) m)"
      using less store32_fill[OF less.prems(2,3)] by (simp add: set_words.simps[of _ n])
    then show ?thesis using fill_split[of 4 n a "ucast c" m] True less.prems(1) by simp
  next
    case False
    then show ?thesis using less.prems by (simp add: set_words.simps[of _ n] set_bytes_fill)
  qed
qed


lemma set_big_fill:
  assumes "n \<le> 2 ^ 32" "b = c AND 0xff" "w = push_bit 8 b OR b"
    and "set_big (w OR push_bit 16 w) n a m = (n1, a1, m1)" "set_words (w OR push_bit 16 w) n1 a1 m1 = (n', a', m')"
  shows "set_bytes (ucast c) n' a' m' = fill a n (ucast c) m"
  using assms
proof (induction n arbitrary: a m rule: less_induct)
  case (less n)
  show ?case
  proof (cases "16 \<le> n")
    case True
    let ?v = "ucast c :: u8"
    have "fill (a + 12) 4 ?v (fill (a + 8) 4 ?v (fill (a + 4) 4 ?v (fill a 4 ?v m))) = fill a 16 ?v m"
      using fill_split[of 4 8 a ?v m] fill_split[of 8 12 a ?v m] fill_split[of 12 16 a ?v m] by simp
    then have "set_bytes ?v n' a' m' = fill (a + 16) (n - 16) ?v (fill a 16 ?v m)"
      using True less store32_fill[OF less.prems(2,3)] by (simp add: set_big.simps[of _ n])
    then show ?thesis using fill_split[of 16 n a ?v m] True less.prems(1) by simp
  next
    case False
    then show ?thesis
      using less.prems set_words_fill[OF less.prems(1-3)] by (simp add: set_big.simps[of _ n])
  qed
qed

lemma copy_up_blit:
  "unat (src - dst) + n \<le> 2 ^ 32 \<Longrightarrow> copy_up n dst src m = blit dst src n m"
proof (induction n arbitrary: dst src m)
  case (Suc n)
  have "blit dst src 1 m = m(dst := m src)"
    by (rule ext) (simp add: blit_def unat_eq_0)
  then have "copy_up (Suc n) dst src m = copy_up n (dst + 1) (src + 1) (blit dst src 1 m)"
    by (simp only: copy_up.simps)
  also have "\<dots> = blit (dst + 1) (src + 1) n (blit dst src 1 m)" using Suc.prems by (intro Suc.IH) simp
  also have "\<dots> = blit dst src (Suc n) m" using Suc.prems blit_split[of 1 "Suc n" src dst m] by simp
  finally show ?case .
qed (simp add: blit_def)

lemma copy_words_blit:
  assumes "unat (src - dst) + n \<le> 2 ^ 32" "copy_words n dst src m = (n', d', s', m')"
  shows "copy_up n' d' s' m' = blit dst src n m"
  using assms
proof (induction n arbitrary: dst src m rule: less_induct)
  case (less n)
  show ?case
  proof (cases "4 \<le> n")
    case True
    then have "copy_up n' d' s' m' = blit (dst + 4) (src + 4) (n - 4) (blit dst src 4 m)"
      using less by (simp add: copy_words.simps[of n] store32_blit)
    then show ?thesis using blit_split[of 4 n src dst m] True less.prems(1) by simp
  next
    case False
    then show ?thesis using less.prems by (simp add: copy_words.simps[of n] copy_up_blit)
  qed
qed

lemma copy_big_blit:
  assumes "unat (src - dst) + n \<le> 2 ^ 32" "copy_big n dst src m = (n1, d1, s1, m1)"
    and "copy_words n1 d1 s1 m1 = (n', d', s', m')"
  shows "copy_up n' d' s' m' = blit dst src n m"
  using assms
proof (induction n arbitrary: dst src m rule: less_induct)
  case (less n)
  show ?case
  proof (cases "16 \<le> n")
    case True
    have "blit (dst + 12) (src + 12) 4 (blit (dst + 8) (src + 8) 4 (blit (dst + 4) (src + 4) 4 (blit dst src 4 m)))
        = blit dst src 16 m"
      using blit_split[of 4 8 src dst m] blit_split[of 8 12 src dst m] blit_split[of 12 16 src dst m]
        True less.prems(1) by simp
    then have "copy_up n' d' s' m' = blit (dst + 16) (src + 16) (n - 16) (blit dst src 16 m)"
      using True less by (simp add: copy_big.simps[of n] store32_blit Let_def)
    then show ?thesis using blit_split[of 16 n src dst m] True less.prems(1) by simp
  next
    case False
    then show ?thesis using less.prems copy_words_blit by (simp add: copy_big.simps[of n])
  qed
qed

lemma copy_down_blit:
  "unat (dst - src) + n \<le> 2 ^ 32 \<Longrightarrow> copy_down n (dst + of_nat n) (src + of_nat n) m = blit dst src n m"
proof (induction n arbitrary: m)
  case (Suc n)
  define m' where "m' = m(dst + of_nat n := m (src + of_nat n))"
  have n: "unat (of_nat n :: u32) = n" using Suc.prems by (simp add: unat_of_nat take_bit_nat_eq_self)
  have read: "src + x \<noteq> dst + of_nat n" if "unat x < n" for x
  proof
    assume "src + x = dst + of_nat n"
    then have "x = (dst - src) + of_nat n" by (simp add: algebra_simps)
    moreover define d where "d = dst - src"
    ultimately have "unat x = unat d + n" using Suc.prems n by (simp add: unat_word_ariths(1))
    then show False using that by simp
  qed
  have last: "unat (a - dst) = n \<longleftrightarrow> a = dst + of_nat n" for a
    using n word_unat_eq_iff[of "a - dst" "of_nat n"] by (auto simp: diff_eq_eq add.commute)
  have "copy_down (Suc n) (dst + of_nat (Suc n)) (src + of_nat (Suc n)) m =
      copy_down n (dst + of_nat n) (src + of_nat n) m'"
    by (simp add: m'_def add.commute[of 1] add.assoc[symmetric])
  also have "\<dots> = blit dst src n m'" using Suc.prems by (intro Suc.IH) simp
  also have "\<dots> = blit dst src (Suc n) m"
    by (rule ext) (use read last in \<open>auto simp: blit_def m'_def less_Suc_eq\<close>)
  finally show ?case .
qed (simp add: blit_def)

lemma rt_memset_fill: "rt_memset s c n m = fill s (unat n) (ucast c) m"
proof -
  have n: "unat n \<le> 2 ^ 32" using unsigned_less[of n, where 'a = nat] by simp
  have "ucast (c AND 0xff) = (ucast c :: u8)" by (intro bit_word_eqI) (auto simp: bit_simps bit_low_masks)
  then show ?thesis
    using set_bytes_fill[OF n] set_big_fill[OF n refl refl]
    by (auto simp: rt_memset_def Let_def split: prod.splits)
qed

lemma rt_memcpy_blit:
  "unat (src - dst) + unat n \<le> 2 ^ 32 \<Longrightarrow> rt_memcpy dst src n m = blit dst src (unat n) m"
  using copy_up_blit copy_big_blit by (auto simp: rt_memcpy_def Let_def split: prod.splits)

lemma rt_memmove_blit:
  assumes range: "unat src + unat n < 2 ^ 32" "unat dst + unat n \<le> 2 ^ 32"
  shows "rt_memmove dst src n m = blit dst src (unat n) m"
proof (cases "src < dst \<and> dst < src + n")
  case True
  then have "unat (dst - src) + unat n \<le> 2 ^ 32"
    using range by (auto simp: word_less_nat_alt unat_sub_if_size word_size)
  then show ?thesis using True copy_down_blit[of dst src "unat n" m] by (simp add: rt_memmove_def)
next
  case False
  have "unat (src + n) = unat src + unat n" using range by (simp add: unat_word_ariths(1))
  with False have "unat (src - dst) + unat n \<le> 2 ^ 32"
    using range by (auto simp: word_less_nat_alt unat_sub_if_size word_size)
  then show ?thesis using False copy_up_blit by (auto simp: rt_memmove_def)
qed


section \<open>Strings\<close>

text \<open>The string \<open>xs\<close>, without its end mark, stands at \<open>a\<close>.\<close>

primrec string_at :: "memory \<Rightarrow> u32 \<Rightarrow> u8 list \<Rightarrow> bool" where
  "string_at m a [] \<longleftrightarrow> m a = 0"
| "string_at m a (x # xs) \<longleftrightarrow> x \<noteq> 0 \<and> m a = x \<and> string_at m (a + 1) xs"

lemma strlen_loop_end: "string_at m a xs \<Longrightarrow> strlen_loop a m = Some (a + of_nat (length xs))"
proof (induction xs arbitrary: a)
  case (Cons x xs)
  then show ?case using Cons.IH[of "a + 1"] by (simp add: strlen_loop.simps[of a] add.assoc)
qed (simp add: strlen_loop.simps)

lemma string_at_drop: "string_at m a xs \<Longrightarrow> k \<le> length xs \<Longrightarrow> string_at m (a + of_nat k) (drop k xs)"
proof (induction xs arbitrary: a k)
  case (Cons x xs)
  then show ?case using Cons.IH[of "a + 1" "k - 1"] by (cases k) (auto simp: add.assoc)
qed simp

lemma memcmp_prefix:
  assumes "string_at m a xs" "string_at m b ys"
  shows "memcmp_loop (length ys) a b m = 0 \<longleftrightarrow> (\<exists>zs. xs = ys @ zs)"
  using assms
proof (induction ys arbitrary: a b xs)
  case (Cons y ys)
  show ?case
  proof (cases xs)
    case Nil
    then show ?thesis using Cons.prems by (auto simp: Let_def word_uint_eq_iff)
  next
    case (Cons x zs)
    then show ?thesis
      using Cons.IH[of "a + 1" zs "b + 1"] \<open>string_at m a xs\<close> \<open>string_at m b (y # ys)\<close>
      by (auto simp: Let_def word_uint_eq_iff)
  qed
qed simp


lemma strlen_exact: "string_at m a xs \<Longrightarrow> rt_strlen a m = Some (of_nat (length xs))"
  by (simp add: rt_strlen_def strlen_loop_end)

lemma strstr_loop_first:
  assumes "string_at m a xs" "string_at m b ys" "ys \<noteq> []" "length ys < 2 ^ 32" "r = strstr_loop (int (length xs)) (int (length ys)) a b m"
  shows "(\<exists>k. r = a + of_nat k \<and> prefix ys (drop k xs) \<and> (\<forall>j < k. \<not> prefix ys (drop j xs))) \<or>
    (r = 0 \<and> (\<forall>k. \<not> prefix ys (drop k xs)))"
  using assms(1,5)
proof (induction xs arbitrary: a)
  case Nil
  then show ?case using assms(3) by (simp add: strstr_loop.simps)
next
  case (Cons x xs)
  have len: "unat (of_int (int (length ys)) :: u32) = length ys"
    using assms(4) by (simp add: unat_of_nat take_bit_nat_eq_self)
  consider "length (x # xs) < length ys" | "length ys \<le> length (x # xs)" "prefix ys (x # xs)"
    | "length ys \<le> length (x # xs)" "\<not> prefix ys (x # xs)" by linarith
  then show ?case
  proof cases
    case 1
    then have "\<not> prefix ys (drop k (x # xs))" for k
      using prefix_length_le[of ys "drop k (x # xs)"] by auto
    then show ?thesis using 1 Cons.prems(2) by (simp add: strstr_loop.simps)
  next
    case 2
    then have "r = a"
      using Cons.prems assms(2) len memcmp_prefix[OF Cons.prems(1) assms(2)]
      by (simp add: strstr_loop.simps[of "1 + int (length xs)"] rt_memcmp_def prefix_def)
    then show ?thesis using 2 by (intro disjI1 exI[of _ 0]) simp
  next
    case 3
    then have r: "r = strstr_loop (int (length xs)) (int (length ys)) (a + 1) b m"
      using Cons.prems assms(2) len memcmp_prefix[OF Cons.prems(1) assms(2)]
      by (simp add: strstr_loop.simps[of "1 + int (length xs)"] rt_memcmp_def prefix_def)
    from Cons.prems(1) Cons.IH[OF _ r] consider k where "r = a + 1 + of_nat k" "prefix ys (drop k xs)" "\<forall>j < k. \<not> prefix ys (drop j xs)"
      | "r = 0" "\<forall>k. \<not> prefix ys (drop k xs)" by auto
    then show ?thesis
    proof cases
      case 1
      then have "\<forall>j < Suc k. \<not> prefix ys (drop j (x # xs))" using 3(2) by (auto simp: less_Suc_eq_0_disj)
      then show ?thesis using 1 by (intro disjI1 exI[of _ "Suc k"]) (simp add: add.assoc)
    next
      case 2
      then have "\<not> prefix ys (drop k (x # xs))" for k using 3(2) by (cases k) auto
      then show ?thesis using 2 by simp
    qed
  qed
qed

lemma byte_difference: "(of_int (uint x - uint y) :: u32) = 0 \<longleftrightarrow> x = y" for x y :: u8
proof
  assume "(of_int (uint x - uint y) :: u32) = 0"
  then have "(4294967296 :: int) dvd uint x - uint y" by (simp add: word_of_int_eq_0_iff del: of_int_diff)
  moreover have "0 \<le> uint z \<and> uint z < 256" for z :: u8 using uint_bounded[of z] by simp
  from this[of x] this[of y] have "\<bar>uint x - uint y\<bar> < 256" by linarith
  ultimately have "uint x - uint y = 0" using zdvd_imp_le[of 4294967296 "\<bar>uint x - uint y\<bar>"] by auto
  then show "x = y" by (simp add: word_uint_eq_iff)
qed simp

lemma strcmp_equal:
  assumes "string_at m a xs" "string_at m b ys"
  shows "\<exists>r. rt_strcmp a b m = Some r \<and> (r = 0 \<longleftrightarrow> xs = ys)"
  using assms
proof (induction xs arbitrary: a b ys)
  case Nil
  then show ?case using byte_difference[of "m a" "m b"] by (cases ys) (auto simp: rt_strcmp.simps[of a b])
next
  case (Cons x xs)
  show ?case
  proof (cases "\<exists>zs. ys = x # zs")
    case True
    then show ?thesis using Cons by (auto simp: rt_strcmp.simps[of a b])
  next
    case False
    then have "m b \<noteq> x" using Cons.prems by (cases ys) auto
    then show ?thesis using Cons.prems False byte_difference[of x "m b"] by (auto simp: rt_strcmp.simps[of a b])
  qed
qed


lemma strncmp_equal:
  assumes "string_at m a xs" "string_at m b ys"
  shows "strncmp_loop n 0 a b m = 0 \<longleftrightarrow> take n xs = take n ys"
  using assms
proof (induction n arbitrary: a b xs ys)
  case (Suc n)
  then show ?case
    by (cases xs; cases ys) (auto simp: Let_def)
qed simp


section \<open>Properties\<close>

text \<open>C31: The word-wise memory routines do what byte loops would: \<^verbatim>\<open>rt_memset\<close> sets exactly the bytes of
  its range, \<^verbatim>\<open>rt_memcpy\<close> moves the old bytes of the source to the destination when the destination
  does not start inside the source, and \<^verbatim>\<open>rt_memmove\<close> for every overlap of two ranges that stay
  inside the address space; all other bytes keep their values.\<close>

theorem memory_routines_exact:
  "rt_memset s c n m = (\<lambda>a. if unat (a - s) < unat n then ucast c else m a) \<and>
   (unat (src - dst) + unat n \<le> 2 ^ 32 \<longrightarrow>
     rt_memcpy dst src n m = (\<lambda>a. if unat (a - dst) < unat n then m (src + (a - dst)) else m a)) \<and>
   (unat src + unat n < 2 ^ 32 \<and> unat dst + unat n \<le> 2 ^ 32 \<longrightarrow>
     rt_memmove dst src n m = (\<lambda>a. if unat (a - dst) < unat n then m (src + (a - dst)) else m a))"
  using rt_memset_fill rt_memcpy_blit rt_memmove_blit by (auto simp: fill_def blit_def)

theorem memory_routines_exact_witness:
  "rt_memset 0x100 7 20 (\<lambda>a. 0) 0x113 = 7 \<and> rt_memcpy 0x200 0x100 20 ucast 0x213 = 0x13 \<and>
   rt_memmove 0x102 0x100 4 ucast 0x105 = 3"
  using memory_routines_exact[of "0x100" 7 20 "\<lambda>a. 0"] memory_routines_exact[of 0 0 20 ucast "0x100" "0x200"]
    memory_routines_exact[of 0 0 4 ucast "0x100" "0x102"]
  by simp


text \<open>C32: On strings that end in memory the string routines return and are exact: the length is that of
  the string, two strings compare equal exactly when they are, also on their first \<open>n\<close> characters,
  and the search gives the first occurrence of the pattern or the null pointer when there is none.\<close>

theorem string_routines_exact:
  assumes "string_at m a xs" "string_at m b ys" "length xs < 2 ^ 31" "length ys < 2 ^ 31"
  shows "rt_strlen a m = Some (of_nat (length xs)) \<and>
    (\<exists>r. rt_strcmp a b m = Some r \<and> (r = 0 \<longleftrightarrow> xs = ys)) \<and>
    (rt_strncmp a b n m = 0 \<longleftrightarrow> take (unat n) xs = take (unat n) ys) \<and>
    (\<exists>r. rt_strstr a b m = Some r \<and>
      ((\<exists>k. r = a + of_nat k \<and> prefix ys (drop k xs) \<and> (\<forall>j < k. \<not> prefix ys (drop j xs))) \<or>
       (r = 0 \<and> (\<forall>k. \<not> prefix ys (drop k xs)))))"
proof (intro conjI)
  show "rt_strlen a m = Some (of_nat (length xs))" by (rule strlen_exact[OF assms(1)])
  show "\<exists>r. rt_strcmp a b m = Some r \<and> (r = 0 \<longleftrightarrow> xs = ys)" by (rule strcmp_equal[OF assms(1,2)])
  have "x = 0" if "scast (x :: u8) = (0 :: u32)" for x
  proof (rule bit_word_eqI)
    fix k
    assume "k < LENGTH(8)"
    then show "bit x k = bit 0 k" using arg_cong[OF that, of "\<lambda>w. bit w k"] by (simp add: bit_simps)
  qed
  then show "rt_strncmp a b n m = 0 \<longleftrightarrow> take (unat n) xs = take (unat n) ys"
    using strncmp_equal[OF assms(1,2), of "unat n"] by (auto simp: rt_strncmp_def)
  have len: "sint (of_nat (length zs) :: u32) = int (length zs)" if "length zs < 2 ^ 31" for zs :: "u8 list"
    using that by (simp add: sint_u32 uint_nat unat_of_nat take_bit_nat_eq_self)
  have null: "(of_nat (length ys) :: u32) = 0 \<longleftrightarrow> ys = []"
    using assms(4) by (simp add: word_unat_eq_iff unat_of_nat take_bit_nat_eq_self)
  show "\<exists>r. rt_strstr a b m = Some r \<and>
      ((\<exists>k. r = a + of_nat k \<and> prefix ys (drop k xs) \<and> (\<forall>j < k. \<not> prefix ys (drop j xs))) \<or>
       (r = 0 \<and> (\<forall>k. \<not> prefix ys (drop k xs))))"
  proof (cases "ys = []")
    case True
    then show ?thesis
      by (intro exI[of _ a]) (auto simp: rt_strstr_def strlen_exact[OF assms(2)] intro!: exI[of _ 0])
  next
    case False
    then have "rt_strstr a b m = Some (strstr_loop (int (length xs)) (int (length ys)) a b m)"
      using null by (simp add: rt_strstr_def strlen_exact[OF assms(1)] strlen_exact[OF assms(2)]
          len[OF assms(3)] len[OF assms(4)])
    then show ?thesis using strstr_loop_first[OF assms(1,2) False _ refl] assms(4) by auto
  qed
qed

theorem string_routines_exact_witness:
  "rt_strlen 0 (\<lambda>a. if a < 5 then 5 - ucast a else 0) = Some 5 \<and>
   rt_strncmp 0 3 1 (\<lambda>a. if a < 5 then 5 - ucast a else 0) \<noteq> 0 \<and>
   rt_strstr 0 3 (\<lambda>a. if a < 5 then 5 - ucast a else 0) = Some 3"
proof -
  let ?m = "\<lambda>a :: u32. if a < 5 then 5 - ucast a else (0 :: u8)"
  have s: "string_at ?m 0 [5, 4, 3, 2, 1]" "string_at ?m 3 [2, 1]" by simp_all
  have "prefix [2, 1] (drop k [5, 4, 3, 2, 1 :: u8]) \<longleftrightarrow> k = 3" for k
  proof (cases "k < 5")
    case True
    then have "k = 0 \<or> k = 1 \<or> k = 2 \<or> k = 3 \<or> k = 4" by auto
    then show ?thesis by (elim disjE) (simp_all)
  qed simp
  then show ?thesis using string_routines_exact[OF s, of 1] by auto
qed

end
