(* ===== verification/Mem.thy ===== *)
theory Mem
  imports KString
begin

text \<open>
  The system heap \<^verbatim>\<open>src/mem.c\<close>: blocks in address order, each behind a header with the offsets of
  its neighbours, allocated first fit from the lowest free block and merged when they are freed.
  Offsets and sizes are natural numbers below \<open>2 ^ 32\<close>, with the wrap-around of the C subtraction
  written out where a guard does not exclude it.  The headers are a map from offsets; the bytes of
  the blocks are a memory of their own, so that a header is never inside a block in use, which is
  what the disjointness of the blocks shows.  The semaphore \<^verbatim>\<open>heap_sem\<close> makes every operation
  exclusive: one operation is one step.
\<close>


section \<open>State\<close>

record heap_mem =
  hm_magic :: u16
  hm_used :: u16
  hm_next :: nat
  hm_prev :: nat

record heap =
  heap_ptr :: nat
  heap_end :: nat
  lfree :: nat
  mem_size_aligned :: nat
  used_mem :: nat
  max_mem :: nat
  heads :: "nat \<Rightarrow> heap_mem"
  heap_bytes :: memory

abbreviation (input) HEAP_MAGIC :: u16 where "HEAP_MAGIC \<equiv> 0x1ea0"
abbreviation (input) MIN_SIZE :: nat where "MIN_SIZE \<equiv> 12"
abbreviation (input) MIN_SIZE_ALIGNED :: nat where "MIN_SIZE_ALIGNED \<equiv> 16"
abbreviation (input) SIZEOF_STRUCT_MEM :: nat where "SIZEOF_STRUCT_MEM \<equiv> 16"

definition sub32 :: "nat \<Rightarrow> nat \<Rightarrow> nat" where
  "sub32 a b = (a + 2 ^ 32 - b) mod 2 ^ 32"

definition RT_ALIGN_DOWN :: "u32 \<Rightarrow> u32 \<Rightarrow> u32" where
  "RT_ALIGN_DOWN n align = n AND NOT (align - 1)"

definition upd_head :: "nat \<Rightarrow> (heap_mem \<Rightarrow> heap_mem) \<Rightarrow> heap \<Rightarrow> heap" where
  "upd_head a f h = h\<lparr>heads := (heads h)(a := f (heads h a))\<rparr>"


section \<open>Operations\<close>

definition plug_holes :: "nat \<Rightarrow> heap \<Rightarrow> heap" where
  "plug_holes m h =
    (let nmem = hm_next (heads h m);
         h = (if m \<noteq> nmem \<and> hm_used (heads h nmem) = 0 \<and> nmem \<noteq> heap_end h
              then let h = (if lfree h = nmem then h\<lparr>lfree := m\<rparr> else h);
                       h = upd_head m (\<lambda>x. x\<lparr>hm_next := hm_next (heads h nmem)\<rparr>) h
                   in upd_head (hm_next (heads h nmem)) (\<lambda>x. x\<lparr>hm_prev := m\<rparr>) h
              else h);
         pmem = hm_prev (heads h m)
     in if pmem \<noteq> m \<and> hm_used (heads h pmem) = 0
        then let h = (if lfree h = m then h\<lparr>lfree := pmem\<rparr> else h);
                 h = upd_head pmem (\<lambda>x. x\<lparr>hm_next := hm_next (heads h m)\<rparr>) h
             in upd_head (hm_next (heads h m)) (\<lambda>x. x\<lparr>hm_prev := pmem\<rparr>) h
        else h)"

definition rt_system_heap_init :: "u32 \<Rightarrow> u32 \<Rightarrow> heap \<Rightarrow> heap" where
  "rt_system_heap_init begin_addr end_addr h =
    (let begin_align = unat (RT_ALIGN begin_addr RT_ALIGN_SIZE);
         end_align = unat (RT_ALIGN_DOWN end_addr RT_ALIGN_SIZE)
     in if end_align > 2 * SIZEOF_STRUCT_MEM \<and> end_align - 2 * SIZEOF_STRUCT_MEM \<ge> begin_align
        then let size = end_align - begin_align - 2 * SIZEOF_STRUCT_MEM;
                 h = h\<lparr>mem_size_aligned := size, heap_ptr := begin_align\<rparr>;
                 h = upd_head 0 (\<lambda>x. \<lparr>hm_magic = HEAP_MAGIC, hm_used = 0,
                       hm_next = size + SIZEOF_STRUCT_MEM, hm_prev = 0\<rparr>) h;
                 h = h\<lparr>heap_end := hm_next (heads h 0)\<rparr>;
                 h = upd_head (heap_end h) (\<lambda>x. \<lparr>hm_magic = HEAP_MAGIC, hm_used = 1,
                       hm_next = size + SIZEOF_STRUCT_MEM, hm_prev = size + SIZEOF_STRUCT_MEM\<rparr>) h
             in h\<lparr>lfree := 0\<rparr>
        else h)"

text \<open>The search of \<^verbatim>\<open>rt_malloc\<close>, and the advance of the lowest free block after it.\<close>

definition fits :: "nat \<Rightarrow> heap \<Rightarrow> nat \<Rightarrow> bool" where
  "fits sz h ptr \<longleftrightarrow>
    hm_used (heads h ptr) = 0 \<and> sub32 (hm_next (heads h ptr)) (ptr + SIZEOF_STRUCT_MEM) \<ge> sz"

partial_function (option) malloc_find :: "nat \<Rightarrow> heap \<Rightarrow> nat \<Rightarrow> nat option option" where
  "malloc_find sz h ptr =
    (if ptr < sub32 (mem_size_aligned h) sz
     then if fits sz h ptr then Some (Some ptr) else malloc_find sz h (hm_next (heads h ptr))
     else Some None)"

partial_function (option) next_free :: "heap \<Rightarrow> nat \<Rightarrow> nat option" where
  "next_free h a =
    (if hm_used (heads h a) \<noteq> 0 \<and> a \<noteq> heap_end h then next_free h (hm_next (heads h a)) else Some a)"

definition count_used :: "nat \<Rightarrow> heap \<Rightarrow> heap" where
  "count_used n h =
    (let h = h\<lparr>used_mem := used_mem h + n\<rparr>
     in if max_mem h < used_mem h then h\<lparr>max_mem := used_mem h\<rparr> else h)"

definition malloc_take :: "nat \<Rightarrow> nat \<Rightarrow> heap \<Rightarrow> heap" where
  "malloc_take sz ptr h =
    (if sub32 (hm_next (heads h ptr)) (ptr + SIZEOF_STRUCT_MEM) \<ge> sz + SIZEOF_STRUCT_MEM + MIN_SIZE_ALIGNED
     then let ptr2 = ptr + SIZEOF_STRUCT_MEM + sz;
              nxt = hm_next (heads h ptr);
              h = upd_head ptr2 (\<lambda>x. x\<lparr>hm_used := 0, hm_next := nxt, hm_prev := ptr\<rparr>) h;
              h = upd_head ptr (\<lambda>x. x\<lparr>hm_next := ptr2, hm_used := 1\<rparr>) h;
              h = (if nxt \<noteq> mem_size_aligned h + SIZEOF_STRUCT_MEM
                   then upd_head nxt (\<lambda>x. x\<lparr>hm_prev := ptr2\<rparr>) h else h)
          in count_used (sz + SIZEOF_STRUCT_MEM) h
     else let h = upd_head ptr (\<lambda>x. x\<lparr>hm_used := 1\<rparr>) h
          in count_used (sub32 (hm_next (heads h ptr)) ptr) h)"

definition rt_malloc :: "u32 \<Rightarrow> heap \<Rightarrow> (nat option \<times> heap) option" where
  "rt_malloc req h =
    (if req = 0 then Some (None, h)
     else
       let size = unat (RT_ALIGN req RT_ALIGN_SIZE)
       in if size > mem_size_aligned h then Some (None, h)
          else
            let size = (if size < MIN_SIZE_ALIGNED then MIN_SIZE_ALIGNED else size)
            in case malloc_find size h (lfree h) of
                 None \<Rightarrow> None
               | Some None \<Rightarrow> Some (None, h)
               | Some (Some ptr) \<Rightarrow>
                   let h = malloc_take size ptr h;
                       h = upd_head ptr (\<lambda>x. x\<lparr>hm_magic := HEAP_MAGIC\<rparr>) h;
                       r = Some (heap_ptr h + ptr + SIZEOF_STRUCT_MEM)
                   in if ptr = lfree h
                      then case next_free h (lfree h) of
                             None \<Rightarrow> None
                           | Some f \<Rightarrow> Some (r, h\<lparr>lfree := f\<rparr>)
                      else Some (r, h))"

text \<open>An address outside the heap is refused; \<open>header_of\<close> is the offset of the header before it.\<close>

definition in_heap :: "nat \<Rightarrow> heap \<Rightarrow> bool" where
  "in_heap rmem h \<longleftrightarrow> \<not> (rmem < heap_ptr h \<or> rmem \<ge> heap_ptr h + heap_end h)"

definition header_of :: "nat \<Rightarrow> heap \<Rightarrow> nat" where
  "header_of rmem h = sub32 (rmem - heap_ptr h) SIZEOF_STRUCT_MEM"

definition rt_free :: "nat option \<Rightarrow> heap \<Rightarrow> heap" where
  "rt_free rmem h =
    (case rmem of
       None \<Rightarrow> h
     | Some p \<Rightarrow>
         if \<not> in_heap p h then h
         else
           let m = header_of p h;
               h = upd_head m (\<lambda>x. x\<lparr>hm_used := 0, hm_magic := 0\<rparr>) h;
               h = (if p < heap_ptr h + lfree h + SIZEOF_STRUCT_MEM then h\<lparr>lfree := m\<rparr> else h);
               h = h\<lparr>used_mem := sub32 (used_mem h) (sub32 (hm_next (heads h m)) m)\<rparr>
           in plug_holes m h)"

definition realloc_split :: "nat \<Rightarrow> nat \<Rightarrow> nat \<Rightarrow> heap \<Rightarrow> heap" where
  "realloc_split ptr sz newsize h =
    (let h = h\<lparr>used_mem := sub32 (used_mem h) (sz - newsize)\<rparr>;
         ptr2 = ptr + SIZEOF_STRUCT_MEM + newsize;
         nxt = hm_next (heads h ptr);
         h = upd_head ptr2 (\<lambda>x. \<lparr>hm_magic = HEAP_MAGIC, hm_used = 0, hm_next = nxt, hm_prev = ptr\<rparr>) h;
         h = upd_head ptr (\<lambda>x. x\<lparr>hm_next := ptr2\<rparr>) h;
         h = (if nxt \<noteq> mem_size_aligned h + SIZEOF_STRUCT_MEM
              then upd_head nxt (\<lambda>x. x\<lparr>hm_prev := ptr2\<rparr>) h else h)
     in plug_holes ptr2 h)"

definition rt_realloc :: "nat option \<Rightarrow> u32 \<Rightarrow> heap \<Rightarrow> (nat option \<times> heap) option" where
  "rt_realloc rmem req h =
    (let newsize = unat (RT_ALIGN req RT_ALIGN_SIZE)
     in if newsize > mem_size_aligned h then Some (None, h)
        else
          case rmem of
            None \<Rightarrow> rt_malloc (of_nat newsize) h
          | Some p \<Rightarrow>
              if \<not> in_heap p h then Some (rmem, h)
              else
                let ptr = header_of p h;
                    size = sub32 (sub32 (hm_next (heads h ptr)) ptr) SIZEOF_STRUCT_MEM
                in if size = newsize then Some (rmem, h)
                   else if newsize + SIZEOF_STRUCT_MEM + MIN_SIZE < size
                   then Some (rmem, realloc_split ptr size newsize h)
                   else
                     case rt_malloc (of_nat newsize) h of
                       None \<Rightarrow> None
                     | Some (None, h) \<Rightarrow> Some (None, h)
                     | Some (Some q, h) \<Rightarrow>
                         let n = (if size < newsize then size else newsize);
                             h = h\<lparr>heap_bytes := rt_memcpy (of_nat q) (of_nat p) (of_nat n) (heap_bytes h)\<rparr>
                         in Some (Some q, rt_free rmem h))"

definition rt_calloc :: "u32 \<Rightarrow> u32 \<Rightarrow> heap \<Rightarrow> (nat option \<times> heap) option" where
  "rt_calloc count sz h =
    (case rt_malloc (count * sz) h of
       None \<Rightarrow> None
     | Some (None, h) \<Rightarrow> Some (None, h)
     | Some (Some p, h) \<Rightarrow>
         Some (Some p, h\<lparr>heap_bytes := rt_memset (of_nat p) 0 (count * sz) (heap_bytes h)\<rparr>))"

definition rt_memory_info :: "heap \<Rightarrow> nat \<times> nat \<times> nat" where
  "rt_memory_info h = (mem_size_aligned h, used_mem h, max_mem h)"


section \<open>Well-formed heaps\<close>

text \<open>
  The offsets of the headers: from 0 to the end mark \<open>e\<close>, each followed by the next one at a
  distance of at least a header, with correct links back except at the end mark.
\<close>

definition block_chain :: "nat set \<Rightarrow> nat \<Rightarrow> (nat \<Rightarrow> nat) \<Rightarrow> (nat \<Rightarrow> nat) \<Rightarrow> bool" where
  "block_chain B e nx pv \<longleftrightarrow>
    finite B \<and> 0 \<in> B \<and> e \<in> B \<and> (\<forall>a \<in> B. (a = e \<or> a + 16 < e) \<and> a mod 8 = 0) \<and>
    (\<forall>a \<in> B. a \<noteq> e \<longrightarrow> nx a \<in> B \<and> a + 16 \<le> nx a \<and> (\<forall>c \<in> B. c \<le> a \<or> nx a \<le> c)) \<and>
    (\<forall>b \<in> B. b \<noteq> 0 \<and> b \<noteq> e \<longrightarrow> pv b \<in> B \<and> pv b < b \<and> nx (pv b) = b) \<and> pv 0 = 0"

lemma chainD:
  assumes "block_chain B e nx pv"
  shows "finite B" "0 \<in> B" "e \<in> B" "a \<in> B \<Longrightarrow> a \<le> e" "a \<in> B \<Longrightarrow> a mod 8 = 0"
    "a \<in> B \<Longrightarrow> a \<noteq> e \<Longrightarrow> nx a \<in> B" "a \<in> B \<Longrightarrow> a \<noteq> e \<Longrightarrow> a + 16 \<le> nx a"
    "a \<in> B \<Longrightarrow> a \<noteq> e \<Longrightarrow> c \<in> B \<Longrightarrow> c \<le> a \<or> nx a \<le> c"
    "b \<in> B \<Longrightarrow> b \<noteq> 0 \<Longrightarrow> b \<noteq> e \<Longrightarrow> pv b \<in> B" "b \<in> B \<Longrightarrow> b \<noteq> 0 \<Longrightarrow> b \<noteq> e \<Longrightarrow> pv b < b"
    "b \<in> B \<Longrightarrow> b \<noteq> 0 \<Longrightarrow> b \<noteq> e \<Longrightarrow> nx (pv b) = b" "pv 0 = 0" "a \<in> B \<Longrightarrow> a = e \<or> a + 16 < e"
  using assms by (auto simp: block_chain_def)

lemma chain_next_inj:
  assumes "block_chain B e nx pv" "a \<in> B" "b \<in> B" "a \<noteq> e" "b \<noteq> e" "nx a = nx b"
  shows "a = b"
  using chainD(8)[OF assms(1,2,4,3)] chainD(8)[OF assms(1,3,5,2)] chainD(7)[OF assms(1,2,4)]
    chainD(7)[OF assms(1,3,5)] assms(6) by linarith

lemma chain_back:
  assumes "block_chain B e nx pv" "a \<in> B" "a \<noteq> e" "nx a \<noteq> e"
  shows "pv (nx a) = a"
proof -
  have n: "nx a \<in> B" "nx a \<noteq> 0" using chainD(6,7)[OF assms(1-3)] by auto
  note p = chainD(9-11)[OF assms(1) n(1,2) assms(4)]
  have "pv (nx a) \<noteq> e" using p(2) chainD(4)[OF assms(1) n(1)] by auto
  then show ?thesis using chain_next_inj[OF assms(1) p(1) assms(2) _ assms(3) p(3)] by simp
qed

lemma chain_split:
  assumes c: "block_chain B e nx pv" and a: "a \<in> B" "a \<noteq> e"
    and new: "a + 16 \<le> p" "p + 16 < nx a" "p mod 8 = 0"
    and nx': "nx' = nx(a := p, p := nx a)"
    and pv': "pv' p = a" "nx a \<noteq> e \<Longrightarrow> pv' (nx a) = p" "\<And>b. b \<in> B \<Longrightarrow> b \<noteq> e \<Longrightarrow> b \<noteq> nx a \<Longrightarrow> pv' b = pv b"
  shows "block_chain (insert p B) e nx' pv'"
proof -
  have n: "nx a \<in> B" "\<And>c. c \<in> B \<Longrightarrow> c \<le> a \<or> nx a \<le> c" using chainD(6,8)[OF c] a by auto
  then have p: "p \<notin> B" "p \<noteq> a" "p + 16 < e" "p \<noteq> e" using new chainD(4)[OF c, of "nx a"] by fastforce+
  have "nx' b \<in> insert p B \<and> b + 16 \<le> nx' b \<and> (\<forall>d \<in> insert p B. d \<le> b \<or> nx' b \<le> d)"
    if b: "b \<in> insert p B" "b \<noteq> e" for b
  proof (cases "b = a \<or> b = p")
    case True
    have "d \<le> a \<or> p \<le> d" "d \<le> p \<or> nx a \<le> d" if "d \<in> B" for d using n(2)[OF that] new by linarith+
    then show ?thesis using True n(1) new p(2) by (auto simp: nx')
  next
    case False
    then have b: "b \<in> B" "b \<noteq> e" "nx' b = nx b" using that by (auto simp: nx')
    note l = chainD(6-8)[OF c b(1,2)]
    have "p \<le> b \<or> nx b \<le> p"
      using l(3)[OF a(1)] n(2)[OF b(1)] n(2)[OF l(1)] new False l(2) by linarith
    then show ?thesis using l b(3) by auto
  qed
  moreover have "pv' b \<in> insert p B \<and> pv' b < b \<and> nx' (pv' b) = b"
    if b: "b \<in> insert p B" "b \<noteq> 0" "b \<noteq> e" for b
  proof -
    consider "b = p" | "b = nx a" "b \<noteq> p" | "b \<in> B" "b \<noteq> nx a" "b \<noteq> p" using b by auto
    then show ?thesis
    proof cases
      case 3
      then have "pv' b = pv b" "pv b \<noteq> a" "pv b \<noteq> p"
        using pv'(3) b chainD(9,11)[OF c _ b(2,3)] p(1) by auto
      then show ?thesis using chainD(9-11)[OF c 3(1) b(2,3)] by (simp add: nx')
    qed (use a new pv' p b in \<open>auto simp: nx'\<close>)
  qed
  moreover have "pv' 0 = 0" using pv'(3)[of 0] chainD(2,12)[OF c] new p by auto
  ultimately show ?thesis
    using chainD(1-3,5,13)[OF c] p new unfolding block_chain_def by auto
qed


lemma chain_merge:
  assumes c: "block_chain B e nx pv" and a: "a \<in> B" "a \<noteq> e" "nx a \<noteq> e"
    and nx': "nx' = nx(a := nx (nx a))"
    and pv': "nx (nx a) \<noteq> e \<Longrightarrow> pv' (nx (nx a)) = a"
      "\<And>b. b \<in> B \<Longrightarrow> b \<noteq> e \<Longrightarrow> b \<noteq> nx (nx a) \<Longrightarrow> pv' b = pv b"
  shows "block_chain (B - {nx a}) e nx' pv'"
proof -
  define n where "n = nx a"
  have n: "n \<in> B" "n \<noteq> e" "a + 16 \<le> n" using chainD(6,7)[OF c a(1,2)] a(3) by (auto simp: n_def)
  have m: "nx n \<in> B" "n + 16 \<le> nx n" using chainD(6,7)[OF c n(1,2)] by auto
  have "nx' b \<in> B - {n} \<and> b + 16 \<le> nx' b \<and> (\<forall>d \<in> B - {n}. d \<le> b \<or> nx' b \<le> d)"
    if b: "b \<in> B - {n}" "b \<noteq> e" for b
  proof (cases "b = a")
    case True
    have "d \<le> a \<or> nx n \<le> d" if "d \<in> B" "d \<noteq> n" for d
      using chainD(8)[OF c a(1,2) that(1)] chainD(8)[OF c n(1,2) that(1)] that(2) by (auto simp: n_def)
    then show ?thesis using True m n by (auto simp: nx' n_def[symmetric])
  next
    case False
    then have "nx b \<noteq> n" using chain_next_inj[OF c _ a(1) b(2) a(2)] b by (auto simp: n_def)
    then show ?thesis using False b chainD(6-8)[OF c _ b(2)] by (auto simp: nx')
  qed
  moreover have "pv' b \<in> B - {n} \<and> pv' b < b \<and> nx' (pv' b) = b"
    if b: "b \<in> B - {n}" "b \<noteq> 0" "b \<noteq> e" for b
  proof (cases "b = nx n")
    case True
    then show ?thesis using pv'(1) a n m b by (auto simp: nx' n_def[symmetric])
  next
    case False
    then have p: "pv' b = pv b" using pv'(2) b by (auto simp: n_def)
    then have "pv b \<noteq> n" "pv b \<noteq> a" using False chainD(11)[OF c _ b(2,3)] b by (auto simp: n_def)
    then show ?thesis using p chainD(9-11)[OF c _ b(2,3)] b by (simp add: nx')
  qed
  moreover have "pv' 0 = 0" using pv'(2)[of 0] chainD(2,12)[OF c] chainD(4)[OF c n(1)] m n by (auto simp: n_def)
  ultimately show ?thesis
    using chainD(1-3,5,13)[OF c] n unfolding block_chain_def by (auto simp: n_def)
qed

text \<open>
  The invariant: the blocks form a chain inside the address space, free blocks are never
  neighbours, the lowest-free pointer is at a free block or at the end, and the statistics are
  exact.
\<close>

abbreviation (input) nxt :: "heap \<Rightarrow> nat \<Rightarrow> nat" where "nxt h a \<equiv> hm_next (heads h a)"
abbreviation (input) prv :: "heap \<Rightarrow> nat \<Rightarrow> nat" where "prv h a \<equiv> hm_prev (heads h a)"
abbreviation (input) in_use :: "heap \<Rightarrow> nat \<Rightarrow> bool" where "in_use h a \<equiv> hm_used (heads h a) \<noteq> 0"

definition used_blocks :: "heap \<Rightarrow> nat set \<Rightarrow> nat set" where
  "used_blocks h B = {a \<in> B. a \<noteq> heap_end h \<and> in_use h a}"

definition heap_frame :: "heap \<Rightarrow> bool" where
  "heap_frame h \<longleftrightarrow> heap_end h = mem_size_aligned h + 16 \<and> 16 \<le> mem_size_aligned h \<and>
    heap_ptr h + heap_end h + 16 \<le> 2 ^ 32 \<and> heap_ptr h mod 8 = 0 \<and> in_use h (heap_end h)"

definition heap_core :: "heap \<Rightarrow> nat set \<Rightarrow> bool" where
  "heap_core h B \<longleftrightarrow>
    heap_frame h \<and> block_chain B (heap_end h) (nxt h) (prv h) \<and>
    (\<forall>a \<in> B. a \<noteq> heap_end h \<and> \<not> in_use h a \<longrightarrow> in_use h (nxt h a)) \<and>
    used_mem h = (\<Sum>a \<in> used_blocks h B. nxt h a - a)"

definition hinv :: "heap \<Rightarrow> nat set \<Rightarrow> bool" where
  "hinv h B \<longleftrightarrow> heap_core h B \<and> lfree h \<in> B \<and> (lfree h = heap_end h \<or> \<not> in_use h (lfree h))"

lemma coreD:
  assumes "heap_core h B"
  shows "heap_frame h" "block_chain B (heap_end h) (nxt h) (prv h)"
    "a \<in> B \<Longrightarrow> a \<noteq> heap_end h \<Longrightarrow> \<not> in_use h a \<Longrightarrow> in_use h (nxt h a)"
    "used_mem h = (\<Sum>a \<in> used_blocks h B. nxt h a - a)"
  using assms by (simp_all add: heap_core_def)

lemma hinvD:
  assumes "hinv h B"
  shows "heap_core h B" "lfree h \<in> B" "lfree h = heap_end h \<or> \<not> in_use h (lfree h)"
  using assms by (simp_all add: hinv_def)

lemma sub32_le [simp]:
  assumes "b \<le> a" "a < 2 ^ 32"
  shows "sub32 a b = a - b"
proof -
  have eq: "a + 2 ^ 32 - b = (a - b) + 2 ^ 32" using assms(1) by simp
  show ?thesis unfolding sub32_def eq mod_add_self2 using assms(2) by (intro mod_less) linarith
qed

lemma heads_upd [simp]:
  "heads (upd_head a f h) = (heads h)(a := f (heads h a))" "heap_ptr (upd_head a f h) = heap_ptr h"
  "heap_end (upd_head a f h) = heap_end h" "lfree (upd_head a f h) = lfree h"
  "mem_size_aligned (upd_head a f h) = mem_size_aligned h" "used_mem (upd_head a f h) = used_mem h"
  "max_mem (upd_head a f h) = max_mem h" "heap_bytes (upd_head a f h) = heap_bytes h"
  by (simp_all add: upd_head_def)

lemma core_offset:
  assumes "heap_core h B" "a \<in> B"
  shows "a \<le> heap_end h" "a < 2 ^ 32" "a \<noteq> heap_end h \<Longrightarrow> nxt h a \<in> B"
    "a \<noteq> heap_end h \<Longrightarrow> a + 16 \<le> nxt h a" "a \<noteq> heap_end h \<Longrightarrow> nxt h a \<le> heap_end h" "a mod 8 = 0"
proof -
  note c = coreD(2)[OF assms(1)]
  show "a \<le> heap_end h" by (rule chainD(4)[OF c assms(2)])
  then show "a < 2 ^ 32" using coreD(1)[OF assms(1)] by (simp add: heap_frame_def)
  show "a mod 8 = 0" by (rule chainD(5)[OF c assms(2)])
  show n: "nxt h a \<in> B" "a + 16 \<le> nxt h a" if "a \<noteq> heap_end h"
    using chainD(6,7)[OF c assms(2) that] by auto
  show "nxt h a \<le> heap_end h" if "a \<noteq> heap_end h" using chainD(4)[OF c n(1)[OF that]] .
qed

text \<open>Both loops walk up the chain and stop.\<close>

lemma malloc_find_first:
  assumes "heap_core h B" "p \<in> B" "sz \<le> mem_size_aligned h"
  shows "\<exists>r. malloc_find sz h p = Some r \<and>
    (case r of
       None \<Rightarrow> \<forall>b \<in> B. p \<le> b \<and> b + sz < mem_size_aligned h \<longrightarrow> \<not> fits sz h b
     | Some q \<Rightarrow> q \<in> B \<and> p \<le> q \<and> q + sz < mem_size_aligned h \<and> fits sz h q \<and>
         (\<forall>b \<in> B. p \<le> b \<and> b < q \<longrightarrow> \<not> fits sz h b))"
  using assms(2)
proof (induction "heap_end h - p" arbitrary: p rule: less_induct)
  case less
  have lim: "sub32 (mem_size_aligned h) sz = mem_size_aligned h - sz"
    using coreD(1)[OF assms(1)] assms(3) by (intro sub32_le) (auto simp: heap_frame_def)
  show ?case
  proof (cases "p < mem_size_aligned h - sz \<and> \<not> fits sz h p")
    case True
    then have e: "p \<noteq> heap_end h" using coreD(1)[OF assms(1)] by (auto simp: heap_frame_def)
    note n = core_offset[OF assms(1) less.prems]
    have up: "b = p \<or> nxt h p \<le> b" if "b \<in> B" "p \<le> b" for b
      using chainD(8)[OF coreD(2)[OF assms(1)] less.prems e that(1)] that(2) by auto
    have "heap_end h - nxt h p < heap_end h - p" using n(4,5)[OF e] by linarith
    from less.hyps[OF this n(3)[OF e]] obtain r where r: "malloc_find sz h (nxt h p) = Some r"
      "case r of
         None \<Rightarrow> \<forall>b \<in> B. nxt h p \<le> b \<and> b + sz < mem_size_aligned h \<longrightarrow> \<not> fits sz h b
       | Some q \<Rightarrow> q \<in> B \<and> nxt h p \<le> q \<and> q + sz < mem_size_aligned h \<and> fits sz h q \<and>
           (\<forall>b \<in> B. nxt h p \<le> b \<and> b < q \<longrightarrow> \<not> fits sz h b)" by blast
    have "malloc_find sz h p = Some r" using True r(1) lim by (simp add: malloc_find.simps[of sz h p])
    then show ?thesis using r(2) up n(4)[OF e] True by (fastforce split: option.splits)
  next
    case False
    then show ?thesis using lim less.prems by (auto simp: malloc_find.simps[of sz h p])
  qed
qed

lemma next_free_stops:
  assumes "block_chain B (heap_end h) (nxt h) (prv h)" "p \<in> B"
  shows "\<exists>q. next_free h p = Some q \<and> q \<in> B \<and> (q = heap_end h \<or> \<not> in_use h q)"
  using assms(2)
proof (induction "heap_end h - p" arbitrary: p rule: less_induct)
  case less
  show ?case
  proof (cases "in_use h p \<and> p \<noteq> heap_end h")
    case True
    then have "heap_end h - nxt h p < heap_end h - p" "nxt h p \<in> B"
      using chainD(4,6,7)[OF assms(1) less.prems] chainD(4)[OF assms(1), of "nxt h p"] by fastforce+
    then show ?thesis using less.hyps True by (simp add: next_free.simps[of h p])
  next
    case False
    then show ?thesis using less.prems by (auto simp: next_free.simps[of h p])
  qed
qed


text \<open>
  The blocks in use: their addresses and sizes.
\<close>

definition live :: "heap \<Rightarrow> nat set \<Rightarrow> (nat \<times> nat) set" where
  "live h B = (\<lambda>a. (heap_ptr h + a + 16, nxt h a - a - 16)) ` used_blocks h B"

lemma used_blocks_finite: "heap_core h B \<Longrightarrow> finite (used_blocks h B)"
  using chainD(1)[OF coreD(2)] by (simp add: used_blocks_def)

lemma frame_less: "heap_frame h \<Longrightarrow> heap_end h < 2 ^ 32"
  by (simp add: heap_frame_def)

lemma count_used_fields [simp]:
  "heads (count_used n h) = heads h" "heap_ptr (count_used n h) = heap_ptr h" "heap_end (count_used n h) = heap_end h"
  "lfree (count_used n h) = lfree h" "mem_size_aligned (count_used n h) = mem_size_aligned h"
  "used_mem (count_used n h) = used_mem h + n" "heap_bytes (count_used n h) = heap_bytes h"
  by (simp_all add: count_used_def Let_def)

lemma malloc_take_split:
  assumes core: "heap_core h B" and q: "q \<in> B" "q \<noteq> heap_end h" "\<not> in_use h q"
    and sz: "q + sz + 48 \<le> nxt h q" "sz mod 8 = 0"
  shows "heap_core (malloc_take sz q h) (insert (q + 16 + sz) B) \<and>
    used_blocks (malloc_take sz q h) (insert (q + 16 + sz) B) = insert q (used_blocks h B) \<and>
    (\<forall>a \<in> used_blocks h B. nxt (malloc_take sz q h) a = nxt h a) \<and>
    nxt (malloc_take sz q h) q = q + 16 + sz \<and>
    (\<forall>a \<in> B. in_use (malloc_take sz q h) a = (a = q \<or> in_use h a))"
proof -
  define p where "p = q + 16 + sz"
  define h' where "h' = malloc_take sz q h"
  note off = core_offset[OF core]
  have n: "nxt h q \<in> B" "nxt h q < 2 ^ 32" "in_use h (nxt h q)"
    using off(3)[OF q(1,2)] off(2) coreD(3)[OF core q] by auto
  have p: "p \<notin> B" "p \<noteq> q" "p \<noteq> nxt h q" "q \<noteq> nxt h q" "p \<noteq> heap_end h"
    using chainD(8)[OF coreD(2)[OF core] q(1,2), of p] sz(1) off(5)[OF q(1,2)] by (auto simp: p_def)
  have fit: "sub32 (nxt h q) (q + 16) = nxt h q - (q + 16)" using sz(1) n(2) by (intro sub32_le) auto
  have e: "mem_size_aligned h + 16 = heap_end h" using coreD(1)[OF core] by (simp add: heap_frame_def)
  have heads': "nxt h' = (nxt h)(q := p, p := nxt h q)" "prv h' p = q" "nxt h q \<noteq> heap_end h \<Longrightarrow> prv h' (nxt h q) = p"
    "\<And>b. b \<in> B \<Longrightarrow> b \<noteq> nxt h q \<Longrightarrow> prv h' b = prv h b" "\<And>b. in_use h' b = (b = q \<or> b \<noteq> p \<and> in_use h b)"
    using sz(1) p e by (auto simp: h'_def malloc_take_def fit Let_def p_def[symmetric] fun_eq_iff)
  have nx: "nxt h' a = (if a = q then p else if a = p then nxt h q else nxt h a)" for a
    using fun_cong[OF heads'(1), of a] p(2) by auto
  have rest: "heap_end h' = heap_end h" "heap_ptr h' = heap_ptr h" "mem_size_aligned h' = mem_size_aligned h"
    "used_mem h' = used_mem h + (sz + 16)"
    using sz(1) by (auto simp: h'_def malloc_take_def fit Let_def)
  have "p mod 8 = 0" using off(6)[OF q(1)] sz(2) unfolding p_def by presburger
  then have chain: "block_chain (insert p B) (heap_end h) (nxt h') (prv h')"
    using sz(1) heads'(2-4) p
    by (intro chain_split[OF coreD(2)[OF core] q(1,2) _ _ _ heads'(1)]) (auto simp: p_def)
  have used: "used_blocks h' (insert p B) = insert q (used_blocks h B)"
    using q p by (auto simp: used_blocks_def rest heads'(5))
  have same: "\<forall>a \<in> used_blocks h B. nxt h' a = nxt h a" using q(3) p(1) by (auto simp: used_blocks_def nx)
  have "in_use h' (nxt h' a)" if "a \<in> insert p B" "a \<noteq> heap_end h" "\<not> in_use h' a" for a
  proof (cases "a = p")
    case True
    then show ?thesis using n p by (simp add: nx heads'(5))
  next
    case False
    then have a: "a \<in> B" "\<not> in_use h a" "a \<noteq> q" using that by (auto simp: heads'(5))
    then show ?thesis using coreD(3)[OF core a(1) that(2) a(2)] off(3)[OF a(1) that(2)] p(1) False
      by (auto simp: nx heads'(5))
  qed
  moreover have "(\<Sum>a \<in> insert q (used_blocks h B). nxt h' a - a) = (sz + 16) + used_mem h"
    using used_blocks_finite[OF core] same q(3) coreD(4)[OF core] p(2)
    by (subst sum.insert) (auto simp: used_blocks_def nx p_def)
  moreover have "heap_frame h'" using coreD(1)[OF core] p by (auto simp: heap_frame_def rest heads'(5))
  ultimately have "heap_core h' (insert p B)" using chain used rest by (simp add: heap_core_def)
  then show ?thesis using used same p heads'(5) nx by (auto simp: h'_def[symmetric] p_def[symmetric])
qed


lemma malloc_take_whole:
  assumes core: "heap_core h B" and q: "q \<in> B" "q \<noteq> heap_end h" "\<not> in_use h q"
    and sz: "q + 16 + sz \<le> nxt h q" "nxt h q < q + sz + 48"
  shows "heap_core (malloc_take sz q h) B \<and>
    used_blocks (malloc_take sz q h) B = insert q (used_blocks h B) \<and>
    nxt (malloc_take sz q h) = nxt h \<and> (\<forall>a. in_use (malloc_take sz q h) a = (a = q \<or> in_use h a))"
proof -
  define h' where "h' = malloc_take sz q h"
  have n: "nxt h q < 2 ^ 32" "q + 16 \<le> nxt h q"
    using core_offset(2)[OF core core_offset(3)[OF core q(1,2)]] sz(1) by auto
  have fit: "sub32 (nxt h q) (q + 16) = nxt h q - (q + 16)" "sub32 (nxt h q) q = nxt h q - q"
    using n by (auto intro!: sub32_le)
  have heads': "nxt h' b = nxt h b" "prv h' b = prv h b" "in_use h' b = (b = q \<or> in_use h b)" for b
    using sz(2) by (auto simp: h'_def malloc_take_def fit Let_def)
  have rest: "heap_end h' = heap_end h" "heap_ptr h' = heap_ptr h" "mem_size_aligned h' = mem_size_aligned h"
    "used_mem h' = used_mem h + (nxt h q - q)"
    using sz(2) by (auto simp: h'_def malloc_take_def fit Let_def)
  have used: "used_blocks h' B = insert q (used_blocks h B)"
    using q by (auto simp: used_blocks_def rest heads')
  moreover have "(\<Sum>a \<in> insert q (used_blocks h B). nxt h a - a) = (nxt h q - q) + used_mem h"
    using used_blocks_finite[OF core] q(3) coreD(4)[OF core] by (subst sum.insert) (auto simp: used_blocks_def)
  moreover have "heap_frame h'" using coreD(1)[OF core] by (auto simp: heap_frame_def rest heads')
  ultimately have "heap_core h' B"
    using coreD(2,3)[OF core] by (auto simp: heap_core_def rest heads')
  then show ?thesis using used heads' by (auto simp: h'_def[symmetric])
qed

lemma malloc_take_core:
  assumes "heap_core h B" "q \<in> B" "q \<noteq> heap_end h" "\<not> in_use h q" "q + 16 + sz \<le> nxt h q" "sz mod 8 = 0"
  shows "\<exists>B'. B \<subseteq> B' \<and> heap_core (malloc_take sz q h) B' \<and>
    used_blocks (malloc_take sz q h) B' = insert q (used_blocks h B) \<and>
    (\<forall>a \<in> used_blocks h B. nxt (malloc_take sz q h) a = nxt h a) \<and>
    q + 16 + sz \<le> nxt (malloc_take sz q h) q \<and>
    (\<forall>a \<in> B. in_use (malloc_take sz q h) a = (a = q \<or> in_use h a))"
proof (cases "q + sz + 48 \<le> nxt h q")
  case True
  then show ?thesis
    using malloc_take_split[OF assms(1-4) True assms(6)] by (intro exI[of _ "insert (q + 16 + sz) B"]) auto
next
  case False
  then show ?thesis
    using malloc_take_whole[OF assms(1-5)] assms(5) by (intro exI[of _ B]) (auto simp: fun_eq_iff)
qed

lemma malloc_take_frame [simp]:
  "heap_ptr (malloc_take sz q h) = heap_ptr h" "lfree (malloc_take sz q h) = lfree h"
  "heap_bytes (malloc_take sz q h) = heap_bytes h" "heap_end (malloc_take sz q h) = heap_end h"
  "mem_size_aligned (malloc_take sz q h) = mem_size_aligned h"
  by (simp_all add: malloc_take_def Let_def)

text \<open>Fields the chain does not depend on.\<close>

lemma heap_core_cong:
  assumes "\<And>a. nxt h' a = nxt h a" "\<And>a. prv h' a = prv h a" "\<And>a. hm_used (heads h' a) = hm_used (heads h a)"
    and "heap_ptr h' = heap_ptr h" "heap_end h' = heap_end h" "mem_size_aligned h' = mem_size_aligned h"
    and "used_mem h' = used_mem h"
  shows "heap_core h' B = heap_core h B" "used_blocks h' B = used_blocks h B" "live h' B = live h B"
  using assms by (simp_all add: heap_core_def used_blocks_def live_def heap_frame_def cong: image_cong_simp)

lemma core_fields [simp]:
  "heap_core (h\<lparr>lfree := f\<rparr>) B = heap_core h B" "used_blocks (h\<lparr>lfree := f\<rparr>) B = used_blocks h B"
  "live (h\<lparr>lfree := f\<rparr>) B = live h B"
  "heap_core (h\<lparr>heap_bytes := y\<rparr>) B = heap_core h B" "used_blocks (h\<lparr>heap_bytes := y\<rparr>) B = used_blocks h B"
  "live (h\<lparr>heap_bytes := y\<rparr>) B = live h B"
  "heap_core (upd_head a (hm_magic_update g) h) B = heap_core h B"
  "used_blocks (upd_head a (hm_magic_update g) h) B = used_blocks h B"
  "live (upd_head a (hm_magic_update g) h) B = live h B"
  by (rule heap_core_cong; simp)+

lemma hinv_bytes [simp]: "hinv (h\<lparr>heap_bytes := y\<rparr>) B = hinv h B"
  by (simp add: hinv_def)

lemma unat_and_not_7: "unat (w AND NOT 7 :: u32) = 8 * (unat w div 8)"
proof -
  have m: "(7 :: u32) = mask 3" by (simp add: mask_eq_exp_minus_1)
  have "w AND NOT 7 = push_bit 3 (drop_bit 3 w)"
    unfolding m by (intro bit_word_eqI) (auto simp: bit_simps)
  moreover have "unat (drop_bit 3 w) = unat w div 8" by (simp add: drop_bit_eq_div unat_div_distrib)
  moreover have "8 * (unat w div 8) \<le> unat w" by simp
  ultimately show ?thesis
    using unsigned_less[of w, where 'a = nat] by (simp add: push_bit_eq_mult unat_word_ariths(2) mult.commute)
qed

lemma unat_RT_ALIGN:
  "unat (RT_ALIGN n RT_ALIGN_SIZE) mod 8 = 0"
  "unat n \<le> 2 ^ 32 - 8 \<Longrightarrow> unat (RT_ALIGN n RT_ALIGN_SIZE) = 8 * ((unat n + 7) div 8)"
proof -
  have eq: "RT_ALIGN n 8 = (n + 7) AND NOT 7" by (simp add: RT_ALIGN_def add.commute)
  show "unat (RT_ALIGN n RT_ALIGN_SIZE) mod 8 = 0" unfolding eq unat_and_not_7 by simp
  assume "unat n \<le> 2 ^ 32 - 8"
  then have "unat (n + 7) = unat n + 7" by (simp add: unat_word_ariths(1))
  then show "unat (RT_ALIGN n RT_ALIGN_SIZE) = 8 * ((unat n + 7) div 8)" unfolding eq unat_and_not_7 by simp
qed


text \<open>The size a request is rounded to, and what makes a request fail.\<close>

definition rounded :: "u32 \<Rightarrow> nat" where
  "rounded req = max MIN_SIZE_ALIGNED (unat (RT_ALIGN req RT_ALIGN_SIZE))"

lemma rounded_bounds:
  "rounded req mod 8 = 0" "16 \<le> rounded req" "unat req \<le> 2 ^ 32 - 8 \<Longrightarrow> unat req \<le> rounded req"
  using unat_RT_ALIGN[of req] by (auto simp: rounded_def max_def)

definition no_room :: "u32 \<Rightarrow> heap \<Rightarrow> nat set \<Rightarrow> bool" where
  "no_room req h B \<longleftrightarrow> req = 0 \<or> mem_size_aligned h < unat (RT_ALIGN req RT_ALIGN_SIZE) \<or>
    (\<forall>b \<in> B. lfree h \<le> b \<and> b \<noteq> heap_end h \<and> \<not> in_use h b \<longrightarrow>
      nxt h b < b + 16 + rounded req \<or> mem_size_aligned h \<le> b + rounded req)"

lemma fits_iff:
  assumes "heap_core h B" "b \<in> B" "b \<noteq> heap_end h"
  shows "fits sz h b \<longleftrightarrow> \<not> in_use h b \<and> b + 16 + sz \<le> nxt h b"
proof -
  have "nxt h b < 2 ^ 32" "b + 16 \<le> nxt h b" using core_offset[OF assms(1)] assms(2,3) by auto
  then have "sub32 (nxt h b) (b + 16) = nxt h b - (b + 16)" by (intro sub32_le) auto
  then show ?thesis using \<open>b + 16 \<le> nxt h b\<close> by (auto simp: fits_def)
qed

lemma malloc_found:
  assumes "hinv h B" "q \<in> B" "q \<noteq> heap_end h" "\<not> in_use h q" "q + 16 + sz \<le> nxt h q" "sz mod 8 = 0"
    and "h1 = upd_head q (\<lambda>x. x\<lparr>hm_magic := HEAP_MAGIC\<rparr>) (malloc_take sz q h)"
  shows "\<exists>f B' n. (if q = lfree h1 then next_free h1 (lfree h1) = Some f else f = lfree h1) \<and>
    hinv (h1\<lparr>lfree := f\<rparr>) B' \<and> live (h1\<lparr>lfree := f\<rparr>) B' = insert (heap_ptr h + q + 16, n) (live h B) \<and> sz \<le> n"
proof -
  obtain B' where B': "B \<subseteq> B'" "heap_core (malloc_take sz q h) B'"
    "used_blocks (malloc_take sz q h) B' = insert q (used_blocks h B)"
    "\<forall>a \<in> used_blocks h B. nxt (malloc_take sz q h) a = nxt h a" "q + 16 + sz \<le> nxt (malloc_take sz q h) q"
    "\<forall>a \<in> B. in_use (malloc_take sz q h) a = (a = q \<or> in_use h a)"
    using malloc_take_core[OF hinvD(1)[OF assms(1)] assms(2-6)] by blast
  have h1: "heap_core h1 B'" "lfree h1 = lfree h" "heap_end h1 = heap_end h"
    "\<forall>a \<in> B. in_use h1 a = (a = q \<or> in_use h a)"
    using B' by (auto simp: assms(7))
  have "\<exists>f. (if q = lfree h1 then next_free h1 (lfree h1) = Some f else f = lfree h1) \<and> f \<in> B' \<and>
      (f = heap_end h1 \<or> \<not> in_use h1 f)"
  proof (cases "q = lfree h1")
    case True
    then show ?thesis using next_free_stops[OF coreD(2)[OF h1(1)], of "lfree h1"] B'(1) assms(2) by auto
  next
    case False
    then show ?thesis using hinvD(2,3)[OF assms(1)] B'(1) h1 by auto
  qed
  then obtain f where f: "if q = lfree h1 then next_free h1 (lfree h1) = Some f else f = lfree h1"
    "f \<in> B'" "f = heap_end h1 \<or> \<not> in_use h1 f" by blast
  have "live h1 B' = insert (heap_ptr h + q + 16, nxt (malloc_take sz q h) q - q - 16) (live h B)"
  proof -
    have "(\<lambda>a. (heap_ptr h + a + 16, nxt (malloc_take sz q h) a - a - 16)) ` used_blocks h B = live h B"
      unfolding live_def by (rule image_cong) (use B'(4) in auto)
    moreover have "live h1 B' = live (malloc_take sz q h) B'" by (simp add: assms(7))
    ultimately show ?thesis by (simp add: live_def B'(3))
  qed
  then show ?thesis using f h1(1) B'(5)
    by (intro exI[of _ f] exI[of _ B'] exI[of _ "nxt (malloc_take sz q h) q - q - 16"]) (auto simp: hinv_def)
qed

lemma malloc_result:
  assumes "hinv h B"
  shows "(rt_malloc req h = Some (None, h) \<and> no_room req h B) \<or>
    (\<exists>p n h' B'. rt_malloc req h = Some (Some p, h') \<and> hinv h' B' \<and> heap_bytes h' = heap_bytes h \<and>
      rounded req \<le> n \<and> live h' B' = insert (p, n) (live h B) \<and>
      (\<exists>q \<in> B. q \<noteq> heap_end h \<and> \<not> in_use h q \<and> p = heap_ptr h + q + 16))"
proof (cases "req = 0 \<or> mem_size_aligned h < unat (RT_ALIGN req RT_ALIGN_SIZE)")
  case True
  then show ?thesis by (auto simp: rt_malloc_def no_room_def Let_def)
next
  case False
  note core = hinvD(1)[OF assms]
  have le: "rounded req \<le> mem_size_aligned h"
    using False coreD(1)[OF core] by (simp add: rounded_def heap_frame_def)
  obtain r where r: "malloc_find (rounded req) h (lfree h) = Some r"
    "case r of
       None \<Rightarrow> \<forall>b \<in> B. lfree h \<le> b \<and> b + rounded req < mem_size_aligned h \<longrightarrow> \<not> fits (rounded req) h b
     | Some q \<Rightarrow> q \<in> B \<and> lfree h \<le> q \<and> q + rounded req < mem_size_aligned h \<and> fits (rounded req) h q \<and>
         (\<forall>b \<in> B. lfree h \<le> b \<and> b < q \<longrightarrow> \<not> fits (rounded req) h b)"
    using malloc_find_first[OF core hinvD(2)[OF assms] le] by blast
  have sz: "(if unat (RT_ALIGN req RT_ALIGN_SIZE) < MIN_SIZE_ALIGNED then MIN_SIZE_ALIGNED
      else unat (RT_ALIGN req RT_ALIGN_SIZE)) = rounded req" by (simp add: rounded_def max_def)
  show ?thesis
  proof (cases r)
    case None
    then have "no_room req h B"
      using r(2) fits_iff[OF core] by (fastforce simp: no_room_def)
    then show ?thesis using None r(1) False by (simp add: rt_malloc_def Let_def sz)
  next
    case (Some q)
    then have q: "q \<in> B" "q \<noteq> heap_end h" "fits (rounded req) h q"
      using r(2) coreD(1)[OF core] by (auto simp: heap_frame_def)
    then have q': "\<not> in_use h q" "q + 16 + rounded req \<le> nxt h q" using fits_iff[OF core] by auto
    define h1 where "h1 = upd_head q (\<lambda>x. x\<lparr>hm_magic := HEAP_MAGIC\<rparr>) (malloc_take (rounded req) q h)"
    obtain f B' n where f: "if q = lfree h1 then next_free h1 (lfree h1) = Some f else f = lfree h1"
      "hinv (h1\<lparr>lfree := f\<rparr>) B'" "live (h1\<lparr>lfree := f\<rparr>) B' = insert (heap_ptr h + q + 16, n) (live h B)"
      "rounded req \<le> n"
      using malloc_found[OF assms q(1,2) q' rounded_bounds(1) h1_def] by blast
    have "rt_malloc req h = Some (Some (heap_ptr h + q + 16), h1\<lparr>lfree := f\<rparr>)"
      using False r(1) Some f(1) by (simp add: rt_malloc_def Let_def sz h1_def[symmetric]) (auto simp: h1_def)
    then show ?thesis using f(2-4) q q' by (auto simp: h1_def)
  qed
qed



section \<open>Merging and freeing\<close>

text \<open>The invariant without its clause on neighbouring free blocks, and the merge of a block with the next.\<close>

definition heap_loose :: "heap \<Rightarrow> nat set \<Rightarrow> bool" where
  "heap_loose h B \<longleftrightarrow>
    heap_frame h \<and> block_chain B (heap_end h) (nxt h) (prv h) \<and>
    used_mem h = (\<Sum>a \<in> used_blocks h B. nxt h a - a) \<and>
    lfree h \<in> B \<and> (lfree h = heap_end h \<or> \<not> in_use h (lfree h))"

lemma hinv_loose:
  "hinv h B \<longleftrightarrow> heap_loose h B \<and> (\<forall>a \<in> B. a \<noteq> heap_end h \<and> \<not> in_use h a \<longrightarrow> in_use h (nxt h a))"
  by (auto simp: hinv_def heap_core_def heap_loose_def)

lemma looseD:
  assumes "heap_loose h B"
  shows "heap_frame h" "block_chain B (heap_end h) (nxt h) (prv h)"
    "used_mem h = (\<Sum>a \<in> used_blocks h B. nxt h a - a)"
    "lfree h \<in> B" "lfree h = heap_end h \<or> \<not> in_use h (lfree h)"
  using assms by (simp_all add: heap_loose_def)

definition merge :: "nat \<Rightarrow> nat \<Rightarrow> heap \<Rightarrow> heap" where
  "merge a n h =
    (let h = (if lfree h = n then h\<lparr>lfree := a\<rparr> else h);
         h = upd_head a (\<lambda>x. x\<lparr>hm_next := hm_next (heads h n)\<rparr>) h
     in upd_head (hm_next (heads h n)) (\<lambda>x. x\<lparr>hm_prev := a\<rparr>) h)"

lemma plug_holes_merge:
  "plug_holes m h =
    (let nmem = nxt h m;
         h = (if m \<noteq> nmem \<and> \<not> in_use h nmem \<and> nmem \<noteq> heap_end h then merge m nmem h else h);
         pmem = prv h m
     in if pmem \<noteq> m \<and> \<not> in_use h pmem then merge pmem m h else h)"
  by (simp only: plug_holes_def merge_def not_not)

lemma merge_loose:
  assumes loose: "heap_loose h B" and a: "a \<in> B" "a \<noteq> heap_end h" "\<not> in_use h a"
    and n: "n = nxt h a" "n \<noteq> heap_end h" "\<not> in_use h n"
  shows "heap_loose (merge a n h) (B - {n})" "used_blocks (merge a n h) (B - {n}) = used_blocks h B"
    "in_use (merge a n h) x = in_use h x" "x \<noteq> a \<Longrightarrow> nxt (merge a n h) x = nxt h x"
    "nxt (merge a n h) a = nxt h n" "heap_end (merge a n h) = heap_end h"
    "heap_ptr (merge a n h) = heap_ptr h" "heap_bytes (merge a n h) = heap_bytes h"
proof -
  define h' where "h' = merge a n h"
  note c = looseD(2)[OF loose]
  have nB: "n \<in> B" "a < n" "n < nxt h n" "a \<noteq> nxt h n" "n \<noteq> 0"
    using chainD(6,7)[OF c a(1,2)] chainD(7)[OF c, of n] n by auto
  have heads': "nxt h' = (nxt h)(a := nxt h (nxt h a))" "prv h' (nxt h n) = a"
    "\<And>b. b \<noteq> nxt h n \<Longrightarrow> prv h' b = prv h b" "\<And>b. hm_used (heads h' b) = hm_used (heads h b)"
    using nB by (auto simp: h'_def merge_def Let_def fun_eq_iff n(1)[symmetric])
  have nx: "nxt h' b = (if b = a then nxt h n else nxt h b)" for b using fun_cong[OF heads'(1), of b] n(1) by auto
  have rest: "heap_end h' = heap_end h" "heap_ptr h' = heap_ptr h" "mem_size_aligned h' = mem_size_aligned h"
    "used_mem h' = used_mem h" "heap_bytes h' = heap_bytes h" "lfree h' = (if lfree h = n then a else lfree h)"
    by (auto simp: h'_def merge_def Let_def)
  have chain: "block_chain (B - {n}) (heap_end h) (nxt h') (prv h')"
    unfolding n(1)
    by (rule chain_merge[OF c a(1,2) _ heads'(1)]) (use n heads'(2,3) in auto)
  have used: "used_blocks h' (B - {n}) = used_blocks h B"
    using n(3) by (auto simp: used_blocks_def rest heads'(4))
  have "(\<Sum>x \<in> used_blocks h B. nxt h' x - x) = (\<Sum>x \<in> used_blocks h B. nxt h x - x)"
    using a(3) by (intro sum.cong) (auto simp: used_blocks_def nx)
  moreover have "heap_frame h'" using looseD(1)[OF loose] by (auto simp: heap_frame_def rest heads'(4))
  ultimately show "heap_loose h' (B - {n})"
    using looseD(3-5)[OF loose] chain used a nB by (auto simp: heap_loose_def rest heads'(4))
qed (use a n in \<open>auto simp: merge_def Let_def used_blocks_def\<close>)


text \<open>Merging changes the free blocks only: the blocks in use and their sizes stay.\<close>

definition same_blocks :: "heap \<Rightarrow> nat set \<Rightarrow> heap \<Rightarrow> nat set \<Rightarrow> bool" where
  "same_blocks h B h' B' \<longleftrightarrow> used_blocks h' B' = used_blocks h B \<and> (\<forall>a \<in> used_blocks h B. nxt h' a = nxt h a) \<and>
    heap_ptr h' = heap_ptr h \<and> heap_bytes h' = heap_bytes h"

lemma same_blocks_live: "same_blocks h B h' B' \<Longrightarrow> live h' B' = live h B"
  by (auto simp: same_blocks_def live_def)

lemma same_blocks_trans: "same_blocks h B h1 B1 \<Longrightarrow> same_blocks h1 B1 h2 B2 \<Longrightarrow> same_blocks h B h2 B2"
  by (auto simp: same_blocks_def)

lemma merge_same:
  assumes "heap_loose h B" "a \<in> B" "a \<noteq> heap_end h" "\<not> in_use h a" "n = nxt h a" "n \<noteq> heap_end h" "\<not> in_use h n"
  shows "same_blocks h B (merge a n h) (B - {n})"
proof -
  have "nxt (merge a n h) x = nxt h x" if "x \<in> used_blocks h B" for x
    using that assms(4) by (intro merge_loose(4)[OF assms]) (auto simp: used_blocks_def)
  then show ?thesis using merge_loose(2,7,8)[OF assms] by (simp add: same_blocks_def)
qed

lemma plug_forward:
  assumes loose: "heap_loose h B" and m: "m \<in> B" "m \<noteq> heap_end h" "\<not> in_use h m"
    and others: "\<And>a. a \<in> B \<Longrightarrow> a \<noteq> heap_end h \<Longrightarrow> \<not> in_use h a \<Longrightarrow> a \<noteq> m \<Longrightarrow> nxt h a \<noteq> m \<Longrightarrow> in_use h (nxt h a)"
    and h': "h' = (if m \<noteq> nxt h m \<and> \<not> in_use h (nxt h m) \<and> nxt h m \<noteq> heap_end h then merge m (nxt h m) h else h)"
  shows "\<exists>B'. heap_loose h' B' \<and> same_blocks h B h' B' \<and> m \<in> B' \<and> \<not> in_use h' m \<and> heap_end h' = heap_end h \<and>
    (\<forall>a \<in> B'. a \<noteq> heap_end h' \<and> \<not> in_use h' a \<and> nxt h' a \<noteq> m \<longrightarrow> in_use h' (nxt h' a))"
proof -
  note c = looseD(2)[OF loose]
  have n: "nxt h m \<in> B" "m + 16 \<le> nxt h m" using chainD(6,7)[OF c m(1,2)] by auto
  have e: "in_use h (heap_end h)" using looseD(1)[OF loose] by (auto simp: heap_frame_def)
  show ?thesis
  proof (cases "\<not> in_use h (nxt h m) \<and> nxt h m \<noteq> heap_end h")
    case True
    define k where "k = nxt h m"
    have h'_eq: "h' = merge m k h" using True n(2) by (simp add: h' k_def)
    have k: "k \<in> B" "k \<noteq> heap_end h" "\<not> in_use h k" "m \<noteq> k" "nxt h k \<noteq> m"
      using True n chainD(7)[OF c, of k] by (auto simp: k_def)
    note mg = merge_loose[OF loose m k_def k(2,3), folded h'_eq]
    have "in_use h (nxt h k)" using others[OF k(1-3)] k(4,5) by auto
    moreover have "nxt h a \<noteq> k" if "a \<in> B" "a \<noteq> heap_end h" "a \<noteq> m" for a
      using chain_next_inj[OF c that(1) m(1) that(2) m(2)] that(3) by (auto simp: k_def)
    ultimately have "in_use h' (nxt h' a)"
      if "a \<in> B - {k}" "a \<noteq> heap_end h" "\<not> in_use h' a" "nxt h' a \<noteq> m" for a
      using that mg(3-5) others[of a] by (cases "a = m") auto
    then show ?thesis
      using mg(1,3,6) merge_same[OF loose m k_def k(2,3)] m k by (intro exI[of _ "B - {k}"]) (auto simp: h'_eq)
  next
    case False
    then have "in_use h (nxt h m)" using e by auto
    moreover have "h' = h" using False by (auto simp: h')
    ultimately show ?thesis
      using loose m others by (intro exI[of _ B]) (auto simp: same_blocks_def)
  qed
qed

lemma plug_holes_inv:
  assumes "heap_loose h B" "m \<in> B" "m \<noteq> heap_end h" "\<not> in_use h m"
    and "\<And>a. a \<in> B \<Longrightarrow> a \<noteq> heap_end h \<Longrightarrow> \<not> in_use h a \<Longrightarrow> a \<noteq> m \<Longrightarrow> nxt h a \<noteq> m \<Longrightarrow> in_use h (nxt h a)"
  shows "\<exists>B'. hinv (plug_holes m h) B' \<and> same_blocks h B (plug_holes m h) B'"
proof -
  define h1 where "h1 = (if m \<noteq> nxt h m \<and> \<not> in_use h (nxt h m) \<and> nxt h m \<noteq> heap_end h then merge m (nxt h m) h else h)"
  obtain B1 where B1: "heap_loose h1 B1" "same_blocks h B h1 B1" "m \<in> B1" "\<not> in_use h1 m" "heap_end h1 = heap_end h"
    "\<forall>a \<in> B1. a \<noteq> heap_end h1 \<and> \<not> in_use h1 a \<and> nxt h1 a \<noteq> m \<longrightarrow> in_use h1 (nxt h1 a)"
    using plug_forward[OF assms h1_def] by blast
  note c = looseD(2)[OF B1(1)]
  define p where "p = prv h1 m"
  have eq: "plug_holes m h = (if p \<noteq> m \<and> \<not> in_use h1 p then merge p m h1 else h1)"
    by (simp only: plug_holes_merge Let_def h1_def p_def)
  have me: "m \<noteq> heap_end h1" using assms(3) B1(5) by simp
  have pred: "a = p \<and> p \<noteq> m" if "a \<in> B1" "a \<noteq> heap_end h1" "nxt h1 a = m" for a
    using chain_back[OF c that(1,2)] that me chainD(7)[OF c that(1,2)] by (auto simp: p_def)
  show ?thesis
  proof (cases "p \<noteq> m \<and> \<not> in_use h1 p")
    case True
    then have "m \<noteq> 0" using chainD(12)[OF c] by (cases "m = 0") (auto simp: p_def)
    note q = chainD(9-11)[OF c B1(3) this me, folded p_def]
    have pe: "p \<noteq> heap_end h1" using q(2) chainD(4)[OF c B1(3)] by auto
    note mg = merge_loose[OF B1(1) q(1) pe _ q(3)[symmetric] me B1(4)]
    have "in_use (merge p m h1) (nxt (merge p m h1) a)"
      if a: "a \<in> B1 - {m}" "a \<noteq> heap_end h1" "\<not> in_use (merge p m h1) a" for a
    proof (cases "a = p")
      case True
      then show ?thesis using mg(3,5) B1(3,4,6) me True \<open>p \<noteq> m \<and> _\<close> chainD(7)[OF c B1(3) me] by fastforce
    next
      case False
      then show ?thesis using mg(3,4) pred[of a] a B1(6) True by auto
    qed
    then have "hinv (merge p m h1) (B1 - {m})" using mg(1,6) True by (auto simp: hinv_loose)
    moreover have "same_blocks h1 B1 (merge p m h1) (B1 - {m})"
      using merge_same[OF B1(1) q(1) pe _ q(3)[symmetric] me B1(4)] True by simp
    ultimately show ?thesis using True same_blocks_trans[OF B1(2)] by (auto simp: eq)
  next
    case False
    then have "in_use h1 (nxt h1 a)" if "a \<in> B1" "a \<noteq> heap_end h1" "\<not> in_use h1 a" for a
      using pred[of a] B1(6) that by auto
    then have "hinv h1 B1" using B1(1) by (auto simp: hinv_loose)
    then show ?thesis using False B1(2) by (auto simp: eq)
  qed
qed


lemma used_mem_bound:
  assumes "block_chain B e nx pv" "U \<subseteq> B - {e}"
  shows "(\<Sum>a \<in> U. nx a - a) \<le> e"
proof -
  have "(\<Sum>a \<in> U. nx a - a) = (\<Sum>a \<in> U. card {a..<nx a})" by simp
  also have "\<dots> = card (\<Union>a \<in> U. {a..<nx a})"
  proof (rule card_UN_disjoint[symmetric])
    show "finite U" using chainD(1)[OF assms(1)] assms(2) finite_subset by blast
    have "{a..<nx a} \<inter> {b..<nx b} = {}" if "a \<in> U" "b \<in> U" "a \<noteq> b" for a b
    proof -
      have "a \<in> B" "b \<in> B" "a \<noteq> e" "b \<noteq> e" using that assms(2) by auto
      from chainD(8)[OF assms(1) this(1,3,2)] chainD(8)[OF assms(1) this(2,4,1)] that(3)
      show ?thesis by auto
    qed
    then show "\<forall>a \<in> U. \<forall>b \<in> U. a \<noteq> b \<longrightarrow> {a..<nx a} \<inter> {b..<nx b} = {}" by blast
  qed simp
  also have "\<dots> \<le> card {..<e}"
  proof (rule card_mono)
    have "nx a \<le> e" if "a \<in> U" for a
      using that assms(2) chainD(6)[OF assms(1), of a] chainD(4)[OF assms(1), of "nx a"] by auto
    then show "(\<Union>a \<in> U. {a..<nx a}) \<subseteq> {..<e}" by fastforce
  qed simp
  finally show ?thesis by simp
qed

lemma live_block:
  assumes "hinv h B" "(p, n) \<in> live h B"
  obtains a where "a \<in> used_blocks h B" "p = heap_ptr h + a + 16" "n = nxt h a - a - 16" "a + 16 \<le> nxt h a"
    "in_heap p h" "header_of p h = a" "nxt h a < 2 ^ 32" "nxt h a - a \<le> used_mem h" "used_mem h < 2 ^ 32"
proof -
  note core = hinvD(1)[OF assms(1)]
  obtain a where a: "a \<in> used_blocks h B" "p = heap_ptr h + a + 16" "n = nxt h a - a - 16"
    using assms(2) by (auto simp: live_def)
  then have aB: "a \<in> B" "a \<noteq> heap_end h" by (auto simp: used_blocks_def)
  have "a + 16 < heap_end h" using chainD(13)[OF coreD(2)[OF core] aB(1)] aB(2) by simp
  moreover have "nxt h a < 2 ^ 32" by (rule core_offset(2)[OF core core_offset(3)[OF core aB]])
  moreover have "used_mem h \<le> heap_end h"
    using used_mem_bound[OF coreD(2)[OF core], of "used_blocks h B"] coreD(4)[OF core] by (auto simp: used_blocks_def)
  moreover have "nxt h a - a \<le> used_mem h"
    unfolding coreD(4)[OF core] by (rule member_le_sum[OF a(1)]) (auto simp: used_blocks_finite[OF core])
  moreover have "header_of p h = a" using core_offset(2)[OF core aB(1)] \<open>a + 16 < heap_end h\<close> coreD(1)[OF core]
    by (simp add: header_of_def a(2) heap_frame_def)
  ultimately show ?thesis
    using that[OF a core_offset(4)[OF core aB]] frame_less[OF coreD(1)[OF core]] by (auto simp: in_heap_def a(2))
qed

lemma live_remove:
  assumes "U = used_blocks h B - {a}" "a \<in> used_blocks h B" "used_blocks h' B' = U" "heap_ptr h' = heap_ptr h"
    and "\<And>b. b \<in> U \<Longrightarrow> nxt h' b = nxt h b"
  shows "live h' B' = live h B - {(heap_ptr h + a + 16, nxt h a - a - 16)}"
proof -
  have "live h' B' = (\<lambda>b. (heap_ptr h + b + 16, nxt h b - b - 16)) ` U"
    unfolding live_def assms(3,4) by (rule image_cong) (use assms(5) in auto)
  also have "\<dots> = live h B - {(heap_ptr h + a + 16, nxt h a - a - 16)}"
    unfolding live_def assms(1) by (auto simp: image_iff)
  finally show ?thesis .
qed

lemma free_live:
  assumes inv: "hinv h B" and p: "(p, n) \<in> live h B"
  shows "\<exists>B'. hinv (rt_free (Some p) h) B' \<and> live (rt_free (Some p) h) B' = live h B - {(p, n)} \<and>
    heap_bytes (rt_free (Some p) h) = heap_bytes h \<and> heap_ptr (rt_free (Some p) h) = heap_ptr h"
proof -
  note core = hinvD(1)[OF inv]
  obtain a where a: "a \<in> used_blocks h B" "p = heap_ptr h + a + 16" "n = nxt h a - a - 16" "a + 16 \<le> nxt h a"
    "in_heap p h" "header_of p h = a" "nxt h a < 2 ^ 32" "nxt h a - a \<le> used_mem h" "used_mem h < 2 ^ 32"
    using live_block[OF inv p] .
  then have aB: "a \<in> B" "a \<noteq> heap_end h" "in_use h a" by (auto simp: used_blocks_def)
  define h1 where "h1 = upd_head a (\<lambda>x. x\<lparr>hm_used := 0, hm_magic := 0\<rparr>) h
    \<lparr>lfree := min a (lfree h), used_mem := used_mem h - (nxt h a - a)\<rparr>"
  have eq: "rt_free (Some p) h = plug_holes a h1"
    using a by (auto simp: rt_free_def Let_def h1_def upd_head_def min_def)
  have heads': "nxt h1 b = nxt h b" "prv h1 b = prv h b" "in_use h1 b = (b \<noteq> a \<and> in_use h b)" for b
    by (auto simp: h1_def upd_head_def)
  have rest: "heap_end h1 = heap_end h" "heap_ptr h1 = heap_ptr h" "mem_size_aligned h1 = mem_size_aligned h"
    "used_mem h1 = used_mem h - (nxt h a - a)" "lfree h1 = min a (lfree h)" "heap_bytes h1 = heap_bytes h"
    by (auto simp: h1_def upd_head_def)
  have used: "used_blocks h1 B = used_blocks h B - {a}" by (auto simp: used_blocks_def rest heads')
  have "(\<Sum>b \<in> used_blocks h B - {a}. nxt h b - b) = used_mem h - (nxt h a - a)"
    using sum.remove[OF used_blocks_finite[OF core] a(1), of "\<lambda>b. nxt h b - b"] coreD(4)[OF core] by simp
  moreover have "heap_frame h1" using coreD(1)[OF core] aB by (auto simp: heap_frame_def rest heads')
  ultimately have "heap_loose h1 B"
    using coreD(2)[OF core] hinvD(2,3)[OF inv] aB by (auto simp: heap_loose_def rest heads' used min_def)
  moreover have "in_use h1 (nxt h1 b)" if "b \<in> B" "b \<noteq> heap_end h1" "\<not> in_use h1 b" "b \<noteq> a" "nxt h1 b \<noteq> a" for b
    using coreD(3)[OF core that(1)] that by (auto simp: rest heads')
  ultimately obtain B' where B': "hinv (plug_holes a h1) B'" "same_blocks h1 B (plug_holes a h1) B'"
    using plug_holes_inv[of h1 B a] aB by (auto simp: rest heads')
  have "live h1 B = live h B - {(p, n)}"
    unfolding a(2,3) by (rule live_remove[OF refl a(1) used rest(2)]) (simp add: heads')
  then show ?thesis
    using B' same_blocks_live[OF B'(2)] rest by (auto simp: eq same_blocks_def)
qed


text \<open>The header cut out of a block in use.\<close>

definition cut_block :: "nat \<Rightarrow> nat \<Rightarrow> nat \<Rightarrow> heap \<Rightarrow> heap" where
  "cut_block a q n h =
    (let h = h\<lparr>used_mem := used_mem h - n\<rparr>;
         h = upd_head q (\<lambda>x. \<lparr>hm_magic = HEAP_MAGIC, hm_used = 0, hm_next = nxt h a, hm_prev = a\<rparr>) h;
         h = upd_head a (\<lambda>x. x\<lparr>hm_next := q\<rparr>) h
     in if hm_next (heads h q) \<noteq> heap_end h then upd_head (hm_next (heads h q)) (\<lambda>x. x\<lparr>hm_prev := q\<rparr>) h else h)"

lemma cut_block_loose:
  assumes inv: "hinv h B" and a: "a \<in> used_blocks h B" and q: "a + 16 \<le> q" "q + 16 < nxt h a" "q mod 8 = 0"
    and h1: "h1 = cut_block a q (nxt h a - q) h"
  shows "heap_loose h1 (insert q B)" "used_blocks h1 (insert q B) = used_blocks h B" "q \<notin> B" "q \<noteq> heap_end h"
    "nxt h1 b = (if b = a then q else if b = q then nxt h a else nxt h b)" "in_use h1 b = (b \<noteq> q \<and> in_use h b)"
    "heap_end h1 = heap_end h" "heap_ptr h1 = heap_ptr h" "heap_bytes h1 = heap_bytes h"
proof -
  note core = hinvD(1)[OF inv]
  have aB: "a \<in> B" "a \<noteq> heap_end h" "in_use h a" using a by (auto simp: used_blocks_def)
  show q': "q \<notin> B" "q \<noteq> heap_end h"
    using chainD(8)[OF coreD(2)[OF core] aB(1,2), of q] q core_offset(5)[OF core aB(1,2)] by auto
  have heads': "nxt h1 = (nxt h)(a := q, q := nxt h a)" "prv h1 q = a" "nxt h a \<noteq> heap_end h \<Longrightarrow> prv h1 (nxt h a) = q"
    "\<And>b. b \<in> B \<Longrightarrow> b \<noteq> nxt h a \<Longrightarrow> prv h1 b = prv h b" "\<And>b. in_use h1 b = (b \<noteq> q \<and> in_use h b)"
    using q q' by (auto simp: h1 cut_block_def Let_def fun_eq_iff)
  have nx: "nxt h1 b = (if b = a then q else if b = q then nxt h a else nxt h b)" for b
    using fun_cong[OF heads'(1), of b] q(1) by auto
  then show "nxt h1 b = (if b = a then q else if b = q then nxt h a else nxt h b)" .
  show "in_use h1 b = (b \<noteq> q \<and> in_use h b)" by (rule heads'(5))
  show rest: "heap_end h1 = heap_end h" "heap_ptr h1 = heap_ptr h" "heap_bytes h1 = heap_bytes h"
    by (auto simp: h1 cut_block_def Let_def)
  have rest': "mem_size_aligned h1 = mem_size_aligned h" "used_mem h1 = used_mem h - (nxt h a - q)" "lfree h1 = lfree h"
    by (auto simp: h1 cut_block_def Let_def)
  have chain: "block_chain (insert q B) (heap_end h) (nxt h1) (prv h1)"
    using heads'(2-4) q by (intro chain_split[OF coreD(2)[OF core] aB(1,2) _ _ _ heads'(1)]) auto
  show used: "used_blocks h1 (insert q B) = used_blocks h B" using q' by (auto simp: used_blocks_def rest heads'(5))
  have "(\<Sum>b \<in> used_blocks h B - {a}. nxt h1 b - b) = (\<Sum>b \<in> used_blocks h B - {a}. nxt h b - b)"
    using q' by (intro sum.cong) (auto simp: nx used_blocks_def)
  then have "(\<Sum>b \<in> used_blocks h B. nxt h1 b - b) = used_mem h - (nxt h a - q)"
    using sum.remove[OF used_blocks_finite[OF core] a, of "\<lambda>b. nxt h b - b"] coreD(4)[OF core]
      sum.remove[OF used_blocks_finite[OF core] a, of "\<lambda>b. nxt h1 b - b"] nx[of a] q by simp
  moreover have "heap_frame h1" using coreD(1)[OF core] q' by (auto simp: heap_frame_def rest rest' heads'(5))
  ultimately show "heap_loose h1 (insert q B)"
    using chain used hinvD(2,3)[OF inv] by (auto simp: heap_loose_def rest rest' heads'(5))
qed

lemma realloc_split_live:
  assumes inv: "hinv h B" and p: "(p, n) \<in> live h B" and new: "newsize + 28 < n" "newsize mod 8 = 0"
  shows "\<exists>B'. hinv (realloc_split (header_of p h) n newsize h) B' \<and>
    live (realloc_split (header_of p h) n newsize h) B' = insert (p, newsize) (live h B - {(p, n)}) \<and>
    heap_bytes (realloc_split (header_of p h) n newsize h) = heap_bytes h"
proof -
  note core = hinvD(1)[OF inv]
  obtain a where a: "a \<in> used_blocks h B" "p = heap_ptr h + a + 16" "n = nxt h a - a - 16" "a + 16 \<le> nxt h a"
    "in_heap p h" "header_of p h = a" "nxt h a < 2 ^ 32" "nxt h a - a \<le> used_mem h" "used_mem h < 2 ^ 32"
    using live_block[OF inv p] .
  then have aB: "a \<in> B" "in_use h a" by (auto simp: used_blocks_def)
  define q where "q = a + 16 + newsize"
  have q: "a + 16 \<le> q" "q + 16 < nxt h a" "n - newsize = nxt h a - q" using new(1) a(3,4) by (auto simp: q_def)
  have q8: "q mod 8 = 0" using core_offset(6)[OF core aB(1)] new(2) unfolding q_def by presburger
  define h1 where "h1 = cut_block a q (nxt h a - q) h"
  note cut = cut_block_loose[OF inv a(1) q(1,2) q8 h1_def]
  have "sub32 (used_mem h) (n - newsize) = used_mem h - (n - newsize)" using a(3,8,9) by (intro sub32_le) auto
  moreover have "mem_size_aligned h + 16 = heap_end h" using coreD(1)[OF core] by (simp add: heap_frame_def)
  ultimately have eq: "realloc_split (header_of p h) n newsize h = plug_holes q h1"
    using q cut(4) by (simp add: realloc_split_def a(6) q_def[symmetric] Let_def h1_def cut_block_def)
  have "in_use h1 (nxt h1 b)"
    if "b \<in> insert q B" "b \<noteq> heap_end h1" "\<not> in_use h1 b" "b \<noteq> q" "nxt h1 b \<noteq> q" for b
    using coreD(3)[OF core, of b] that aB(2) by (auto simp: cut(5-7) split: if_splits)
  then obtain B' where B': "hinv (plug_holes q h1) B'" "same_blocks h1 (insert q B) (plug_holes q h1) B'"
    using plug_holes_inv[OF cut(1), of q] cut(4,6,7) by auto
  have "live h1 (insert q B) = insert (p, newsize) (live h B - {(p, n)})"
  proof -
    have "live h B - {(p, n)} = (\<lambda>b. (heap_ptr h + b + 16, nxt h b - b - 16)) ` (used_blocks h B - {a})"
      by (auto simp: live_def a(2,3) image_iff)
    also have "\<dots> = (\<lambda>b. (heap_ptr h + b + 16, nxt h1 b - b - 16)) ` (used_blocks h B - {a})"
      by (rule image_cong) (use cut(3,5) in \<open>auto simp: used_blocks_def\<close>)
    finally have rest: "live h B - {(p, n)} =
        (\<lambda>b. (heap_ptr h + b + 16, nxt h1 b - b - 16)) ` (used_blocks h B - {a})" .
    have "(p, newsize) = (heap_ptr h + a + 16, nxt h1 a - a - 16)" using cut(5)[of a] by (simp add: a(2) q_def)
    moreover have "used_blocks h B = insert a (used_blocks h B - {a})" using a(1) by auto
    ultimately show ?thesis unfolding live_def[of h1] cut(2,8) rest by (metis (no_types, lifting) image_insert)
  qed
  then show ?thesis
    using B' same_blocks_live[OF B'(2)] cut(8,9) by (auto simp: eq same_blocks_def)
qed



section \<open>Reallocation\<close>

lemma live_apart:
  assumes "hinv h B" "(p, n) \<in> live h B" "(q, m) \<in> live h B" "p \<noteq> q"
  shows "p + n + 16 \<le> q \<or> q + m + 16 \<le> p"
proof -
  note core = hinvD(1)[OF assms(1)]
  obtain a b where a: "a \<in> B" "a \<noteq> heap_end h" "p = heap_ptr h + a + 16" "n = nxt h a - a - 16"
    and b: "b \<in> B" "b \<noteq> heap_end h" "q = heap_ptr h + b + 16" "m = nxt h b - b - 16"
    using assms(2,3) by (auto simp: live_def used_blocks_def)
  have "nxt h b \<le> a \<or> nxt h a \<le> b" using chainD(8)[OF coreD(2)[OF core] b(1,2) a(1)]
      chainD(8)[OF coreD(2)[OF core] a(1,2) b(1)] a(3) b(3) assms(4) by auto
  then show ?thesis
    using core_offset(4)[OF core a(1,2)] core_offset(4)[OF core b(1,2)] a(3,4) b(3,4) by auto
qed

lemma live_range:
  assumes "hinv h B" "(p, n) \<in> live h B"
  shows "p mod 8 = 0" "heap_ptr h + 16 \<le> p" "p + n \<le> heap_ptr h + heap_end h" "p + n + 16 \<le> 2 ^ 32"
proof -
  note core = hinvD(1)[OF assms(1)]
  obtain a where a: "a \<in> B" "a \<noteq> heap_end h" "p = heap_ptr h + a + 16" "n = nxt h a - a - 16"
    using assms(2) by (auto simp: live_def used_blocks_def)
  note o = core_offset[OF core a(1)]
  have "heap_ptr h mod 8 = 0" using coreD(1)[OF core] by (simp add: heap_frame_def)
  then show "p mod 8 = 0" using o(6) unfolding a(3) by presburger
  show "heap_ptr h + 16 \<le> p" "p + n \<le> heap_ptr h + heap_end h" "p + n + 16 \<le> 2 ^ 32"
    using o(4,5)[OF a(2)] coreD(1)[OF core] by (auto simp: a(3,4) heap_frame_def)
qed

lemma unat_address_diff:
  "y < 2 ^ 32 \<Longrightarrow> q < 2 ^ 32 \<Longrightarrow> unat (of_nat y - of_nat q :: u32) = (if q \<le> y then y - q else y + 2 ^ 32 - q)"
  by (simp add: unat_diff_of_nat unat_of_nat take_bit_nat_eq_self)

lemma copy_block:
  assumes "p + n \<le> q \<or> q + m \<le> p" "p + n < 2 ^ 32" "q + m < 2 ^ 32" "k \<le> n" "k \<le> m"
    and "M = rt_memcpy (of_nat q) (of_nat p) (of_nat k) m0"
  shows "i < k \<Longrightarrow> M (of_nat (q + i)) = m0 (of_nat (p + i))"
    "y < 2 ^ 32 \<Longrightarrow> y < q \<or> q + m \<le> y \<Longrightarrow> M (of_nat y) = m0 (of_nat y)"
proof -
  have k: "unat (of_nat k :: u32) = k" using assms(2,4) by (simp add: unat_of_nat take_bit_nat_eq_self)
  have "unat (of_nat p - of_nat q :: u32) + k \<le> 2 ^ 32"
    using assms(1-5) unat_address_diff[of p q] by auto
  then have M: "M = blit (of_nat q) (of_nat p) k m0" using assms(6) rt_memcpy_blit[of "of_nat p" "of_nat q" "of_nat k"] k by simp
  show "M (of_nat (q + i)) = m0 (of_nat (p + i))" if "i < k"
    using that assms(3,5) unat_address_diff[of "q + i" q] by (simp add: M blit_def)
  show "M (of_nat y) = m0 (of_nat y)" if "y < 2 ^ 32" "y < q \<or> q + m \<le> y"
    using that assms(3,5) unat_address_diff[of y q] by (auto simp: M blit_def)
qed

definition kept :: "heap \<Rightarrow> heap \<Rightarrow> (nat \<times> nat) set \<Rightarrow> bool" where
  "kept h h' L \<longleftrightarrow> (\<forall>(x, k) \<in> L. \<forall>i < k. heap_bytes h' (of_nat (x + i)) = heap_bytes h (of_nat (x + i)))"

lemma realloc_grow:
  assumes inv: "hinv h B" and p: "(p, n) \<in> live h B"
    and q: "hinv h1 B1" "heap_bytes h1 = heap_bytes h" "s \<le> m" "live h1 B1 = insert (q, m) (live h B)" "q \<noteq> p"
      "q \<notin> fst ` live h B" "k = (if n < s then n else s)"
    and h2: "h2 = rt_free (Some p) (h1\<lparr>heap_bytes := rt_memcpy (of_nat q) (of_nat p) (of_nat k) (heap_bytes h1)\<rparr>)"
  shows "\<exists>B'. hinv h2 B' \<and> live h2 B' = insert (q, m) (live h B - {(p, n)}) \<and>
    (\<forall>i. i < n \<and> i < s \<longrightarrow> heap_bytes h2 (of_nat (q + i)) = heap_bytes h (of_nat (p + i))) \<and>
    kept h h2 (live h B - {(p, n)})"
proof -
  define M where "M = rt_memcpy (of_nat q) (of_nat p) (of_nat k) (heap_bytes h)"
  have inv': "hinv (h1\<lparr>heap_bytes := M\<rparr>) B1" "(p, n) \<in> live (h1\<lparr>heap_bytes := M\<rparr>) B1" using q p by simp_all
  obtain B' where B': "hinv h2 B'" "live h2 B' = insert (q, m) (live h B) - {(p, n)}" "heap_bytes h2 = M"
    using free_live[OF inv'] q(2,4) h2 by (auto simp: M_def)
  have qm: "(q, m) \<in> live h1 B1" using q(4) by simp
  have old: "(x, j) \<in> live h1 B1" "x \<noteq> q" if "(x, j) \<in> live h B" for x j using q(4,6) that by force+
  have apart: "x + j + 16 \<le> q \<or> q + m + 16 \<le> x" "x + j < 2 ^ 32" "q + m < 2 ^ 32" if "(x, j) \<in> live h B" for x j
    using live_apart[OF q(1) old(1)[OF that] qm old(2)[OF that]] live_range(4)[OF q(1) old(1)[OF that]]
      live_range(4)[OF q(1) qm] by linarith+
  have "p + n \<le> q \<or> q + m \<le> p" "k \<le> n" "k \<le> m" using apart(1)[OF p] q(3,7) by auto
  note cp = copy_block[OF this(1) apart(2,3)[OF p] this(2,3) M_def]
  have "heap_bytes h2 (of_nat (q + i)) = heap_bytes h (of_nat (p + i))" if "i < n" "i < s" for i
    using cp(1)[of i] that q(7) B'(3) by simp
  moreover have "kept h h2 (live h B - {(p, n)})"
  proof -
    have "M (of_nat (x + i)) = heap_bytes h (of_nat (x + i))" if "(x, j) \<in> live h B" "i < j" for x j i
      by (rule cp(2)) (use apart[OF that(1)] that(2) in linarith)+
    then show ?thesis unfolding kept_def B'(3) by blast
  qed
  moreover have "insert (q, m) (live h B) - {(p, n)} = insert (q, m) (live h B - {(p, n)})" using q(5) by auto
  ultimately show ?thesis using B'(1,2) by auto
qed


lemma realloc_result:
  assumes inv: "hinv h B" and p: "(p, n) \<in> live h B" and s: "s = unat (RT_ALIGN req RT_ALIGN_SIZE)"
  shows "rt_realloc (Some p) req h = Some (None, h) \<or>
    (\<exists>q m h' B'. rt_realloc (Some p) req h = Some (Some q, h') \<and> hinv h' B' \<and> s \<le> m \<and>
      live h' B' = insert (q, m) (live h B - {(p, n)}) \<and>
      (\<forall>i. i < n \<and> i < s \<longrightarrow> heap_bytes h' (of_nat (q + i)) = heap_bytes h (of_nat (p + i))) \<and>
      kept h h' (live h B - {(p, n)}))"
proof -
  obtain a where a: "a \<in> used_blocks h B" "p = heap_ptr h + a + 16" "n = nxt h a - a - 16" "a + 16 \<le> nxt h a"
    "in_heap p h" "header_of p h = a" "nxt h a < 2 ^ 32"
    using live_block[OF inv p] by metis
  have sz: "sub32 (sub32 (nxt h (header_of p h)) (header_of p h)) 16 = n" using a(3,4,6,7) by simp
  have s8: "s mod 8 = 0" "s < 2 ^ 32" 
    using unat_RT_ALIGN(1)[of req] unsigned_less[of "RT_ALIGN req 8", where 'a = nat] by (auto simp: s)
  consider "mem_size_aligned h < s" | "\<not> mem_size_aligned h < s" "n = s"
    | "\<not> mem_size_aligned h < s" "n \<noteq> s" "s + 28 < n" | "\<not> mem_size_aligned h < s" "n \<noteq> s" "\<not> s + 28 < n" by linarith
  then show ?thesis
  proof cases
    case 1
    then show ?thesis by (simp add: rt_realloc_def s Let_def)
  next
    case 2
    then have "rt_realloc (Some p) req h = Some (Some p, h)"
      using a(5) sz by (simp add: rt_realloc_def s[symmetric] Let_def)
    then show ?thesis using inv p 2 by (intro disjI2 exI[of _ p] exI[of _ n]) (auto simp: kept_def)
  next
    case 3
    then have "rt_realloc (Some p) req h = Some (Some p, realloc_split (header_of p h) n s h)"
      using a(5) sz by (simp add: rt_realloc_def s[symmetric] Let_def)
    moreover obtain B' where "hinv (realloc_split (header_of p h) n s h) B'"
      "live (realloc_split (header_of p h) n s h) B' = insert (p, s) (live h B - {(p, n)})"
      "heap_bytes (realloc_split (header_of p h) n s h) = heap_bytes h"
      using realloc_split_live[OF inv p 3(3) s8(1)] by blast
    ultimately show ?thesis by (auto simp: kept_def)
  next
    case 4
    have w: "unat (of_nat s :: u32) = s" using s8(2) by (simp add: unat_of_nat take_bit_nat_eq_self)
    then have le: "s \<le> rounded (of_nat s)" using rounded_bounds(3)[of "of_nat s"] s8 by auto
    have eq: "rt_realloc (Some p) req h =
        (case rt_malloc (of_nat s) h of
           None \<Rightarrow> None
         | Some (None, h) \<Rightarrow> Some (None, h)
         | Some (Some q, h) \<Rightarrow>
             Some (Some q, rt_free (Some p) (h\<lparr>heap_bytes := rt_memcpy (of_nat q) (of_nat p)
               (of_nat (if n < s then n else s)) (heap_bytes h)\<rparr>)))"
      using 4 a(5) unfolding rt_realloc_def s[symmetric] Let_def by (simp add: sz cong: option.case_cong prod.case_cong)
    from malloc_result[OF inv, of "of_nat s"] show ?thesis
    proof (elim disjE exE conjE bexE)
      assume "rt_malloc (of_nat s) h = Some (None, h)"
      then show ?thesis by (simp add: eq)
    next
      fix q m h1 B1 b
      assume m: "rt_malloc (of_nat s) h = Some (Some q, h1)" "hinv h1 B1" "heap_bytes h1 = heap_bytes h"
        "rounded (of_nat s) \<le> m" "live h1 B1 = insert (q, m) (live h B)"
        "b \<in> B" "b \<noteq> heap_end h" "\<not> in_use h b" "q = heap_ptr h + b + 16"
      have fresh: "q \<notin> fst ` live h B" using m(8,9) by (auto simp: live_def used_blocks_def)
      then have "q \<noteq> p" using p by force
      from realloc_grow[OF inv p m(2,3) order_trans[OF le m(4)] m(5) this fresh refl refl] m(1) le m(4)
      show ?thesis unfolding eq by fastforce
    qed
  qed
qed



section \<open>Runs of the allocator\<close>

definition block_size :: "heap \<Rightarrow> nat \<Rightarrow> nat" where
  "block_size h p = hm_next (heads h (header_of p h)) - header_of p h - 16"

text \<open>
  Initialisation, then calls that pass back addresses they were given; \<open>L\<close> has the blocks in use.
  Between the calls the program may write to any byte of the blocks.
\<close>

inductive heap_run :: "heap \<Rightarrow> (nat \<times> nat) set \<Rightarrow> bool" where
  run_init: "unat (RT_ALIGN b RT_ALIGN_SIZE) + 48 \<le> unat (RT_ALIGN_DOWN e RT_ALIGN_SIZE) \<Longrightarrow> used_mem h = 0
    \<Longrightarrow> heap_run (rt_system_heap_init b e h) {}"
| run_malloc: "heap_run h L \<Longrightarrow> rt_malloc req h = Some (r, h')
    \<Longrightarrow> heap_run h' (case r of None \<Rightarrow> L | Some p \<Rightarrow> insert (p, block_size h' p) L)"
| run_calloc: "heap_run h L \<Longrightarrow> rt_calloc count sz h = Some (r, h')
    \<Longrightarrow> heap_run h' (case r of None \<Rightarrow> L | Some p \<Rightarrow> insert (p, block_size h' p) L)"
| run_realloc: "heap_run h L \<Longrightarrow> (p, n) \<in> L \<Longrightarrow> rt_realloc (Some p) req h = Some (r, h')
    \<Longrightarrow> heap_run h' (case r of None \<Rightarrow> L | Some q \<Rightarrow> insert (q, block_size h' q) (L - {(p, n)}))"
| run_free: "heap_run h L \<Longrightarrow> (p, n) \<in> L \<Longrightarrow> heap_run (rt_free (Some p) h) (L - {(p, n)})"
| run_write: "heap_run h L \<Longrightarrow> heap_run (h\<lparr>heap_bytes := y\<rparr>) L"

lemma heap_init_inv:
  assumes "unat (RT_ALIGN b RT_ALIGN_SIZE) + 48 \<le> unat (RT_ALIGN_DOWN e RT_ALIGN_SIZE)" "used_mem h0 = 0"
  shows "\<exists>B. hinv (rt_system_heap_init b e h0) B \<and> live (rt_system_heap_init b e h0) B = {} \<and>
    B = {0, heap_end (rt_system_heap_init b e h0)} \<and> nxt (rt_system_heap_init b e h0) 0 = heap_end (rt_system_heap_init b e h0) \<and>
    heap_end (rt_system_heap_init b e h0) + 16 + unat (RT_ALIGN b RT_ALIGN_SIZE) = unat (RT_ALIGN_DOWN e RT_ALIGN_SIZE)"
proof -
  define h where "h = rt_system_heap_init b e h0"
  define x where "x = unat (RT_ALIGN b RT_ALIGN_SIZE)"
  define y where "y = unat (RT_ALIGN_DOWN e RT_ALIGN_SIZE)"
  have xy: "x + 48 \<le> y" "x mod 8 = 0" "y mod 8 = 0" "y < 2 ^ 32"
    using assms(1) unat_RT_ALIGN(1)[of b] unsigned_less[of "RT_ALIGN_DOWN e 8", where 'a = nat] unat_and_not_7[of e]
    by (auto simp: x_def y_def RT_ALIGN_DOWN_def)
  define t where "t = y - x - 16"
  have t: "32 \<le> t" "t mod 8 = 0" "t + 16 + x = y" "y - x - 32 + 16 = t"
    using xy(1) xy(2,3) unfolding t_def by (auto simp: mod_diff_eq[symmetric] dvd_diff_nat mod_eq_0_iff_dvd)
  have h: "heap_end h = t" "nxt h 0 = t" "prv h 0 = 0" "\<not> in_use h 0" "in_use h t" "lfree h = 0" "used_mem h = 0"
    "mem_size_aligned h = t - 16" "heap_ptr h = x"
    using xy(1) t assms(2) by (auto simp: h_def rt_system_heap_init_def Let_def x_def[symmetric] y_def[symmetric] t_def)
  have used: "used_blocks h {0, t} = {}" using h(1,4) by (auto simp: used_blocks_def intro!: gr0I)
  have "block_chain {0, t} t (nxt h) (prv h)" using t h by (auto simp: block_chain_def)
  moreover have "heap_frame h" using t h xy by (auto simp: heap_frame_def)
  ultimately have "hinv h {0, t}" using h used by (auto simp: hinv_def heap_core_def)
  then show ?thesis using h t used by (auto simp: live_def h_def[symmetric] x_def[symmetric] y_def[symmetric])
qed

lemma live_size:
  assumes "hinv h B" "(p, n) \<in> live h B"
  shows "n = block_size h p"
proof -
  obtain a where "n = nxt h a - a - 16" "header_of p h = a" using live_block[OF assms] by metis
  then show ?thesis by (simp add: block_size_def)
qed

lemma calloc_result:
  assumes "rt_calloc count sz h = Some (r, h')"
  obtains h1 y where "rt_malloc (count * sz) h = Some (r, h1)" "h' = h1\<lparr>heap_bytes := y\<rparr>"
proof -
  from assms obtain h1 where h1: "rt_malloc (count * sz) h = Some (r, h1)"
    and h': "h' = (case r of None \<Rightarrow> h1 | Some p \<Rightarrow> h1\<lparr>heap_bytes := rt_memset (of_nat p) 0 (count * sz) (heap_bytes h1)\<rparr>)"
    by (auto simp: rt_calloc_def split: option.splits)
  show thesis
  proof (cases r)
    case None
    then have "h' = h1\<lparr>heap_bytes := heap_bytes h1\<rparr>" using h' by simp
    then show thesis using that h1 by blast
  next
    case (Some p)
    then show thesis using that h1 h' by auto
  qed
qed

lemma malloc_live:
  assumes "hinv h B" "rt_malloc req h = Some (r, h')"
  shows "\<exists>B'. hinv h' B' \<and> live h' B' = (case r of None \<Rightarrow> live h B | Some p \<Rightarrow> insert (p, block_size h' p) (live h B))"
proof -
  from malloc_result[OF assms(1), of req] show ?thesis
  proof (elim disjE exE conjE)
    fix p n h1 B'
    assume m: "rt_malloc req h = Some (Some p, h1)" "hinv h1 B'" "live h1 B' = insert (p, n) (live h B)"
    then have "n = block_size h1 p" by (intro live_size[OF m(2)]) simp
    then show ?thesis using m assms(2) by auto
  qed (use assms in auto)
qed

lemma block_size_bytes [simp]: "block_size (h\<lparr>heap_bytes := y\<rparr>) = block_size h"
  by (simp add: block_size_def header_of_def fun_eq_iff)

lemma heap_run_inv: "heap_run h L \<Longrightarrow> \<exists>B. hinv h B \<and> live h B = L"
proof (induction rule: heap_run.induct)
  case (run_init b e h)
  then show ?case using heap_init_inv by blast
next
  case (run_malloc h L req r h')
  then obtain B where "hinv h B" "live h B = L" by blast
  then show ?case using malloc_live[OF _ run_malloc.hyps(2)] by metis
next
  case (run_calloc h L count sz r h')
  obtain h1 y where "rt_malloc (count * sz) h = Some (r, h1)" "h' = h1\<lparr>heap_bytes := y\<rparr>"
    using calloc_result[OF run_calloc.hyps(2)] .
  moreover obtain B where "hinv h B" "live h B = L" using run_calloc.IH by blast
  ultimately show ?case using malloc_live[of h B "count * sz" r h1] by (cases r) auto
next
  case (run_realloc h L p n req r h')
  then obtain B where B: "hinv h B" "live h B = L" by blast
  with run_realloc.hyps(2) have p: "(p, n) \<in> live h B" by simp
  from realloc_result[OF B(1) p refl, of req] show ?case
  proof (elim disjE exE conjE)
    fix q m h2 B'
    assume m: "rt_realloc (Some p) req h = Some (Some q, h2)" "hinv h2 B'" "live h2 B' = insert (q, m) (live h B - {(p, n)})"
    then have "m = block_size h2 q" by (intro live_size[OF m(2)]) simp
    then show ?case using m run_realloc.hyps(3) B(2) by auto
  qed (use run_realloc.hyps(3) B in auto)
next
  case (run_free h L p n)
  then show ?case using free_live by blast
next
  case (run_write h L y)
  then show ?case by auto
qed



section \<open>Properties\<close>

definition demo_heap :: heap where
  "demo_heap = rt_system_heap_init 0x20000004 0x20001000
    \<lparr>heap_ptr = 0, heap_end = 0, lfree = 0, mem_size_aligned = 0, used_mem = 0, max_mem = 0,
     heads = (\<lambda>_. \<lparr>hm_magic = 0, hm_used = 0, hm_next = 0, hm_prev = 0\<rparr>), heap_bytes = (\<lambda>_. 0)\<rparr>"

lemma demo_heap_fields:
  "heap_run demo_heap {}" "lfree demo_heap = 0" "heap_end demo_heap = 0xFE8" "mem_size_aligned demo_heap = 0xFD8"
  "nxt demo_heap 0 = 0xFE8" "\<not> in_use demo_heap 0"
  unfolding demo_heap_def
  by (rule heap_run.run_init) (simp_all add: rt_system_heap_init_def RT_ALIGN_def RT_ALIGN_DOWN_def Let_def)

lemma demo_room: "hinv demo_heap B \<Longrightarrow> \<not> no_room 20 demo_heap B"
  using chainD(2)[OF coreD(2)[OF hinvD(1)]] demo_heap_fields
  by (fastforce simp: no_room_def rounded_def RT_ALIGN_def)

lemma demo_block: "\<exists>h p n. heap_run h {(p, n)} \<and> 20 \<le> n"
proof -
  obtain B where B: "hinv demo_heap B" "live demo_heap B = {}" using heap_run_inv[OF demo_heap_fields(1)] by blast
  obtain p n h' B' where m: "rt_malloc 20 demo_heap = Some (Some p, h')" "hinv h' B'" "rounded 20 \<le> n"
    "live h' B' = {(p, n)}"
    using malloc_result[OF B(1), of 20] demo_room[OF B(1)] B(2) by auto
  have "n = block_size h' p" by (rule live_size[OF m(2)]) (simp add: m(4))
  then show ?thesis
    using heap_run.run_malloc[OF demo_heap_fields(1) m(1)] m(3) rounded_bounds(3)[of 20]
    by (intro exI[of _ h'] exI[of _ p] exI[of _ n]) simp
qed

text \<open>C33: In every state of the system heap the blocks in use are aligned to 8 bytes, lie inside the
  heap and do not overlap each other or a header; the number of bytes reported as used is exactly
  that of these blocks and their headers, and the next request returns.\<close>

theorem heap_sound:
  assumes "heap_run h L"
  shows "(\<forall>(p, n) \<in> L. p mod 8 = 0 \<and> heap_ptr h + 16 \<le> p \<and> p + n \<le> heap_ptr h + heap_end h) \<and>
    (\<forall>(p, n) \<in> L. \<forall>(q, m) \<in> L. (p, n) \<noteq> (q, m) \<longrightarrow> p + n + 16 \<le> q \<or> q + m + 16 \<le> p) \<and>
    fst (snd (rt_memory_info h)) = (\<Sum>(p, n) \<in> L. n + 16) \<and> (\<exists>r h'. rt_malloc req h = Some (r, h'))"
proof -
  obtain B where B: "hinv h B" "live h B = L" using heap_run_inv[OF assms] by blast
  note core = hinvD(1)[OF B(1)]
  have "p + n + 16 \<le> q \<or> q + m + 16 \<le> p" if "(p, n) \<in> L" "(q, m) \<in> L" "(p, n) \<noteq> (q, m)" for p n q m
  proof -
    have "p \<noteq> q" using live_size[OF B(1)] that B(2) by metis
    then show ?thesis using live_apart[OF B(1)] that B(2) by blast
  qed
  moreover have "(\<Sum>(p, n) \<in> L. n + 16) = (\<Sum>a \<in> used_blocks h B. nxt h a - a - 16 + 16)"
    unfolding B(2)[symmetric] live_def by (subst sum.reindex) (auto simp: inj_on_def)
  moreover have "\<dots> = used_mem h"
    unfolding coreD(4)[OF core] by (rule sum.cong) (use core_offset(4)[OF core] in \<open>auto simp: used_blocks_def\<close>)
  moreover have "\<exists>r h'. rt_malloc req h = Some (r, h')" using malloc_result[OF B(1), of req] by auto
  ultimately show ?thesis
    using live_range[OF B(1)] B(2) by (auto simp: rt_memory_info_def)
qed

theorem heap_sound_witness:
  "\<exists>h p n. heap_run h {(p, n)} \<and> 20 \<le> n \<and> p mod 8 = 0 \<and> fst (snd (rt_memory_info h)) = n + 16"
proof -
  obtain h p n where "heap_run h {(p, n)}" "20 \<le> n" using demo_block by blast
  then show ?thesis using heap_sound[of h "{(p, n)}"] by (intro exI[of _ h] exI[of _ p] exI[of _ n]) simp
qed

text \<open>C34: An allocation returns a block that was free, at least as large as requested, and leaves the
  bytes of the heap alone; it fails without a change only when no free block from the lowest
  free one on can hold the rounded size strictly before the end of the heap.\<close>

theorem malloc_exact:
  assumes "heap_run h L" "unat req \<le> 2 ^ 32 - 8"
  shows "\<exists>r h'. rt_malloc req h = Some (r, h') \<and> heap_bytes h' = heap_bytes h \<and>
    (case r of
       None \<Rightarrow> h' = h \<and> (\<exists>B. hinv h B \<and> no_room req h B)
     | Some p \<Rightarrow> unat req \<le> block_size h' p \<and> (\<forall>(q, m) \<in> L. p + block_size h' p + 16 \<le> q \<or> q + m + 16 \<le> p) \<and>
         heap_run h' (insert (p, block_size h' p) L))"
proof -
  obtain B where B: "hinv h B" "live h B = L" using heap_run_inv[OF assms(1)] by blast
  from malloc_result[OF B(1), of req] show ?thesis
  proof (elim disjE exE conjE bexE)
    fix p n h' B' a
    assume m: "rt_malloc req h = Some (Some p, h')" "hinv h' B'" "heap_bytes h' = heap_bytes h" "rounded req \<le> n"
      "live h' B' = insert (p, n) (live h B)" "a \<in> B" "\<not> in_use h a" "p = heap_ptr h + a + 16"
    have n: "n = block_size h' p" by (rule live_size[OF m(2)]) (simp add: m(5))
    have "p + n + 16 \<le> q \<or> q + k + 16 \<le> p" if "(q, k) \<in> L" for q k
    proof -
      have "p \<noteq> q" using that B(2) m(7,8) by (auto simp: live_def used_blocks_def)
      then show ?thesis using live_apart[OF m(2), of p n q k] that B(2) m(5) by auto
    qed
    then show ?thesis
      using m rounded_bounds(3)[OF assms(2)] n heap_run.run_malloc[OF assms(1) m(1)] by auto
  qed (use B in auto)
qed

theorem malloc_exact_witness:
  "\<exists>p h'. rt_malloc 20 demo_heap = Some (Some p, h') \<and> 20 \<le> block_size h' p"
  using malloc_exact[OF demo_heap_fields(1), of 20] demo_room by (auto split: option.splits)

text \<open>C35: Resizing a block returns, and when it succeeds the new block holds the old contents up to the
  smaller of the two sizes and every other block in use keeps all its bytes; when it fails nothing
  has changed.\<close>

theorem realloc_keeps_contents:
  assumes "heap_run h L" "(p, n) \<in> L"
  shows "\<exists>r h'. rt_realloc (Some p) req h = Some (r, h') \<and>
    (case r of
       None \<Rightarrow> h' = h
     | Some q \<Rightarrow>
         unat (RT_ALIGN req RT_ALIGN_SIZE) \<le> block_size h' q \<and> heap_run h' (insert (q, block_size h' q) (L - {(p, n)})) \<and>
         (\<forall>i. i < n \<and> i < unat (RT_ALIGN req RT_ALIGN_SIZE) \<longrightarrow>
           heap_bytes h' (of_nat (q + i)) = heap_bytes h (of_nat (p + i))) \<and>
         (\<forall>(x, k) \<in> L - {(p, n)}. \<forall>i < k. heap_bytes h' (of_nat (x + i)) = heap_bytes h (of_nat (x + i))))"
proof -
  obtain B where B: "hinv h B" "live h B = L" using heap_run_inv[OF assms(1)] by blast
  with assms(2) have p: "(p, n) \<in> live h B" by simp
  from realloc_result[OF B(1) p refl, of req] show ?thesis
  proof (elim disjE exE conjE)
    fix q m h' B'
    assume m: "rt_realloc (Some p) req h = Some (Some q, h')" "hinv h' B'" "unat (RT_ALIGN req 8) \<le> m"
      "live h' B' = insert (q, m) (live h B - {(p, n)})" "kept h h' (live h B - {(p, n)})"
      "\<forall>i. i < n \<and> i < unat (RT_ALIGN req 8) \<longrightarrow> heap_bytes h' (of_nat (q + i)) = heap_bytes h (of_nat (p + i))"
    have "m = block_size h' q" by (rule live_size[OF m(2)]) (simp add: m(4))
    then show ?thesis
      using m(1,3,5,6) heap_run.run_realloc[OF assms m(1)] B(2) by (auto simp: kept_def)
  qed simp
qed

theorem realloc_keeps_contents_witness:
  "\<exists>h p n r h'. heap_run h {(p, n)} \<and> rt_realloc (Some p) 100 h = Some (r, h')"
proof -
  obtain h p n where h: "heap_run h {(p, n)}" using demo_block by blast
  from realloc_keeps_contents[OF h, of p n 100] h show ?thesis by blast
qed

end
