(* ===== verification/Mempool.thy ===== *)
theory Mempool
  imports Semaphore Mem
begin

text \<open>
  Memory pools (\<^verbatim>\<open>src/mempool.c\<close>): blocks of one size, each behind a pointer that links the free
  blocks and names the pool of an allocated one.  A thread that finds the pool empty waits on the
  list \<open>Waiting (MemPoolObj n)\<close> of the kernel.  Addresses are natural numbers; the pool of
  \<^verbatim>\<open>rt_mp_create\<close> is a block of the system heap.
\<close>


section \<open>State\<close>

text \<open>What the pointer of a block, or the list of the pool, can be.\<close>

datatype mp_ptr = Mp_Null | Mp_Block nat | Mp_Pool nat

record rt_mempool =
  start_address :: nat
  mp_size :: u32
  mp_block_size :: u32
  block_list :: mp_ptr
  block_total_count :: u32
  block_free_count :: u32
  suspend_thread_count :: u32
  block_ptr :: "nat \<Rightarrow> mp_ptr"

datatype mp_outcome = Mp_Returned "nat option" | Mp_Blocked


section \<open>Operations\<close>

text \<open>The address of a block, and the loop that links the free blocks.  Without a block the last store of
  the code is in front of the pool; the functions that call the loop record that access.\<close>

definition block_at :: "nat \<Rightarrow> u32 \<Rightarrow> nat \<Rightarrow> nat" where
  "block_at start bsize i = start + i * (unat bsize + 4)"

definition link_blocks :: "nat \<Rightarrow> u32 \<Rightarrow> nat \<Rightarrow> (nat \<Rightarrow> mp_ptr) \<Rightarrow> nat \<Rightarrow> mp_ptr" where
  "link_blocks start bsize cnt w =
    (let w = fold (\<lambda>i w. w(block_at start bsize i := Mp_Block (block_at start bsize (i + 1)))) [0..<cnt] w
     in if cnt = 0 then w else w(block_at start bsize (cnt - 1) := Mp_Null))"

definition new_pool :: "nat \<Rightarrow> u32 \<Rightarrow> u32 \<Rightarrow> u32 \<Rightarrow> (nat \<Rightarrow> mp_ptr) \<Rightarrow> rt_mempool" where
  "new_pool start sz bsize cnt w =
    \<lparr>start_address = start, mp_size = sz, mp_block_size = bsize, block_list = Mp_Block start,
     block_total_count = cnt, block_free_count = cnt, suspend_thread_count = 0,
     block_ptr = link_blocks start bsize (unat cnt) w\<rparr>"

definition rt_mp_init ::
  "nat \<Rightarrow> string \<Rightarrow> nat \<Rightarrow> u32 \<Rightarrow> u32 \<Rightarrow> (nat \<Rightarrow> mp_ptr) \<Rightarrow> 'a kernel_scheme \<Rightarrow> rt_mempool \<times> 'a kernel_scheme" where
  "rt_mp_init n name start sz bsize w k =
    (let k = rt_object_init (MemPoolObj n) RT_Object_Class_MemPool name k;
         sz = RT_ALIGN_DOWN sz RT_ALIGN_SIZE;
         bsize = RT_ALIGN bsize RT_ALIGN_SIZE;
         cnt = sz div (bsize + 4);
         k = init_waiters (MemPoolObj n) k;
         k = (if cnt = 0 then k\<lparr>k_status := Bad_Access\<rparr> else k)
     in (new_pool start sz bsize cnt w, k))"

definition mp_resume_all ::
  "nat \<Rightarrow> rt_mempool \<Rightarrow> 'a kernel_scheme \<Rightarrow> (rt_mempool \<times> 'a kernel_scheme) option" where
  "mp_resume_all n mp k =
    map_option (Pair (mp\<lparr>suspend_thread_count :=
        suspend_thread_count mp - of_nat (length (tlists k (Waiting (MemPoolObj n))))\<rparr>))
      (rt_ipc_list_resume_all (Waiting (MemPoolObj n)) k)"

definition rt_mp_detach ::
  "nat \<Rightarrow> rt_mempool \<Rightarrow> 'a kernel_scheme \<Rightarrow> (rt_mempool \<times> 'a kernel_scheme) option" where
  "rt_mp_detach n mp k = map_option (map_prod id (rt_object_detach (MemPoolObj n))) (mp_resume_all n mp k)"

text \<open>\<open>None\<close> is a call of the allocator that does not return.\<close>

definition rt_mp_create ::
  "nat option \<Rightarrow> string \<Rightarrow> u32 \<Rightarrow> u32 \<Rightarrow> (nat \<Rightarrow> mp_ptr) \<Rightarrow> heap \<Rightarrow> 'a kernel_scheme
    \<Rightarrow> ((nat \<times> rt_mempool) option \<times> heap \<times> 'a kernel_scheme) option" where
  "rt_mp_create malloc_result name block_count bsize w h k =
    (case rt_object_allocate (map_option MemPoolObj malloc_result) RT_Object_Class_MemPool name k of
       (Some (MemPoolObj n), k) \<Rightarrow>
         let bsize = RT_ALIGN bsize RT_ALIGN_SIZE;
             sz = (bsize + 4) * block_count
         in (case rt_malloc sz h of
               None \<Rightarrow> None
             | Some (None, h) \<Rightarrow> Some (None, h, rt_object_delete (MemPoolObj n) k)
             | Some (Some start, h) \<Rightarrow>
                 let k = init_waiters (MemPoolObj n) k;
                     k = (if block_count = 0 then k\<lparr>k_status := Bad_Access\<rparr> else k)
                 in Some (Some (n, new_pool start sz bsize block_count w), h, k))
     | (_, k) \<Rightarrow> Some (None, h, k))"

definition rt_mp_delete ::
  "nat \<Rightarrow> rt_mempool \<Rightarrow> heap \<Rightarrow> 'a kernel_scheme \<Rightarrow> (heap \<times> 'a kernel_scheme) option" where
  "rt_mp_delete n mp h k =
    map_option (\<lambda>(mp, k). (rt_free (Some (start_address mp)) h,
        rt_object_delete (MemPoolObj n) (k\<lparr>k_freed := PoolMem (MemPoolObj n) # k_freed k\<rparr>)))
      (mp_resume_all n mp k)"

text \<open>The next two steps of an allocation, which the code has twice; a list that does not name a block is
  an access outside the pool.\<close>

definition mp_take :: "nat \<Rightarrow> rt_mempool \<Rightarrow> 'a kernel_scheme \<Rightarrow> mp_outcome \<times> rt_mempool \<times> 'a kernel_scheme" where
  "mp_take n mp k =
    (let mp = mp\<lparr>block_free_count := block_free_count mp - 1\<rparr>
     in case block_list mp of
          Mp_Block a \<Rightarrow>
            (Mp_Returned (Some (a + 4)),
             mp\<lparr>block_list := block_ptr mp a, block_ptr := (block_ptr mp)(a := Mp_Pool n)\<rparr>, k)
        | _ \<Rightarrow> (Mp_Returned None, mp, k\<lparr>k_status := Bad_Access\<rparr>))"

text \<open>A waiting thread goes to the front of the list; its error code is not reset before.\<close>

definition mp_wait :: "nat \<Rightarrow> nat \<Rightarrow> u32 \<Rightarrow> 'a kernel_scheme \<Rightarrow> 'a kernel_scheme" where
  "mp_wait n t time k =
    (let k = snd (rt_thread_suspend t k);
         k = k\<lparr>tlists := push_front (Waiting (MemPoolObj n)) t (tlists k)\<rparr>;
         k = (if 0 < sint time
              then let k = snd (rt_timer_control (ThreadTimer t) (Timer_Set_Time time) k)
                   in snd (rt_timer_start (ThreadTimer t) k)
              else k)
     in rt_schedule k)"

definition rt_mp_alloc ::
  "nat \<Rightarrow> u32 \<Rightarrow> rt_mempool \<Rightarrow> 'a kernel_scheme \<Rightarrow> mp_outcome \<times> rt_mempool \<times> 'a kernel_scheme" where
  "rt_mp_alloc n time mp k =
    (if block_free_count mp \<noteq> 0 then mp_take n mp k
     else if time = 0 then (Mp_Returned None, mp, k)
     else case rt_thread_self k of
            None \<Rightarrow> (Mp_Blocked, mp, k\<lparr>k_status := Bad_Access\<rparr>)
          | Some t \<Rightarrow>
              (Mp_Blocked, mp\<lparr>suspend_thread_count := suspend_thread_count mp + 1\<rparr>, mp_wait n t time k))"

definition rt_mp_alloc_resumed ::
  "nat \<Rightarrow> nat \<Rightarrow> rt_mempool \<Rightarrow> 'a kernel_scheme \<Rightarrow> mp_outcome \<times> rt_mempool \<times> 'a kernel_scheme" where
  "rt_mp_alloc_resumed n t mp k =
    (if th_error (threads k t) \<noteq> RT_EOK then (Mp_Returned None, mp, k) else mp_take n mp k)"

text \<open>
  A block is returned to the pool its pointer names, here \<open>n\<close>.  The first waiting thread is taken
  from the list without a test that there is one.
\<close>

definition rt_mp_free :: "nat \<Rightarrow> nat \<Rightarrow> rt_mempool \<Rightarrow> 'a kernel_scheme \<Rightarrow> rt_mempool \<times> 'a kernel_scheme" where
  "rt_mp_free n block mp k =
    (let a = block - 4
     in if block_ptr mp a \<noteq> Mp_Pool n then (mp, k\<lparr>k_status := Bad_Access\<rparr>)
        else
          let mp = mp\<lparr>block_free_count := block_free_count mp + 1,
                      block_ptr := (block_ptr mp)(a := block_list mp), block_list := Mp_Block a\<rparr>
          in if suspend_thread_count mp > 0
             then case tlists k (Waiting (MemPoolObj n)) of
                    [] \<Rightarrow> (mp, k\<lparr>k_status := Bad_Access\<rparr>)
                  | t # _ \<Rightarrow>
                      let k = upd_thread t (\<lambda>th. th\<lparr>th_error := RT_EOK\<rparr>) k;
                          k = snd (rt_thread_resume t k)
                      in (mp\<lparr>suspend_thread_count := suspend_thread_count mp - 1\<rparr>, rt_schedule k)
             else (mp, k))"


section \<open>The blocks of a pool\<close>

definition pool_blocks :: "rt_mempool \<Rightarrow> nat set" where
  "pool_blocks mp = block_at (start_address mp) (mp_block_size mp) ` {..<unat (block_total_count mp)}"

primrec free_chain :: "(nat \<Rightarrow> mp_ptr) \<Rightarrow> mp_ptr \<Rightarrow> nat list \<Rightarrow> bool" where
  "free_chain w p [] \<longleftrightarrow> p = Mp_Null"
| "free_chain w p (a # as) \<longleftrightarrow> p = Mp_Block a \<and> free_chain w (w a) as"

text \<open>The free blocks \<open>fs\<close>, in the order of the list, and the allocated blocks \<open>A\<close> partition the pool.\<close>

definition pool_ok :: "nat \<Rightarrow> rt_mempool \<Rightarrow> nat list \<Rightarrow> nat set \<Rightarrow> bool" where
  "pool_ok n mp fs A \<longleftrightarrow>
    free_chain (block_ptr mp) (block_list mp) fs \<and> distinct fs \<and> set fs \<inter> A = {} \<and>
    set fs \<union> A = pool_blocks mp \<and> (\<forall>a\<in>A. block_ptr mp a = Mp_Pool n) \<and>
    block_free_count mp = of_nat (length fs)"

text \<open>The blocks, each with its pointer, lie inside the memory of the pool.\<close>

definition pool_in_bounds :: "rt_mempool \<Rightarrow> bool" where
  "pool_in_bounds mp \<longleftrightarrow>
    unat (block_total_count mp) * (unat (mp_block_size mp) + 4) \<le> unat (mp_size mp)"

lemma block_at_inj [simp]: "block_at s b i = block_at s b j \<longleftrightarrow> i = j"
  by (simp add: block_at_def)

lemma card_pool_blocks: "card (pool_blocks mp) = unat (block_total_count mp)"
  by (simp add: pool_blocks_def card_image inj_on_def)

lemma finite_pool_blocks [simp]: "finite (pool_blocks mp)" by (simp add: pool_blocks_def)

lemma block_in_bounds:
  assumes "pool_in_bounds mp" "a \<in> pool_blocks mp"
  shows "start_address mp \<le> a" "a + 4 + unat (mp_block_size mp) \<le> start_address mp + unat (mp_size mp)"
proof -
  obtain i where i: "i < unat (block_total_count mp)" "a = block_at (start_address mp) (mp_block_size mp) i"
    using assms(2) by (auto simp: pool_blocks_def)
  show "start_address mp \<le> a" using i by (simp add: block_at_def)
  have "(i + 1) * (unat (mp_block_size mp) + 4) \<le> unat (block_total_count mp) * (unat (mp_block_size mp) + 4)"
    using i(1) by (intro mult_right_mono) auto
  then show "a + 4 + unat (mp_block_size mp) \<le> start_address mp + unat (mp_size mp)"
    using assms(1) i(2) by (simp add: block_at_def pool_in_bounds_def)
qed

lemma blocks_apart:
  assumes "a \<in> pool_blocks mp" "b \<in> pool_blocks mp" "a < b"
  shows "a + 4 + unat (mp_block_size mp) \<le> b"
proof -
  obtain i j where ij: "a = block_at (start_address mp) (mp_block_size mp) i"
    "b = block_at (start_address mp) (mp_block_size mp) j" using assms(1,2) by (auto simp: pool_blocks_def)
  then have "i < j" using assms(3) by (simp add: block_at_def)
  then have "(i + 1) * (unat (mp_block_size mp) + 4) \<le> j * (unat (mp_block_size mp) + 4)"
    by (intro mult_right_mono) auto
  then show ?thesis using ij by (simp add: block_at_def)
qed

lemma free_chain_upd: "a \<notin> set fs \<Longrightarrow> free_chain (w(a := p)) q fs = free_chain w q fs"
  by (induction fs arbitrary: q) auto

lemma link_fold:
  "fold (\<lambda>i w. w(block_at s b i := Mp_Block (block_at s b (i + 1)))) [0..<m] w (block_at s b j) =
    (if j < m then Mp_Block (block_at s b (j + 1)) else w (block_at s b j))"
  by (induction m) (auto simp: less_Suc_eq)

lemma link_blocks_at:
  "j < cnt \<Longrightarrow> link_blocks s b cnt w (block_at s b j) =
    (if j = cnt - 1 then Mp_Null else Mp_Block (block_at s b (j + 1)))"
  using link_fold[of s b cnt w j] by (auto simp: link_blocks_def Let_def)

lemma link_blocks_chain:
  "i < cnt \<Longrightarrow> free_chain (link_blocks s b cnt w) (Mp_Block (block_at s b i)) (map (block_at s b) [i..<cnt])"
proof (induction "cnt - i" arbitrary: i)
  case (Suc m)
  have u: "[i..<cnt] = i # [Suc i..<cnt]" using Suc.prems by (simp add: upt_conv_Cons)
  show ?case
  proof (cases "Suc i < cnt")
    case True
    then show ?thesis using Suc(1)[of "Suc i"] Suc(2) by (simp add: u link_blocks_at)
  next
    case False
    then have "Suc i = cnt" using Suc.prems by simp
    then show ?thesis using link_blocks_at[of i cnt s b w] by (simp add: u)
  qed
qed simp

lemma new_pool_ok:
  assumes "cnt \<noteq> 0"
  shows "pool_ok n (new_pool s sz b cnt w) (map (block_at s b) [0..<unat cnt]) {}"
proof -
  have "0 < unat cnt" using assms by (simp add: unat_gt_0)
  from link_blocks_chain[OF this, of s b w] show ?thesis
    by (simp add: pool_ok_def new_pool_def pool_blocks_def distinct_map inj_on_def atLeast0LessThan block_at_def)
qed

lemma aligned_plus_4: "unat (RT_ALIGN b RT_ALIGN_SIZE + 4) = unat (RT_ALIGN b RT_ALIGN_SIZE) + 4"
proof -
  let ?b = "RT_ALIGN b RT_ALIGN_SIZE"
  have "unat ?b + 4 < 2 ^ 32" using unat_RT_ALIGN(1)[of b] unsigned_less[of ?b, where 'a = nat] by auto
  then show ?thesis by (simp add: unat_word_ariths)
qed

lemma init_in_bounds: "pool_in_bounds (fst (rt_mp_init n name s sz b w k))"
  by (simp add: pool_in_bounds_def rt_mp_init_def new_pool_def Let_def unat_div aligned_plus_4[symmetric]
      div_times_less_eq_dividend)

text \<open>Taking and returning a block.\<close>

lemma take_ok:
  assumes "pool_ok n mp (a # fs) A"
  shows "mp_take n mp k = (Mp_Returned (Some (a + 4)),
      mp\<lparr>block_free_count := of_nat (length fs), block_list := block_ptr mp a,
         block_ptr := (block_ptr mp)(a := Mp_Pool n)\<rparr>, k)"
    and "pool_ok n (fst (snd (mp_take n mp k))) fs (insert a A)"
proof -
  show eq: "mp_take n mp k = (Mp_Returned (Some (a + 4)),
      mp\<lparr>block_free_count := of_nat (length fs), block_list := block_ptr mp a,
         block_ptr := (block_ptr mp)(a := Mp_Pool n)\<rparr>, k)"
    using assms by (simp add: pool_ok_def mp_take_def)
  show "pool_ok n (fst (snd (mp_take n mp k))) fs (insert a A)"
    using assms unfolding eq by (auto simp: pool_ok_def free_chain_upd pool_blocks_def)
qed

definition mp_pushed :: "nat \<Rightarrow> rt_mempool \<Rightarrow> rt_mempool" where
  "mp_pushed a mp = mp\<lparr>block_free_count := block_free_count mp + 1,
    block_ptr := (block_ptr mp)(a := block_list mp), block_list := Mp_Block a\<rparr>"

lemma pushed_ok:
  assumes "pool_ok n mp fs A" "a \<in> A"
  shows "pool_ok n (mp_pushed a mp) (a # fs) (A - {a})"
proof -
  have "a \<notin> set fs" using assms by (auto simp: pool_ok_def)
  then show ?thesis using assms by (auto simp: pool_ok_def mp_pushed_def free_chain_upd pool_blocks_def)
qed

text \<open>Nothing in \<open>pool_ok\<close> depends on the number of waiting threads.\<close>

lemma pool_ok_count [simp]: "pool_ok n (mp\<lparr>suspend_thread_count := c\<rparr>) fs A = pool_ok n mp fs A"
  by (simp add: pool_ok_def pool_blocks_def)

lemma free_eq:
  assumes "pool_ok n mp fs A" "a \<in> A"
  shows "\<exists>c. fst (rt_mp_free n (a + 4) mp k) = (mp_pushed a mp)\<lparr>suspend_thread_count := c\<rparr>"
proof -
  have "block_ptr mp a = Mp_Pool n" using assms by (simp add: pool_ok_def)
  then show ?thesis
    by (auto simp: rt_mp_free_def mp_pushed_def Let_def split: list.split
        intro: exI[of _ "suspend_thread_count mp"] exI[of _ "suspend_thread_count mp - 1"])
qed

lemma pool_count:
  assumes "pool_ok n mp fs A"
  shows "length fs + card A = unat (block_total_count mp)" "finite A"
    "block_free_count mp = 0 \<longleftrightarrow> fs = []"
proof -
  have d: "distinct fs" "set fs \<inter> A = {}" "set fs \<union> A = pool_blocks mp" "block_free_count mp = of_nat (length fs)"
    using assms by (simp_all add: pool_ok_def)
  show f: "finite A" using d(3) by (metis finite_Un finite_pool_blocks)
  have "card (set fs) + card A = card (pool_blocks mp)" using card_Un_disjoint[OF _ f d(2)] d(3) by simp
  then show s: "length fs + card A = unat (block_total_count mp)"
    using d(1) by (simp add: distinct_card card_pool_blocks)
  then have "length fs < 2 ^ 32" using unsigned_less[of "block_total_count mp", where 'a = nat] by simp
  then have "unat (block_free_count mp) = length fs" using d(4) by (simp add: unat_of_nat take_bit_nat_eq_self)
  then show "block_free_count mp = 0 \<longleftrightarrow> fs = []" by (metis length_0_conv unat_eq_zero)
qed

text \<open>
  The history of a pool with the blocks \<open>A\<close> allocated: it is initialised, or created on the heap with a
  size that fits in 32 bits; threads take blocks, wait, continue and return blocks; and whatever else the
  kernel does in between.  A thread that continues without an error finds a free block.
\<close>

inductive mp_history :: "nat \<Rightarrow> rt_mempool \<Rightarrow> 'a kernel_scheme \<Rightarrow> nat set \<Rightarrow> bool" where
  hist_init: "rt_mp_init n name start sz bsize w k = (mp, k') \<Longrightarrow> block_total_count mp \<noteq> 0
    \<Longrightarrow> mp_history n mp k' {}"
| hist_create: "rt_mp_create r name cnt bsize w h k = Some (Some (n, mp), h', k') \<Longrightarrow> cnt \<noteq> 0
    \<Longrightarrow> (unat (RT_ALIGN bsize RT_ALIGN_SIZE) + 4) * unat cnt < 2 ^ 32 \<Longrightarrow> mp_history n mp k' {}"
| hist_alloc: "mp_history n mp k A \<Longrightarrow> rt_mp_alloc n time mp k = (Mp_Returned (Some p), mp', k')
    \<Longrightarrow> mp_history n mp' k' (insert (p - 4) A)"
| hist_none: "mp_history n mp k A \<Longrightarrow> rt_mp_alloc n time mp k = (out, mp', k')
    \<Longrightarrow> out = Mp_Returned None \<or> out = Mp_Blocked \<Longrightarrow> mp_history n mp' k' A"
| hist_resumed: "mp_history n mp k A \<Longrightarrow> rt_mp_alloc_resumed n t mp k = (Mp_Returned (Some p), mp', k')
    \<Longrightarrow> block_free_count mp \<noteq> 0 \<Longrightarrow> mp_history n mp' k' (insert (p - 4) A)"
| hist_failed: "mp_history n mp k A \<Longrightarrow> rt_mp_alloc_resumed n t mp k = (Mp_Returned None, mp', k')
    \<Longrightarrow> th_error (threads k t) \<noteq> RT_EOK \<Longrightarrow> mp_history n mp' k' A"
| hist_free: "mp_history n mp k A \<Longrightarrow> a \<in> A \<Longrightarrow> rt_mp_free n (a + 4) mp k = (mp', k')
    \<Longrightarrow> mp_history n mp' k' (A - {a})"
| hist_other: "mp_history n mp k A \<Longrightarrow> mp_history n mp k' A"

lemma pool_in_bounds_cong:
  assumes "pool_in_bounds mp" "block_total_count mp' = block_total_count mp"
    "mp_block_size mp' = mp_block_size mp" "mp_size mp' = mp_size mp"
  shows "pool_in_bounds mp'"
  using assms by (simp add: pool_in_bounds_def)

lemma init_pool: "\<exists>s z b c v. fst (rt_mp_init n name start sz bsize w k) = new_pool s z b c v"
  by (simp add: rt_mp_init_def Let_def) blast

lemma create_pool:
  assumes "rt_mp_create r name cnt bsize w h k = Some (Some (n, mp), h', k')"
  shows "\<exists>start. mp = new_pool start ((RT_ALIGN bsize RT_ALIGN_SIZE + 4) * cnt) (RT_ALIGN bsize RT_ALIGN_SIZE) cnt w"
  using assms
  by (auto simp: rt_mp_create_def Let_def split: prod.splits option.splits rt_object_ref.splits)

lemma take_frame:
  "fst (snd (mp_take n mp k)) = mp' \<Longrightarrow> block_total_count mp' = block_total_count mp \<and>
    mp_block_size mp' = mp_block_size mp \<and> mp_size mp' = mp_size mp \<and> start_address mp' = start_address mp"
  by (auto simp: mp_take_def Let_def split: mp_ptr.splits)

lemma take_step:
  assumes "pool_ok n mp fs A" "block_free_count mp \<noteq> 0" "mp_take n mp k = (Mp_Returned (Some p), mp', k')"
  shows "pool_ok n mp' (tl fs) (insert (p - 4) A)"
proof -
  obtain a gs where "fs = a # gs" using pool_count(3)[OF assms(1)] assms(2) by (cases fs) auto
  then show ?thesis using take_ok[of n mp a gs A k] assms(1,3) by auto
qed

lemma take_not_none:
  assumes "pool_ok n mp fs A" "block_free_count mp \<noteq> 0" 
  shows "fst (mp_take n mp k) \<noteq> Mp_Returned None" "fst (mp_take n mp k) \<noteq> Mp_Blocked"
proof -
  obtain a gs where "fs = a # gs" using pool_count(3)[OF assms(1)] assms(2) by (cases fs) auto
  then show "fst (mp_take n mp k) \<noteq> Mp_Returned None" "fst (mp_take n mp k) \<noteq> Mp_Blocked"
    using take_ok(1)[of n mp a gs A k] assms(1) by auto
qed

lemma history_ok:
  assumes "mp_history n mp k A"
  shows "pool_in_bounds mp \<and> (\<exists>fs. pool_ok n mp fs A)"
  using assms
proof induction
  case (hist_init n name start sz bsize w k mp k')
  then have i: "mp = fst (rt_mp_init n name start sz bsize w k)" by simp
  then obtain s z b c v where mp: "mp = new_pool s z b c v" using init_pool by metis
  then have "c \<noteq> 0" using hist_init(2) by (simp add: new_pool_def)
  then show ?case using init_in_bounds[of n name start sz bsize w k] new_pool_ok[of c n s z b v] mp i by metis
next
  case (hist_create r name cnt bsize w h k n mp h' k')
  let ?b = "RT_ALIGN bsize RT_ALIGN_SIZE"
  obtain start where mp: "mp = new_pool start ((?b + 4) * cnt) ?b cnt w" using create_pool[OF hist_create(1)] by blast
  have "unat ((?b + 4) * cnt) = (unat ?b + 4) * unat cnt"
    using hist_create(3) aligned_plus_4 by (simp add: unat_word_ariths)
  then show ?case using new_pool_ok[OF hist_create(2), of n start _ ?b w]
    by (auto simp: mp pool_in_bounds_def new_pool_def mult.commute)
next
  case (hist_alloc n mp k A time p mp' k')
  then have "block_free_count mp \<noteq> 0 \<and> mp_take n mp k = (Mp_Returned (Some p), mp', k')"
    by (auto simp: rt_mp_alloc_def split: if_splits option.splits)
  then show ?case using hist_alloc take_step take_frame[of n mp k mp'] pool_in_bounds_cong[of mp mp'] by fastforce
next
  case (hist_none n mp k A time out mp' k')
  then obtain fs where ok: "pool_ok n mp fs A" "pool_in_bounds mp" by blast
  then have "\<exists>c. mp' = mp\<lparr>suspend_thread_count := c\<rparr>"
    using hist_none(2,3) take_not_none[OF ok(1), of k]
    by (auto simp: rt_mp_alloc_def intro: exI[of _ "suspend_thread_count mp"] split: if_splits option.splits)
  then show ?case using ok by (auto simp: pool_in_bounds_def)
next
  case (hist_resumed n mp k A t p mp' k')
  then have "mp_take n mp k = (Mp_Returned (Some p), mp', k')"
    by (auto simp: rt_mp_alloc_resumed_def split: if_splits)
  then show ?case
    using hist_resumed take_step take_frame[of n mp k mp'] pool_in_bounds_cong[of mp mp'] by fastforce
next
  case (hist_failed n mp k A t mp' k')
  then show ?case by (auto simp: rt_mp_alloc_resumed_def)
next
  case (hist_free n mp k A a mp' k')
  then obtain fs where ok: "pool_ok n mp fs A" "pool_in_bounds mp" by blast
  obtain c where mp': "mp' = (mp_pushed a mp)\<lparr>suspend_thread_count := c\<rparr>"
    using free_eq[OF ok(1) hist_free(2), of k] hist_free(3) by auto
  show ?case using pushed_ok[OF ok(1) hist_free(2)] ok(2) by (auto simp: mp' pool_in_bounds_def mp_pushed_def)
qed




section \<open>Waiting for a block\<close>

text \<open>Waiting and returning a block keep the kernel consistent.\<close>

lemma mp_wait_inv:
  fixes n :: nat
  assumes "kinv b {} k" "stat_of k t = RT_THREAD_READY"
    "0 < sint time \<longrightarrow> unat (rt_tick k + time - b) < unat HALF_TICK_MAX"
  defines "k' \<equiv> mp_wait n t time k"
  shows "kinv b {} k'" "stat_of k' t = RT_THREAD_SUSPEND"
    "tlists k' (Waiting (MemPoolObj n)) = t # tlists k (Waiting (MemPoolObj n))" "rt_tick k' = rt_tick k"
proof -
  let ?h = "Waiting (MemPoolObj n)"
  let ?k0 = "snd (rt_thread_suspend t k)"
  have "tlists k ?h = [] @ tlists k ?h" by simp
  note s = suspend_onto_inv[OF assms(1,2) waiting_head_simps(1) this]
  define k1 where "k1 = ?k0\<lparr>tlists := (tlists ?k0)(?h := [] @ t # tlists k ?h)\<rparr>"
  have eq: "k' = rt_schedule (if 0 < sint time
    then snd (rt_timer_start (ThreadTimer t) (snd (rt_timer_control (ThreadTimer t) (Timer_Set_Time time) k1)))
    else k1)" by (simp add: k'_def k1_def mp_wait_def push_front_def s(1) Let_def)
  note w = wait_timer_inv[OF s(2-5), of time, folded k1_def, folded eq, unfolded s(6)[folded k1_def], OF assms(3)]
  show "kinv b {} k'" "stat_of k' t = RT_THREAD_SUSPEND" using w(1,2) .
  show "tlists k' ?h = t # tlists k ?h" using w(3) by (simp add: k1_def)
  show "rt_tick k' = rt_tick k" using s(6)[folded k1_def] by (simp add: eq)
qed

lemma mp_alloc_kernel [kernel_calls]:
  assumes "kernel_inv k" "rt_current_thread k = Some t" "stat_of k t = RT_THREAD_READY"
    "0 < sint time \<longrightarrow> unat time < unat HALF_TICK_MAX" "rt_mp_alloc n time mp k = (out, mp', k')"
  shows "kernel_inv k'"
proof -
  have "kinv (rt_tick k) {} (k\<lparr>k_status := Bad_Access\<rparr>) = kernel_inv k" by (rule kinv_frame) simp_all
  then show ?thesis using assms mp_wait_inv[OF assms(1,3), of time n]
    by (auto simp: rt_mp_alloc_def mp_take_def rt_thread_self_def Let_def split: if_splits mp_ptr.splits)
qed

lemma mp_free_kernel [kernel_calls]:
  assumes "kernel_inv k" "rt_mp_free n block mp k = (mp', k')"
  shows "kernel_inv k'"
proof -
  have bad: "kinv (rt_tick k) {} (k\<lparr>k_status := Bad_Access\<rparr>) = kernel_inv k" by (rule kinv_frame) simp_all
  have res: "kernel_inv (rt_schedule (snd (rt_thread_resume t (upd_thread t (\<lambda>th. th\<lparr>th_error := RT_EOK\<rparr>) k))))"
    if "tlists k (Waiting (MemPoolObj n)) = t # ts" for t ts
  proof -
    let ?k1 = "upd_thread t (\<lambda>th. th\<lparr>th_error := RT_EOK\<rparr>) k"
    have "kernel_inv ?k1" using kinv_upd_field[OF assms(1)] by simp
    then show ?thesis using list_resume_inv(1,7)[of _ ?k1 "Waiting (MemPoolObj n)" t ts] that
      by (simp add: rt_ipc_list_resume_def)
  qed
  show ?thesis using assms bad res by (auto simp: rt_mp_free_def Let_def split: if_splits list.splits)
qed

text \<open>C37: a thread that waits for a block.  When the pool is empty it is suspended at the front of the
  waiting list.  A block returned then makes it ready, and it gets exactly this block when it continues;
  but if another thread takes the block before it continues, it follows the empty list.  If instead its
  time is up it gets no block, and is still counted as waiting, so that the next return of a block takes
  a thread from the empty list: an invalid access.\<close>

theorem mp_waiting_thread:
  assumes "pool_ok n mp [] A" "a \<in> A" "suspend_thread_count mp = 0"
    "kernel_inv k" "tlists k (Waiting (MemPoolObj n)) = []"
    "rt_current_thread k = Some t" "stat_of k t = RT_THREAD_READY"
    "time \<noteq> 0" "0 < sint time \<longrightarrow> unat time < unat HALF_TICK_MAX" "rt_mp_alloc n time mp k = (out, mp1, k1)"
    "rt_mp_free n (a + 4) mp1 k1 = (mp2, k2)" "rt_mp_alloc n 0 mp2 k2 = (out', mp3, k3)"
  shows "out = Mp_Blocked \<and> kernel_inv k1 \<and> tlists k1 (Waiting (MemPoolObj n)) = [t] \<and>
    stat_of k2 t = RT_THREAD_READY \<and> suspend_thread_count mp2 = 0 \<and>
    fst (rt_mp_alloc_resumed n t mp2 k2) = Mp_Returned (Some (a + 4)) \<and>
    out' = Mp_Returned (Some (a + 4)) \<and> k_status (snd (snd (rt_mp_alloc_resumed n t mp3 k3))) = Bad_Access \<and>
    rt_mp_alloc_resumed n t mp1 (rt_thread_timeout t k1) = (Mp_Returned None, mp1, rt_thread_timeout t k1) \<and>
    k_status (snd (rt_mp_free n (a + 4) mp1 (rt_thread_timeout t k1))) = Bad_Access"
proof -
  have time: "0 < sint time \<longrightarrow> unat (rt_tick k + time - rt_tick k) < unat HALF_TICK_MAX"
    using assms(9) by simp
  note w = mp_wait_inv[OF assms(4,7) time, of n]
  have al: "out = Mp_Blocked" "mp1 = mp\<lparr>suspend_thread_count := 1\<rparr>" "k1 = mp_wait n t time k"
    using assms(3,6,8,10) pool_count(3)[OF assms(1)] by (simp_all add: rt_mp_alloc_def rt_thread_self_def)
  have ptr: "block_ptr mp a = Mp_Pool n" "block_list mp = Mp_Null" "block_free_count mp = 0"
    using assms(1,2) by (simp_all add: pool_ok_def)
  have l1: "tlists k1 (Waiting (MemPoolObj n)) = [t]" "stat_of k1 t = RT_THREAD_SUSPEND" "kernel_inv k1"
    using w assms(5) by (simp_all add: al)
  have f: "mp2 = (mp_pushed a mp)\<lparr>suspend_thread_count := 0\<rparr>"
      "k2 = rt_schedule (snd (rt_thread_resume t (upd_thread t (\<lambda>th. th\<lparr>th_error := RT_EOK\<rparr>) k1)))"
    using assms(11) l1(1) ptr by (simp_all add: rt_mp_free_def al(2) mp_pushed_def Let_def)
  have t2: "th_error (threads k2 t) = RT_EOK" "stat_of k2 t = RT_THREAD_READY"
    using l1(2) by (simp_all add: f(2) resume_fields)
  have "pool_ok n mp2 [a] (A - {a})" using pushed_ok[OF assms(1,2)] by (simp add: f(1))
  note tk = take_ok(1)[OF this]
  have nz: "block_free_count mp2 = 1" using ptr by (simp add: f(1) mp_pushed_def)
  have a3: "out' = Mp_Returned (Some (a + 4))" "block_list mp3 = Mp_Null" "k3 = k2"
    using assms(12) nz ptr by (auto simp: rt_mp_alloc_def tk) (simp add: f(1) mp_pushed_def)
  have to: "th_error (threads (rt_thread_timeout t k1) t) \<noteq> RT_EOK"
      "tlists (rt_thread_timeout t k1) (Waiting (MemPoolObj n)) = []"
    using l1(1) by (simp_all add: rt_thread_timeout_def Let_def unlink_def push_back_def)
  show ?thesis using al(1) l1(1,3) t2 tk a3 to ptr
    by (simp add: rt_mp_alloc_resumed_def mp_take_def rt_mp_free_def al(2) Let_def f(1) mp_pushed_def)
qed

text \<open>A pool of one block, which is allocated.\<close>

definition demo_pool :: rt_mempool where
  "demo_pool = fst (snd (mp_take 0 (new_pool 0x2000 16 8 1 (\<lambda>_. Mp_Null)) demo_kernel))"

theorem mp_waiting_thread_witness:
  "fst (rt_mp_alloc 0 10 demo_pool demo_kernel) = Mp_Blocked \<and>
    k_status (snd (rt_mp_free 0 0x2004 (fst (snd (rt_mp_alloc 0 10 demo_pool demo_kernel)))
      (rt_thread_timeout 1 (snd (snd (rt_mp_alloc 0 10 demo_pool demo_kernel)))))) = Bad_Access"
proof -
  obtain out mp1 k1 where a: "rt_mp_alloc 0 10 demo_pool demo_kernel = (out, mp1, k1)" by (rule prod_cases3)
  obtain mp2 k2 where f: "rt_mp_free 0 (0x2000 + 4) mp1 k1 = (mp2, k2)" by (rule prod.exhaust)
  obtain out' mp3 k3 where b: "rt_mp_alloc 0 0 mp2 k2 = (out', mp3, k3)" by (rule prod_cases3)
  have "pool_ok 0 (new_pool 0x2000 16 8 1 (\<lambda>_. Mp_Null)) [0x2000] {}"
    using new_pool_ok[where cnt = 1 and n = 0 and s = "0x2000" and sz = 16 and b = 8] by (simp add: block_at_def)
  then have ok: "pool_ok 0 demo_pool [] {0x2000}" unfolding demo_pool_def by (rule take_ok(2))
  have h: "suspend_thread_count demo_pool = 0" "tlists demo_kernel (Waiting (MemPoolObj 0)) = []"
    "stat_of demo_kernel 1 = RT_THREAD_READY" by code_simp+
  from mp_waiting_thread[OF ok _ h(1) demo_kernel_inv h(2) demo_current h(3) _ _ a f b] show ?thesis
    by (simp add: a)
qed

end
