(* ===== verification/Kernel.thy ===== *)
theory Kernel
  imports Mutex Event MsgQueue Mempool
begin

text \<open>
  The kernel as a whole: an inductive relation of everything that can happen to it (system
  calls of the running thread, calls from interrupt handlers, the tick), the invariant of
  all reachable states, and the properties of scheduling and timers.
\<close>

section \<open>Steps of the kernel\<close>

text \<open>The guards are what the calls ask of their callers (debug assertions are compiled out):
  valid priorities, valid queueing flags, time-outs below half the tick range, a thread
  structure in the right state.  The IPC objects are arbitrary values with a valid flag;
  mutexes satisfy their invariant.  User timers are not registered in this program.\<close>

definition short_time :: "u32 \<Rightarrow> bool" where
  "short_time time \<longleftrightarrow> (0 < sint time \<longrightarrow> unat time < unat HALF_TICK_MAX)"

inductive kstep :: "kernel \<Rightarrow> kernel \<Rightarrow> bool" where
  st_tick: "thread_timers_only k \<Longrightarrow> rt_current_thread k \<noteq> None \<Longrightarrow>
    rt_tick_increase user k = Some k' \<Longrightarrow> kstep k k'"
| st_schedule: "kstep k (rt_schedule k)"
| st_start: "kstep k (rt_system_scheduler_start k)"
| st_enter_critical: "kstep k (rt_enter_critical k)"
| st_exit_critical: "kstep k (rt_exit_critical k)"
| st_interrupt_enter: "kstep k (rt_interrupt_enter k)"
| st_interrupt_leave: "kstep k (rt_interrupt_leave k)"
| st_thread_init: "stat_of k t = RT_THREAD_INIT \<Longrightarrow>
    kstep k (rt_thread_init t name entry parameter stack_start stack_size priority tick k)"
| st_startup: "stat_of k t = RT_THREAD_INIT \<Longrightarrow> unat (init_priority (threads k t)) < 32 \<Longrightarrow>
    kstep k (rt_thread_startup t k)"
| st_suspend: "kstep k (snd (rt_thread_suspend t k))"
| st_resume: "kstep k (snd (rt_thread_resume t k))"
| st_yield: "rt_current_thread k = Some t \<Longrightarrow> kstep k (rt_thread_yield k)"
| st_sleep: "rt_current_thread k = Some t \<Longrightarrow> stat_of k t = RT_THREAD_READY \<Longrightarrow>
    unat tick < unat HALF_TICK_MAX \<Longrightarrow> kstep k (rt_thread_sleep tick k)"
| st_priority: "unat p < 32 \<Longrightarrow> stat_of k t \<noteq> RT_THREAD_CLOSE \<Longrightarrow>
    kstep k (rt_thread_control t (Ctrl_Change_Priority p) k)"
| st_delete: "mask_ok (threads k t) \<Longrightarrow> kstep k (rt_thread_delete t k)"
| st_detach: "mask_ok (threads k t) \<Longrightarrow> kstep k (rt_thread_detach t k)"
| st_exit: "(\<And>t. rt_current_thread k = Some t \<Longrightarrow> mask_ok (threads k t)) \<Longrightarrow> kstep k (rt_thread_exit k)"
| st_sem_take: "rt_current_thread k = Some t \<Longrightarrow> stat_of k t = RT_THREAD_READY \<Longrightarrow> sem_inv n sem k \<Longrightarrow>
    short_time time \<Longrightarrow> rt_sem_take n time sem k = (r, sem', k') \<Longrightarrow> kstep k k'"
| st_sem_release: "sem_inv n sem k \<Longrightarrow> rt_sem_release n sem k = (sem', k') \<Longrightarrow> kstep k k'"
| st_mutex_take: "rt_current_thread k = Some t \<Longrightarrow> stat_of k t = RT_THREAD_READY \<Longrightarrow> mutex_inv n m k \<Longrightarrow>
    mtx_hold m \<noteq> 255 \<Longrightarrow> short_time time \<Longrightarrow> rt_mutex_take n time m k = (r, m', k') \<Longrightarrow> kstep k k'"
| st_mutex_release: "rt_current_thread k = Some t \<Longrightarrow> mutex_inv n m k \<Longrightarrow>
    rt_mutex_release n m k = (r, m', k') \<Longrightarrow> kstep k k'"
| st_event_recv: "rt_current_thread k = Some t \<Longrightarrow> stat_of k t = RT_THREAD_READY \<Longrightarrow> event_inv n ev k \<Longrightarrow>
    short_time time \<Longrightarrow> rt_event_recv n flags option time ev k = (r, got, ev', k') \<Longrightarrow> kstep k k'"
| st_event_send: "rt_event_send n flags ev k = (r, ev', k') \<Longrightarrow> kstep k k'"
| st_mb_send: "rt_current_thread k = Some t \<Longrightarrow> stat_of k t = RT_THREAD_READY \<Longrightarrow> mb_inv mb \<Longrightarrow>
    mb_flag mb \<in> {0, 1} \<Longrightarrow> short_time time \<Longrightarrow> rt_mb_send_wait n value time mb k = (r, mb', k') \<Longrightarrow> kstep k k'"
| st_mb_recv: "rt_current_thread k = Some t \<Longrightarrow> stat_of k t = RT_THREAD_READY \<Longrightarrow> mb_inv mb \<Longrightarrow>
    mb_flag mb \<in> {0, 1} \<Longrightarrow> short_time time \<Longrightarrow> rt_mb_recv n time mb k = (r, got, mb', k') \<Longrightarrow> kstep k k'"
| st_mq_send: "rt_mq_send n buffer msize mq k = (r, mq', k') \<Longrightarrow> kstep k k'"
| st_mq_urgent: "rt_mq_urgent n buffer msize mq k = (r, mq', k') \<Longrightarrow> kstep k k'"
| st_mq_recv: "rt_current_thread k = Some t \<Longrightarrow> stat_of k t = RT_THREAD_READY \<Longrightarrow> mq_flag mq \<in> {0, 1} \<Longrightarrow>
    short_time time \<Longrightarrow> rt_mq_recv n msize time mq k = (r, got, mq', k') \<Longrightarrow> kstep k k'"
| st_mp_alloc: "rt_current_thread k = Some t \<Longrightarrow> stat_of k t = RT_THREAD_READY \<Longrightarrow> short_time time \<Longrightarrow>
    rt_mp_alloc n time mp k = (out, mp', k') \<Longrightarrow> kstep k k'"
| st_mp_free: "rt_mp_free n block mp k = (mp', k') \<Longrightarrow> kstep k k'"
| st_reset: "waiting_head h \<Longrightarrow> rt_ipc_list_resume_all h k = Some k' \<Longrightarrow> kstep k k'"

lemma tick_kept [simp]:
  "rt_tick (rt_system_scheduler_start k) = rt_tick k"
  "rt_tick (rt_enter_critical k) = rt_tick k" "rt_tick (rt_exit_critical k) = rt_tick k"
  "rt_tick (rt_interrupt_enter k) = rt_tick k" "rt_tick (rt_interrupt_leave k) = rt_tick k"
  "rt_tick (rt_thread_init t name entry parameter stack_start stack_size priority tick k) = rt_tick k"
  "rt_tick (snd (rt_thread_suspend t k)) = rt_tick k" "rt_tick (snd (rt_thread_resume t k)) = rt_tick k"
  "rt_tick (rt_thread_startup t k) = rt_tick k" "rt_tick (rt_thread_yield k) = rt_tick k"
  "rt_tick (rt_thread_sleep n k) = rt_tick k" "rt_tick (rt_thread_delete t k) = rt_tick k"
  "rt_tick (rt_thread_detach t k) = rt_tick k" "rt_tick (rt_thread_exit k) = rt_tick k"
  by (simp_all add: rt_system_scheduler_start_def rt_enter_critical_def rt_exit_critical_def rt_interrupt_enter_def
      rt_interrupt_leave_def rt_thread_init_def thread_init_def rt_timer_init_def timer_init_def rt_thread_suspend_def
      rt_thread_resume_def rt_thread_startup_def rt_thread_yield_def rt_thread_sleep_def rt_thread_delete_def
      rt_thread_detach_def rt_thread_exit_def insert_defunct_def upd_timer_def Let_def split: option.split)

lemma kinv_admin:
  "kinv b S (rt_enter_critical k) = kinv b S k" "kinv b S (rt_exit_critical k) = kinv b S k"
  "kinv b S (rt_interrupt_enter k) = kinv b S k" "kinv b S (rt_interrupt_leave k) = kinv b S k"
proof -
  have l: "kinv b S (k\<lparr>rt_scheduler_lock_nest := n\<rparr>) = kinv b S k" for n by (rule kinv_frame) simp_all
  then show "kinv b S (rt_enter_critical k) = kinv b S k" "kinv b S (rt_exit_critical k) = kinv b S k"
    by (simp_all add: rt_enter_critical_def rt_exit_critical_def Let_def)
  show "kinv b S (rt_interrupt_enter k) = kinv b S k" "kinv b S (rt_interrupt_leave k) = kinv b S k"
    by (rule kinv_frame; simp add: rt_interrupt_enter_def rt_interrupt_leave_def)+
qed

lemma event_send_inv [kernel_keeps]:
  assumes "kernel_inv k" "rt_event_send n flags ev k = (r, ev', k')"
  shows "kernel_inv k'"
proof (cases "flags = 0")
  case False
  obtain served waiting s' where "deliver (waits_with k) (waits_for k) (ev_set ev OR flags)
    (tlists k (Waiting (EventObj n))) = (served, waiting, s')" by (rule prod_cases3)
  from event_send_cases[OF assms(1) False assms(2) this] show ?thesis by blast
qed (use assms in \<open>simp add: rt_event_send_def\<close>)

lemma mq_send_kernel [kernel_keeps]:
  assumes "kernel_inv k" "rt_mq_send n buffer msize mq k = (r, mq', k') \<or> rt_mq_urgent n buffer msize mq k = (r, mq', k')"
  shows "kernel_inv k'"
  using assms resume_one_inv(1)[OF assms(1) waiting_head_simps(1), of "MqObj n"]
  by (auto simp: rt_mq_send_def rt_mq_urgent_def split: if_splits option.splits)

lemma mq_recv_kernel [kernel_calls]:
  assumes "kernel_inv k" "rt_current_thread k = Some t" "stat_of k t = RT_THREAD_READY" "mq_flag mq \<in> {0, 1}"
    "0 < sint time \<longrightarrow> unat time < unat HALF_TICK_MAX" "rt_mq_recv n msize time mq k = (r, got, mq', k')"
  shows "kernel_inv k'"
proof -
  have "kinv (rt_tick k) {} (k\<lparr>k_status := Bad_Access\<rparr>) = kernel_inv k" by (rule kinv_frame) simp_all
  then have bad: "kernel_inv (k\<lparr>k_status := Bad_Access\<rparr>)" using assms(1) by simp
  consider "mq_entry mq = 0" "time = 0" | "mq_entry mq = 0" "time \<noteq> 0" | "mq_entry mq \<noteq> 0" by blast
  then show ?thesis
  proof cases
    case 1
    then show ?thesis using assms(1,6) by (simp add: rt_mq_recv_def)
  next
    case 2
    then have "k' = ipc_wait (Waiting (MqObj n)) t (mq_flag mq) time (upd_thread t (\<lambda>th. th\<lparr>th_error := RT_EOK\<rparr>) k)"
      using assms(2,6) by (auto simp: rt_mq_recv_def mq_recv_loop_def rt_thread_self_def Let_def)
    then show ?thesis using block_inv[OF assms(1,3,4) waiting_head_simps(1)[of "MqObj n"] assms(5)] by simp
  next
    case 3
    then have "k' = k \<or> k' = k\<lparr>k_status := Bad_Access\<rparr>"
      using assms(6) by (simp add: rt_mq_recv_def mq_recv_loop_def Let_def split: option.splits prod.splits)
    then show ?thesis using assms(1) bad by blast
  qed
qed

lemma mb_calls_kernel [kernel_calls]:
  assumes "kernel_inv k" "rt_current_thread k = Some t" "stat_of k t = RT_THREAD_READY" "mb_inv mb" "mb_flag mb \<in> {0, 1}"
    "0 < sint time \<longrightarrow> unat time < unat HALF_TICK_MAX"
  shows "rt_mb_send_wait n value time mb k = (r, mb', k') \<Longrightarrow> kernel_inv k'"
    "rt_mb_recv n time mb k = (r, got, mb', k') \<Longrightarrow> kernel_inv k'"
  using assms mb_send_loop_inv[OF assms(1,4,5,3,6)] mb_recv_loop_inv[OF assms(1,4,5,3,6)]
  by (auto simp: rt_mb_send_wait_def rt_mb_recv_def rt_thread_self_def split: if_splits)

lemma kstep_inv:
  assumes "kstep k k'" "kernel_inv k"
  shows "kernel_inv k'"
  using assms
proof (cases rule: kstep.cases)
  case (st_tick user)
  then show ?thesis using tick_increase_effect[OF assms(2) st_tick(1,2), of user] by (metis option.inject)
next
  case (st_thread_init t name entry parameter stack_start stack_size priority tick)
  then show ?thesis using thread_init_fresh_inv[OF assms(2)] by simp
next
  case (st_reset h)
  then show ?thesis using list_resume_all_inv[OF assms(2) st_reset(1)] by auto
next
  case (st_sleep t tick)
  then show ?thesis using thread_sleep_inv[OF assms(2) st_sleep(2,3), of tick] by simp
qed (use assms(2) in \<open>auto simp: kinv_admin scheduler_start_inv short_time_def change_priority_fields
      intro: kernel_keeps dest: kernel_calls\<close>)

inductive kreach :: "kernel \<Rightarrow> bool" where
  kr_boot: "kreach kernel_boot"
| kr_step: "kreach k \<Longrightarrow> kstep k k' \<Longrightarrow> kreach k'"

lemma kreach_inv: "kreach k \<Longrightarrow> kernel_inv k"
proof (induction rule: kreach.induct)
  case kr_boot
  have "rt_tick kernel_boot = 0" by (simp add: kernel_boot_def kernel_zero_def rt_system_timer_init_def rt_system_scheduler_init_def)
  then show ?case using kernel_boot_inv by simp
qed (rule kstep_inv)

text \<open>C1: The kernel stays consistent.  In every state the kernel can reach from boot by any
  sequence of system calls, interrupts and ticks: no thread is on two lists or twice on
  one; the ready bitmap has exactly the bits of the non-empty ready queues; a thread is on
  a ready queue exactly if it is ready, and then on the one of its priority; only suspended
  threads wait for objects or have their timer running; and the timers are in the order
  in which they are due.\<close>

theorem kernel_consistent:
  assumes "kreach k"
  shows "exclusive (tlists k) \<and>
    (\<forall>p. bit (rt_thread_ready_priority_group k) p \<longleftrightarrow> tlists k (Ready p) \<noteq> []) \<and>
    (\<forall>t p. t \<in> set (tlists k (Ready p)) \<longleftrightarrow> stat_of k t = RT_THREAD_READY \<and> p = prio_of k t) \<and>
    (\<forall>t obj. t \<in> set (tlists k (Waiting obj)) \<union> set (tlists k (Senders obj)) \<longrightarrow> stat_of k t = RT_THREAD_SUSPEND) \<and>
    (\<forall>t. ThreadTimer t \<in> set (rt_timer_list k) \<longrightarrow> stat_of k t = RT_THREAD_SUSPEND) \<and>
    timer_order (timeout_of k) (rt_tick k) (rt_timer_list k)"
proof -
  note i = kreach_inv[OF assms]
  have "thread_inv k t" "thread_timer_inv k t" for t using kinvD(3,4)[OF i, of t] by simp_all
  then show ?thesis using kinvD(1,2)[OF i]
    by (auto simp: sched_inv_def thread_inv_def thread_timer_inv_def timers_wf_def)
qed

theorem kernel_consistent_witness:
  "kreach (rt_thread_idle_init 0 0x20001000 kernel_boot) \<and>
    0 \<in> set (tlists (rt_thread_idle_init 0 0x20001000 kernel_boot) (Ready 31))"
proof -
  let ?k = "rt_thread_init 0 ''tidle'' 0 0 0x20001000 1024 31 32 kernel_boot"
  have "kstep kernel_boot ?k" by (rule st_thread_init) code_simp
  moreover have "stat_of ?k 0 = RT_THREAD_INIT" by code_simp
  moreover have "unat (init_priority (threads ?k 0)) < 32" by code_simp
  ultimately have r: "kreach (rt_thread_startup 0 ?k)" by (meson kr_boot kr_step st_startup)
  have "rt_thread_startup 0 ?k = rt_thread_idle_init 0 0x20001000 kernel_boot" by (simp add: rt_thread_idle_init_def)
  moreover have "stat_of (rt_thread_idle_init 0 0x20001000 kernel_boot) 0 = RT_THREAD_READY" by code_simp
  moreover have "prio_of (rt_thread_idle_init 0 0x20001000 kernel_boot) 0 = 31" by code_simp
  ultimately show ?thesis using kernel_consistent[of "rt_thread_idle_init 0 0x20001000 kernel_boot"] r by simp
qed


section \<open>Scheduling\<close>

text \<open>C3: The scheduler runs the right thread.  With the scheduler unlocked and some thread
  ready, \<^verbatim>\<open>rt_schedule\<close> makes a ready thread current whose priority is at least as good as
  that of every ready thread, namely the first of its queue, and records no fault provided the stack of
  that thread passes the overflow check.\<close>

theorem schedule_runs_best:
  assumes "kernel_inv k" "rt_scheduler_lock_nest k = 0" "stat_of k x = RT_THREAD_READY"
    "\<forall>t. stat_of k t = RT_THREAD_READY \<longrightarrow> stack_fine (threads k t)"
  shows "\<exists>t ts. rt_current_thread (rt_schedule k) = Some t \<and> tlists k (Ready (prio_of k t)) = t # ts \<and>
    stat_of k t = RT_THREAD_READY \<and> (\<forall>y. stat_of k y = RT_THREAD_READY \<longrightarrow> prio_of k t \<le> prio_of k y) \<and>
    k_status (rt_schedule k) = k_status k"
proof -
  note s = kinvD(1)[OF assms(1)]
  have "x \<in> set (tlists k (Ready (prio_of k x)))"
    using kinvD(4)[OF assms(1), of x] assms(3) unfolding thread_inv_def by blast
  then have "tlists k (Ready (prio_of k x)) \<noteq> []" by auto
  moreover have "stack_fine (threads k t)" if "best_ready k t" for t
  proof -
    obtain p ts where "tlists k (Ready p) = t # ts" using \<open>best_ready k t\<close> by (auto simp: best_ready_def)
    then have "stat_of k t = RT_THREAD_READY" using ready_at_prio(2)[OF s, of t p] by simp
    then show ?thesis using assms(4) by blast
  qed
  ultimately obtain t where t: "rt_current_thread (rt_schedule k) = Some t" "best_ready k t" "k_status (rt_schedule k) = k_status k"
    using schedule_best[OF s assms(2)] by metis
  then obtain p ts where p: "tlists k (Ready p) = t # ts" by (auto simp: best_ready_def)
  then have "p = prio_of k t" "stat_of k t = RT_THREAD_READY" using ready_at_prio(1,2)[OF s, of t p] by simp_all
  then show ?thesis using t p best_ready_least[OF s t(2)] by auto
qed

lemma demo_ready:
  assumes "stat_of demo_kernel t = RT_THREAD_READY"
  shows "t \<in> {0, 1, 2}"
proof -
  have i: "thread_inv demo_kernel t" using kinvD(4)[OF demo_kernel_inv] by simp
  then have t: "t \<in> set (tlists demo_kernel (Ready (prio_of demo_kernel t)))"
    using assms unfolding thread_inv_def by blast
  have g: "rt_thread_ready_priority_group demo_kernel = 0x80000300" by code_simp
  have "bit (0x80000300 :: u32) (prio_of demo_kernel t)" 
    using kinvD(1)[OF demo_kernel_inv] t unfolding sched_inv_def g by fastforce
  moreover have "prio_of demo_kernel t < 32" using ready_prio[OF demo_kernel_inv] assms by simp
  moreover have "\<forall>p \<in> set [0..<32]. bit (0x80000300 :: u32) p \<longrightarrow> p = 8 \<or> p = 9 \<or> p = 31" by code_simp
  ultimately have "prio_of demo_kernel t \<in> {8, 9, 31}" by auto
  moreover have "tlists demo_kernel (Ready 8) = [1]" "tlists demo_kernel (Ready 9) = [2]"
    "tlists demo_kernel (Ready 31) = [0]" by code_simp+
  ultimately show ?thesis using t by auto
qed

theorem schedule_runs_best_witness:
  "\<exists>t. rt_current_thread (rt_schedule (demo_kernel\<lparr>rt_current_thread := Some 0\<rparr>)) = Some t \<and> prio_of demo_kernel t \<le> 8"
proof -
  let ?k = "demo_kernel\<lparr>rt_current_thread := Some 0\<rparr>"
  have i: "kernel_inv ?k" using demo_kernel_inv by (simp add: kinv_switch)
  have l: "rt_scheduler_lock_nest ?k = 0" by code_simp
  have r: "stat_of ?k 1 = RT_THREAD_READY" by code_simp
  have "prio_of ?k 1 = 8" by code_simp
  moreover have "stack_fine (threads demo_kernel 0) \<and> stack_fine (threads demo_kernel 1) \<and>
      stack_fine (threads demo_kernel 2)" by code_simp
  then have "\<forall>t. stat_of ?k t = RT_THREAD_READY \<longrightarrow> stack_fine (threads ?k t)" using demo_ready by auto
  ultimately show ?thesis using schedule_runs_best[OF i l r] r by auto
qed

lemma schedule_head:
  assumes "sched_inv S k" "rt_scheduler_lock_nest k = 0" "tlists k (Ready p) = t # ts" "\<forall>p' < p. tlists k (Ready p') = []"
  shows "rt_current_thread (rt_schedule k) = Some t"
proof -
  obtain p1 t1 where h: "highest_ready k = Some (p1, t1)" "best_ready k t1"
    using highest_ready_best[OF assms(1), of p] assms(3) by (metis list.distinct(1))
  then obtain p2 ts2 where p2: "tlists k (Ready p2) = t1 # ts2" "\<forall>q < p2. tlists k (Ready q) = []"
    by (auto simp: best_ready_def)
  then have "p2 = p" using assms(3,4) by (metis linorder_neqE_nat list.distinct(1))
  then show ?thesis using h(1) p2(1) assms(2,3) by (auto simp: rt_schedule_def Let_def)
qed

text \<open>C4: Threads of equal priority take turns.  If the running thread heads the ready queue
  of the best priority, then after \<open>i\<close> calls of \<^verbatim>\<open>rt_thread_yield\<close> the queue is rotated by \<open>i\<close>
  and its new head is running: within as many yields as there are threads in the queue,
  each of them runs.\<close>

theorem yield_takes_turns:
  assumes "kernel_inv k" "rt_scheduler_lock_nest k = 0" "rt_current_thread k = Some (hd q)"
    "tlists k (Ready p) = q" "q \<noteq> []" "\<forall>p' < p. tlists k (Ready p') = []"
  shows "tlists ((rt_thread_yield ^^ i) k) (Ready p) = rotate i q \<and>
    rt_current_thread ((rt_thread_yield ^^ i) k) = Some (q ! (i mod length q)) \<and>
    kernel_inv ((rt_thread_yield ^^ i) k)"
proof -
  let ?y = "\<lambda>i. (rt_thread_yield ^^ i) k"
  have "tlists (?y i) (Ready p) = rotate i q \<and> rt_current_thread (?y i) = Some (hd (rotate i q)) \<and>
    kernel_inv (?y i) \<and> rt_scheduler_lock_nest (?y i) = 0 \<and> (\<forall>p' < p. tlists (?y i) (Ready p') = [])"
  proof (induction i)
    case 0
    then show ?case using assms by simp
  next
    case (Suc i)
    let ?k = "?y i"
    obtain t ts where q: "rotate i q = t # ts" using assms(5) by (cases "rotate i q") auto
    then have c: "rt_current_thread ?k = Some t" "tlists ?k (Ready p) = [] @ t # ts" using Suc by simp_all
    note y = yield_rotates[OF kinvD(1) c, of "rt_tick ?k" "{}"]
    let ?l = "(tlists ?k)(Ready p := ts @ [t])"
    have inv: "kernel_inv (rt_thread_yield ?k)" using thread_yield_inv[OF _ c(1), of "rt_tick ?k" "{}"] Suc by simp
    have r: "rotate (Suc i) q = ts @ [t]" using q by simp
    show ?case
    proof (cases "ts = []")
      case True
      then show ?thesis using y Suc r q c(1) by simp
    next
      case False
      then have e: "rt_thread_yield ?k = rt_schedule (?k\<lparr>tlists := ?l\<rparr>)" using y Suc by simp
      have si: "sched_inv {} (?k\<lparr>tlists := ?l\<rparr>)" using kinvD(1)[OF inv] e by simp
      obtain u us where u: "ts = u # us" using False by (cases ts) auto
      have "rt_current_thread (rt_thread_yield ?k) = Some (hd (ts @ [t]))"
        unfolding e using schedule_head[OF si, of p u "us @ [t]"] Suc u by simp
      then show ?thesis using e Suc inv r by simp
    qed
  qed
  then show ?thesis using assms(5) by (simp add: hd_rotate_conv_nth)
qed

definition demo_pair :: kernel where
  "demo_pair = rt_thread_control 2 (Ctrl_Change_Priority 8) demo_kernel"

theorem yield_takes_turns_witness:
  "tlists demo_pair (Ready 8) = [1, 2] \<and> rt_current_thread (rt_thread_yield demo_pair) = Some 2 \<and>
    rt_current_thread (rt_thread_yield (rt_thread_yield demo_pair)) = Some 1"
proof -
  have t: "rt_tick demo_pair = rt_tick demo_kernel" "rt_current_thread demo_pair = Some 1"
    using demo_current by (simp_all add: demo_pair_def change_priority_fields)
  have "stat_of demo_kernel 2 \<noteq> RT_THREAD_CLOSE" by code_simp
  then have i: "kernel_inv demo_pair"
    using change_priority_inv[OF demo_kernel_inv, of 8 2] t(1) by (simp add: demo_pair_def)
  have q: "tlists demo_pair (Ready 8) = [1, 2]" by code_simp
  have l: "rt_scheduler_lock_nest demo_pair = 0" by code_simp
  have e: "\<forall>p' < 8. tlists demo_pair (Ready p') = []"
  proof -
    have "rt_thread_ready_priority_group demo_pair = 0x80000100" by code_simp
    moreover have "\<forall>p \<in> set [0..<8]. \<not> bit (0x80000100 :: u32) p" by code_simp
    ultimately show ?thesis using kinvD(1)[OF i] unfolding sched_inv_def by (metis atLeastLessThan_iff le0 set_upt)
  qed
  have c: "rt_current_thread demo_pair = Some (hd [1, 2])" using t(2) by simp
  note y = yield_takes_turns[OF i l c q _ e]
  show ?thesis using y[of 1] y[of 2] q by (simp add: numeral_2_eq_2)
qed


section \<open>Timers\<close>

text \<open>C5: Starting a timer.  A stopped timer that is due in less than half the tick range is
  placed behind all timers due no later and before all timers due later, so the list stays
  in order of due ticks, and timers with equal due ticks in order of their starts, across
  a wrap-around of the tick counter as well.\<close>

theorem timer_start_in_order:
  assumes "timers_wf (rt_tick k) k" "\<not> active k r" "unat (tm_init_tick (timers k r)) < unat HALF_TICK_MAX"
  defines "d \<equiv> due_in ((timeout_of k)(r := rt_tick k + tm_init_tick (timers k r))) (rt_tick k)"
    and "k' \<equiv> snd (rt_timer_start r k)"
  shows "rt_timer_list k' = filter (\<lambda>t. d t \<le> d r) (rt_timer_list k) @ r # filter (\<lambda>t. d r < d t) (rt_timer_list k) \<and>
    timers_wf (rt_tick k) k' \<and> timeout_of k' r = rt_tick k + tm_init_tick (timers k r) \<and> active k' r"
proof -
  let ?tt = "(timeout_of k)(r := due_tick k r)"
  have nin: "r \<notin> set (rt_timer_list k)" using assms(1,2) by (auto simp: timers_wf_def)
  have "timer_order (timeout_of k) (rt_tick k) (rt_timer_list k)" using assms(1) by (simp add: timers_wf_def)
  then have o: "timer_order ?tt (rt_tick k) (rt_timer_list k)"
    by (subst timer_order_cong[of _ _ "timeout_of k"]) (use nin in auto)
  have d: "due_in ?tt (rt_tick k) r < unat HALF_TICK_MAX" using assms(3) by (simp add: due_in_def due_tick_def)
  have w: "timers_wf (rt_tick k) k'"
    unfolding k'_def by (rule rt_timer_start_wf[OF assms(1,2)]) (use assms(3) in \<open>simp add: due_tick_def\<close>)
  show ?thesis using timer_order_insert(2)[OF o d] w
    by (simp add: k'_def rt_timer_start_stopped[OF assms(2)] d_def due_tick_def)
qed

definition demo_timers :: kernel where
  "demo_timers = (let k = kernel_boot\<lparr>rt_tick := 0xFFFFFFFB\<rparr>;
      k = snd (rt_timer_start (UserTimer 1) (timer_init (UserTimer 1) 20 0 k))
    in timer_init (UserTimer 2) 4 0 k)"

theorem timer_start_in_order_witness:
  "rt_timer_list demo_timers = [UserTimer 1] \<and> timeout_of demo_timers (UserTimer 1) = 15 \<and>
    timeout_of (snd (rt_timer_start (UserTimer 2) demo_timers)) (UserTimer 2) = 0xFFFFFFFF \<and>
    rt_timer_list (snd (rt_timer_start (UserTimer 2) demo_timers)) = [UserTimer 2, UserTimer 1]"
proof -
  have l: "rt_timer_list demo_timers = [UserTimer 1]" by code_simp
  have t: "timeout_of demo_timers (UserTimer 1) = 15" by code_simp
  have n: "rt_tick demo_timers = 0xFFFFFFFB" by code_simp
  have i: "tm_init_tick (timers demo_timers (UserTimer 2)) = 4" by code_simp
  have a: "active demo_timers (UserTimer 1)" "\<not> active demo_timers (UserTimer 2)" by code_simp+
  have w: "timers_wf (rt_tick demo_timers) demo_timers" using l t n a by (simp add: timers_wf_def timer_order_def due_in_def)
  from timer_start_in_order[OF w a(2)] show ?thesis using l t n i by (simp add: due_in_def)
qed

text \<open>C6: The timer check of a tick.  When the tick counter has advanced from \<open>b\<close> to \<open>b + 1\<close>, the
  loop of \<^verbatim>\<open>rt_timer_check\<close> ends; exactly the threads whose timer is due by then are made
  ready, each with the error \<^verbatim>\<open>-RT_ETIMEOUT\<close>; their timers leave the list and the other
  timers and threads are untouched.\<close>

theorem timer_check_exact:
  assumes "kinv b {} k" "rt_tick k = b + 1" "thread_timers_only k"
  shows "\<exists>k'. rt_timer_check (timeout_func user) k = Some k' \<and> kernel_inv k' \<and>
    rt_timer_list k' = filter (\<lambda>r. 1 < unat (timeout_of k r - b)) (rt_timer_list k) \<and>
    (\<forall>x. threads k' x =
      (if ThreadTimer x \<in> set (rt_timer_list k) \<and> unat (timeout_of k (ThreadTimer x) - b) \<le> 1
       then (threads k x)\<lparr>th_error := - RT_ETIMEOUT, th_stat := RT_THREAD_READY\<rparr> else threads k x))"
proof -
  obtain k' where c: "rt_timer_check (timeout_func user) k = Some k'" "kinv (b + 1) {} k'" "rt_tick k' = b + 1"
    "rt_timer_list k = expired b k @ rt_timer_list k'" 
    "\<And>x. threads k' x = (if ThreadTimer x \<in> set (expired b k) then woken (threads k x) else threads k x)"
    using timer_check_wakes[OF assms, of user] by metis
  have d: "distinct (rt_timer_list k)" using kinvD(2)[OF assms(1)] by (simp add: timers_wf_def)
  let ?late = "\<lambda>r. 1 < unat (timeout_of k r - b)"
  have e: "expired b k = filter (\<lambda>r. \<not> ?late r) (rt_timer_list k)" by (simp add: expired_def due_in_def not_less)
  have n: "?late r" if "r \<in> set (rt_timer_list k')" for r
  proof (rule ccontr)
    assume "\<not> ?late r"
    moreover have "r \<in> set (rt_timer_list k)" using that c(4) by (metis Un_iff set_append)
    ultimately have "r \<in> set (expired b k)" using e by simp
    moreover have "distinct (expired b k @ rt_timer_list k')" using d c(4) by metis
    ultimately show False using that by auto
  qed
  have "filter ?late (rt_timer_list k) = filter ?late (expired b k) @ filter ?late (rt_timer_list k')"
    using c(4) by (metis filter_append)
  also have "filter ?late (expired b k) = []" by (simp add: e)
  finally have "rt_timer_list k' = filter ?late (rt_timer_list k)" using n by simp
  moreover have "kernel_inv k'" using c(2,3) by simp
  moreover have "threads k' x = (if ThreadTimer x \<in> set (rt_timer_list k) \<and> unat (timeout_of k (ThreadTimer x) - b) \<le> 1
      then (threads k x)\<lparr>th_error := - RT_ETIMEOUT, th_stat := RT_THREAD_READY\<rparr> else threads k x)" for x
    unfolding c(5) e woken_def by (simp add: not_less)
  ultimately show ?thesis using c(1) by blast
qed

definition demo_due :: kernel where
  "demo_due = (rt_thread_sleep 1 demo_kernel)\<lparr>rt_tick := rt_tick demo_kernel + 1\<rparr>"

theorem timer_check_exact_witness:
  "stat_of demo_due 1 = RT_THREAD_SUSPEND \<and>
    (\<exists>k'. rt_timer_check (timeout_func (\<lambda>_ k. k)) demo_due = Some k' \<and> stat_of k' 1 = RT_THREAD_READY)"
proof -
  have "stat_of demo_kernel 1 = RT_THREAD_READY" by code_simp
  then have "kinv (rt_tick demo_kernel) {} (rt_thread_sleep 1 demo_kernel)"
    by (intro thread_sleep_inv[OF demo_kernel_inv demo_current]) simp_all
  moreover have "kinv (rt_tick demo_kernel) {} demo_due = kinv (rt_tick demo_kernel) {} (rt_thread_sleep 1 demo_kernel)"
    unfolding demo_due_def by (rule kinv_frame) simp_all
  ultimately have i: "kinv (rt_tick demo_kernel) {} demo_due" by simp
  have t: "rt_tick demo_due = rt_tick demo_kernel + 1" by (simp add: demo_due_def)
  have l: "rt_timer_list demo_due = [ThreadTimer 1]" by code_simp
  have d: "timeout_of demo_due (ThreadTimer 1) - rt_tick demo_kernel = 1" by code_simp
  have s: "stat_of demo_due 1 = RT_THREAD_SUSPEND" by code_simp
  have "thread_timers_only demo_due" using l by (simp add: thread_timers_only_def)
  from timer_check_exact[OF i t this, of "\<lambda>_ k. k"] obtain k' where
    "rt_timer_check (timeout_func (\<lambda>_ k. k)) demo_due = Some k'" "stat_of k' 1 = RT_THREAD_READY"
    using l d by auto
  then show ?thesis using s by blast
qed

end
