(* ===== verification/BxCan.thy ===== *)
theory BxCan
  imports Prelude
begin

text \<open>
  The register-level CAN driver \<^verbatim>\<open>STM32F4xx_StdPeriph_Driver/src/stm32f4xx_can.c\<close>
  (filter banks, transmit mailboxes, receive FIFOs) and the send routine of
  \<^verbatim>\<open>drivers/can.c\<close> that retries it.  A controller is the record of its registers; a
  call of a driver function is one step on it.  What the hardware does to the
  registers between two calls is a parameter of the definitions that wait for it.
  Parameter assertions are compiled out of the driver.
\<close>


section \<open>Registers and messages\<close>

record CAN_TxMailBox =
  TIR :: u32
  TDTR :: u32
  TDLR :: u32
  TDHR :: u32

record CAN_FIFOMailBox =
  RIR :: u32
  RDTR :: u32
  RDLR :: u32
  RDHR :: u32

record CAN_FilterRegister =
  FR1 :: u32
  FR2 :: u32

record CAN_TypeDef =
  TSR :: u32
  RF0R :: u32
  RF1R :: u32
  sTxMailBox :: "CAN_TxMailBox list"
  sFIFOMailBox :: "CAN_FIFOMailBox list"
  FMR :: u32
  FM1R :: u32
  FS1R :: u32
  FFA1R :: u32
  FA1R :: u32
  sFilterRegister :: "CAN_FilterRegister list"

record CAN_FilterInitTypeDef =
  CAN_FilterIdHigh :: u16
  CAN_FilterIdLow :: u16
  CAN_FilterMaskIdHigh :: u16
  CAN_FilterMaskIdLow :: u16
  CAN_FilterFIFOAssignment :: u16
  CAN_FilterNumber :: u8
  CAN_FilterMode :: u8
  CAN_FilterScale :: u8
  CAN_FilterActivation :: bool

record CanTxMsg =
  tx_StdId :: u32
  tx_ExtId :: u32
  tx_IDE :: u8
  tx_RTR :: u8
  tx_DLC :: u8
  tx_Data :: "u8 list"

record CanRxMsg =
  rx_StdId :: u32
  rx_ExtId :: u32
  rx_IDE :: u8
  rx_RTR :: u8
  rx_DLC :: u8
  rx_Data :: "u8 list"
  rx_FMI :: u8

abbreviation (input) CAN_FilterMode_IdMask :: u8 where "CAN_FilterMode_IdMask \<equiv> 0"
abbreviation (input) CAN_FilterMode_IdList :: u8 where "CAN_FilterMode_IdList \<equiv> 1"
abbreviation (input) CAN_FilterScale_16bit :: u8 where "CAN_FilterScale_16bit \<equiv> 0"
abbreviation (input) CAN_FilterScale_32bit :: u8 where "CAN_FilterScale_32bit \<equiv> 1"
abbreviation (input) CAN_NO_MB :: u8 where "CAN_NO_MB \<equiv> 4"
abbreviation (input) TMIDxR_TXRQ :: u32 where "TMIDxR_TXRQ \<equiv> 1"
abbreviation (input) FMR_FINIT :: u32 where "FMR_FINIT \<equiv> 1"


section \<open>Filter banks\<close>

definition upd_filter ::
  "nat \<Rightarrow> (CAN_FilterRegister \<Rightarrow> CAN_FilterRegister) \<Rightarrow> CAN_TypeDef \<Rightarrow> CAN_TypeDef" where
  "upd_filter n f c = c\<lparr>sFilterRegister := (sFilterRegister c)[n := f (sFilterRegister c ! n)]\<rparr>"

definition CAN_FilterInit :: "CAN_FilterInitTypeDef \<Rightarrow> CAN_TypeDef \<Rightarrow> CAN_TypeDef" where
  "CAN_FilterInit f c =
    (let n = unat (CAN_FilterNumber f);
         filter_number_bit_pos = push_bit n 1 :: u32;
         c = c\<lparr>FMR := FMR c OR FMR_FINIT\<rparr>;
         c = c\<lparr>FA1R := FA1R c AND NOT filter_number_bit_pos\<rparr>;
         c = (if CAN_FilterScale f = CAN_FilterScale_16bit
              then upd_filter n (\<lambda>r. r\<lparr>
                     FR1 := push_bit 16 (0xFFFF AND ucast (CAN_FilterMaskIdLow f))
                            OR (0xFFFF AND ucast (CAN_FilterIdLow f)),
                     FR2 := push_bit 16 (0xFFFF AND ucast (CAN_FilterMaskIdHigh f))
                            OR (0xFFFF AND ucast (CAN_FilterIdHigh f))\<rparr>)
                     (c\<lparr>FS1R := FS1R c AND NOT filter_number_bit_pos\<rparr>)
              else c);
         c = (if CAN_FilterScale f = CAN_FilterScale_32bit
              then upd_filter n (\<lambda>r. r\<lparr>
                     FR1 := push_bit 16 (0xFFFF AND ucast (CAN_FilterIdHigh f))
                            OR (0xFFFF AND ucast (CAN_FilterIdLow f)),
                     FR2 := push_bit 16 (0xFFFF AND ucast (CAN_FilterMaskIdHigh f))
                            OR (0xFFFF AND ucast (CAN_FilterMaskIdLow f))\<rparr>)
                     (c\<lparr>FS1R := FS1R c OR filter_number_bit_pos\<rparr>)
              else c);
         c = (if CAN_FilterMode f = CAN_FilterMode_IdMask
              then c\<lparr>FM1R := FM1R c AND NOT filter_number_bit_pos\<rparr>
              else c\<lparr>FM1R := FM1R c OR filter_number_bit_pos\<rparr>);
         c = (if CAN_FilterFIFOAssignment f = 0
              then c\<lparr>FFA1R := FFA1R c AND NOT filter_number_bit_pos\<rparr> else c);
         c = (if CAN_FilterFIFOAssignment f = 1
              then c\<lparr>FFA1R := FFA1R c OR filter_number_bit_pos\<rparr> else c);
         c = (if CAN_FilterActivation f
              then c\<lparr>FA1R := FA1R c OR filter_number_bit_pos\<rparr> else c)
     in c\<lparr>FMR := FMR c AND NOT FMR_FINIT\<rparr>)"

definition CAN_SlaveStartBank :: "u8 \<Rightarrow> CAN_TypeDef \<Rightarrow> CAN_TypeDef" where
  "CAN_SlaveStartBank CAN_BankNumber c =
    (let c = c\<lparr>FMR := FMR c OR FMR_FINIT\<rparr>;
         c = c\<lparr>FMR := FMR c AND 0xFFFFC0F1\<rparr>;
         c = c\<lparr>FMR := FMR c OR push_bit 8 (ucast CAN_BankNumber)\<rparr>
     in c\<lparr>FMR := FMR c AND NOT FMR_FINIT\<rparr>)"


section \<open>Transmission\<close>

definition upd_tx ::
  "nat \<Rightarrow> (CAN_TxMailBox \<Rightarrow> CAN_TxMailBox) \<Rightarrow> CAN_TypeDef \<Rightarrow> CAN_TypeDef" where
  "upd_tx n f c = c\<lparr>sTxMailBox := (sTxMailBox c)[n := f (sTxMailBox c ! n)]\<rparr>"

text \<open>The mailbox choice is the first of the three whose empty bit (26, 27, 28 of TSR) is set.\<close>

definition transmit_mailbox :: "CAN_TypeDef \<Rightarrow> u8" where
  "transmit_mailbox c =
    (if TSR c AND 0x04000000 = 0x04000000 then 0
     else if TSR c AND 0x08000000 = 0x08000000 then 1
     else if TSR c AND 0x10000000 = 0x10000000 then 2
     else CAN_NO_MB)"

definition CAN_Transmit :: "CAN_TypeDef \<Rightarrow> CanTxMsg \<Rightarrow> u8 \<times> CAN_TypeDef \<times> CanTxMsg" where
  "CAN_Transmit c m =
    (let mb = transmit_mailbox c; n = unat mb
     in if mb \<noteq> CAN_NO_MB
        then
          let c = upd_tx n (\<lambda>b. b\<lparr>TIR := TIR b AND TMIDxR_TXRQ\<rparr>) c;
              c = (if tx_IDE m = 0
                   then upd_tx n (\<lambda>b. b\<lparr>TIR := TIR b OR
                          (push_bit 21 (tx_StdId m) OR ucast (tx_RTR m))\<rparr>) c
                   else upd_tx n (\<lambda>b. b\<lparr>TIR := TIR b OR
                          (push_bit 3 (tx_ExtId m) OR ucast (tx_IDE m) OR ucast (tx_RTR m))\<rparr>) c);
              m = m\<lparr>tx_DLC := tx_DLC m AND 0x0F\<rparr>;
              c = upd_tx n (\<lambda>b. b\<lparr>TDTR := TDTR b AND 0xFFFFFFF0\<rparr>) c;
              c = upd_tx n (\<lambda>b. b\<lparr>TDTR := TDTR b OR ucast (tx_DLC m)\<rparr>) c;
              c = upd_tx n (\<lambda>b. b\<lparr>TDLR := push_bit 24 (ucast (tx_Data m ! 3)) OR
                     push_bit 16 (ucast (tx_Data m ! 2)) OR
                     push_bit 8 (ucast (tx_Data m ! 1)) OR ucast (tx_Data m ! 0)\<rparr>) c;
              c = upd_tx n (\<lambda>b. b\<lparr>TDHR := push_bit 24 (ucast (tx_Data m ! 7)) OR
                     push_bit 16 (ucast (tx_Data m ! 6)) OR
                     push_bit 8 (ucast (tx_Data m ! 5)) OR ucast (tx_Data m ! 4)\<rparr>) c;
              c = upd_tx n (\<lambda>b. b\<lparr>TIR := TIR b OR TMIDxR_TXRQ\<rparr>) c
          in (mb, c, m)
        else (mb, c, m))"

text \<open>
  \<^verbatim>\<open>_can_senddata\<close>: \<open>hw i\<close> is what the controller does during the i-th delay of
  5 ms.  The result has the flag of the error report, whose output goes to the
  display and a log file.
\<close>

function can_send_loop ::
  "(nat \<Rightarrow> CAN_TypeDef \<Rightarrow> CAN_TypeDef) \<Rightarrow> nat \<Rightarrow> CAN_TypeDef \<Rightarrow> CanTxMsg
    \<Rightarrow> nat \<times> CAN_TypeDef \<times> CanTxMsg" where
  "can_send_loop hw wait_time canx tx =
    (case CAN_Transmit canx tx of (mb, canx', tx') \<Rightarrow>
       if mb = CAN_NO_MB \<and> wait_time < 6
       then can_send_loop hw (wait_time + 1) (hw wait_time canx') tx'
       else (wait_time, canx', tx'))"
  by pat_completeness auto
termination
  by (relation "measure (\<lambda>(hw, wait_time, canx, tx). 6 - wait_time)") auto

definition can_senddata ::
  "(nat \<Rightarrow> CAN_TypeDef \<Rightarrow> CAN_TypeDef) \<Rightarrow> CAN_TypeDef \<Rightarrow> CanTxMsg \<Rightarrow> bool \<times> CAN_TypeDef" where
  "can_senddata hw canx tx =
    (case can_send_loop hw 0 canx tx of (wait_time, canx', tx') \<Rightarrow> (6 \<le> wait_time, canx'))"


section \<open>Reception\<close>

definition CAN_Receive ::
  "CAN_TypeDef \<Rightarrow> u8 \<Rightarrow> CanRxMsg \<Rightarrow> CanRxMsg \<times> CAN_TypeDef" where
  "CAN_Receive c FIFONumber m =
    (let b = sFIFOMailBox c ! unat FIFONumber;
         m = m\<lparr>rx_IDE := ucast (0x04 AND RIR b)\<rparr>;
         m = (if rx_IDE m = 0
              then m\<lparr>rx_StdId := 0x7FF AND drop_bit 21 (RIR b)\<rparr>
              else m\<lparr>rx_ExtId := 0x1FFFFFFF AND drop_bit 3 (RIR b)\<rparr>);
         m = m\<lparr>rx_RTR := ucast (0x02 AND RIR b)\<rparr>;
         m = m\<lparr>rx_DLC := ucast (0x0F AND RDTR b)\<rparr>;
         m = m\<lparr>rx_FMI := ucast (0xFF AND drop_bit 8 (RDTR b))\<rparr>;
         m = m\<lparr>rx_Data :=
               [ucast (0xFF AND RDLR b), ucast (0xFF AND drop_bit 8 (RDLR b)),
                ucast (0xFF AND drop_bit 16 (RDLR b)), ucast (0xFF AND drop_bit 24 (RDLR b)),
                ucast (0xFF AND RDHR b), ucast (0xFF AND drop_bit 8 (RDHR b)),
                ucast (0xFF AND drop_bit 16 (RDHR b)), ucast (0xFF AND drop_bit 24 (RDHR b))]\<rparr>
     in (m, if FIFONumber = 0 then c\<lparr>RF0R := RF0R c OR 0x20\<rparr> else c\<lparr>RF1R := RF1R c OR 0x20\<rparr>))"


section \<open>Filter banks as the controller reads them\<close>

text \<open>
  An active bank as its mode, its scale, the FIFO it feeds (true: FIFO 1) and the four 16-bit
  identifiers of its registers.
\<close>

definition filter_bank :: "CAN_TypeDef \<Rightarrow> nat \<Rightarrow> (bool \<times> bool \<times> bool \<times> u16 list) option" where
  "filter_bank c b =
    (if bit (FA1R c) b
     then let r = sFilterRegister c ! b
          in Some (bit (FM1R c) b, bit (FS1R c) b, bit (FFA1R c) b,
                   [ucast (FR2 r), ucast (FR1 r), ucast (drop_bit 16 (FR2 r)), ucast (drop_bit 16 (FR1 r))])
     else None)"

lemma halves_u32:
  "ucast (push_bit 16 (0xFFFF AND ucast (h :: u16)) OR (0xFFFF AND ucast (l :: u16)) :: u32) = l"
  "ucast (drop_bit 16 (push_bit 16 (0xFFFF AND ucast (h :: u16)) OR (0xFFFF AND ucast (l :: u16)) :: u32)) = h"
  by (rule bit_word_eqI; auto simp: bit_simps bit_low_masks)+

lemma filter_bank_init:
  assumes "CAN_FilterMode f = CAN_FilterMode_IdList" "CAN_FilterScale f = CAN_FilterScale_16bit"
    and "CAN_FilterActivation f" "CAN_FilterFIFOAssignment f = (if fifo then 1 else 0)"
    and "unat (CAN_FilterNumber f) < 28" "length (sFilterRegister c) = 28"
  shows "filter_bank (CAN_FilterInit f c) =
    (filter_bank c)(unat (CAN_FilterNumber f) \<mapsto> (True, False, fifo,
      [CAN_FilterIdHigh f, CAN_FilterIdLow f, CAN_FilterMaskIdHigh f, CAN_FilterMaskIdLow f]))"
  using assms
  by (auto simp: filter_bank_def CAN_FilterInit_def upd_filter_def Let_def fun_eq_iff
      halves_u32[simplified] bit_simps dest: bit_u32_less)

lemma filter_init_regs [simp]:
  "length (sFilterRegister (CAN_FilterInit f c)) = length (sFilterRegister c)"
  by (simp add: CAN_FilterInit_def upd_filter_def Let_def)

lemma filter_bank_slave [simp]:
  "filter_bank (CAN_SlaveStartBank n c) = filter_bank c"
  "sFilterRegister (CAN_SlaveStartBank n c) = sFilterRegister c"
  by (simp_all add: filter_bank_def CAN_SlaveStartBank_def Let_def fun_eq_iff)


section \<open>Frames\<close>

definition frame_bytes :: "u32 \<Rightarrow> u32 \<Rightarrow> u8 list" where
  "frame_bytes lo hi =
    [ucast (0xFF AND lo), ucast (0xFF AND drop_bit 8 lo),
     ucast (0xFF AND drop_bit 16 lo), ucast (0xFF AND drop_bit 24 lo),
     ucast (0xFF AND hi), ucast (0xFF AND drop_bit 8 hi),
     ucast (0xFF AND drop_bit 16 hi), ucast (0xFF AND drop_bit 24 hi)]"

lemma pack_bytes:
  fixes d0 d1 d2 d3 :: u8
  defines "w \<equiv> push_bit 24 (ucast d3) OR push_bit 16 (ucast d2) OR push_bit 8 (ucast d1) OR ucast d0 :: u32"
  shows "ucast (0xFF AND w) = d0" "ucast (0xFF AND drop_bit 8 w) = d1"
    "ucast (0xFF AND drop_bit 16 w) = d2" "ucast (0xFF AND drop_bit 24 w) = d3"
  unfolding w_def
  by (rule bit_word_eqI; auto simp: bit_simps bit_low_masks dest: bit_imp_le_length)+

lemma list_of_8:
  "length d = 8 \<Longrightarrow> d = [d ! 0, d ! 1, d ! 2, d ! 3, d ! 4, d ! 5, d ! 6, d ! 7]"
  by (auto simp: list_eq_iff_nth_eq numeral_eq_Suc less_Suc_eq)

lemma frame_bytes_pack:
  assumes "length d = 8"
  shows "frame_bytes
    (push_bit 24 (ucast (d ! 3)) OR push_bit 16 (ucast (d ! 2)) OR push_bit 8 (ucast (d ! 1)) OR ucast (d ! 0))
    (push_bit 24 (ucast (d ! 7)) OR push_bit 16 (ucast (d ! 6)) OR push_bit 8 (ucast (d ! 5)) OR ucast (d ! 4)) = d"
  unfolding frame_bytes_def pack_bytes by (rule list_of_8[OF assms, symmetric])

text \<open>
  The mailbox a standard data frame is transmitted from: its identifier, length and bytes are
  those of the message, the request bit is set, and nothing else changes.
\<close>

lemma transmit_mailbox_range: "transmit_mailbox c \<noteq> CAN_NO_MB \<Longrightarrow> unat (transmit_mailbox c) < 3"
  by (simp add: transmit_mailbox_def split: if_splits)

lemma CAN_Transmit_none:
  "transmit_mailbox c = CAN_NO_MB \<Longrightarrow> CAN_Transmit c m = (CAN_NO_MB, c, m)"
  by (simp add: CAN_Transmit_def Let_def)

lemma CAN_Transmit_std:
  assumes "transmit_mailbox c \<noteq> CAN_NO_MB" "tx_IDE m = 0" "tx_RTR m = 0" "length (sTxMailBox c) = 3"
  defines "n \<equiv> unat (transmit_mailbox c)"
  shows "\<exists>b. CAN_Transmit c m =
      (transmit_mailbox c, c\<lparr>sTxMailBox := (sTxMailBox c)[n := b]\<rparr>, m\<lparr>tx_DLC := tx_DLC m AND 15\<rparr>)
    \<and> TIR b = push_bit 21 (tx_StdId m) OR 1
    \<and> TDTR b AND 15 = ucast (tx_DLC m AND 15)
    \<and> (length (tx_Data m) = 8 \<longrightarrow> frame_bytes (TDLR b) (TDHR b) = tx_Data m)"
proof -
  have [simp]: "n < 3" unfolding n_def using assms(1) by (rule transmit_mailbox_range)
  have 1: "(TIR b AND 1 OR push_bit 21 i) OR 1 = push_bit 21 i OR (1 :: u32)" for b i
    by (rule bit_word_eqI) (auto simp: bit_simps)
  have 2: "(t AND 0xFFFFFFF0 OR ucast (d AND 15 :: u8)) AND 15 = (ucast (d AND 15) :: u32)" for t d
  proof -
    have "ucast (d AND 15 :: u8) AND 15 = (ucast (d AND 15) :: u32)"
      by (rule bit_word_eqI) (auto simp: bit_simps bit_low_masks)
    then show ?thesis by (simp add: bit.conj_disj_distrib2 and.assoc)
  qed
  show ?thesis
    using assms(1,2,3,4) unfolding CAN_Transmit_def upd_tx_def Let_def n_def[symmetric]
    by simp (rule exI, rule conjI, rule refl, simp add: 1 2 frame_bytes_pack[simplified])
qed


section \<open>Properties\<close>

text \<open>
  What a bus delivers into a receive mailbox for a frame requested from a transmit mailbox: the
  identifier register but for the request bit, the length, and as many bytes as the length says.
\<close>

definition bus_delivers :: "CAN_TxMailBox \<Rightarrow> CAN_FIFOMailBox \<Rightarrow> bool" where
  "bus_delivers b f \<longleftrightarrow>
    RIR f AND NOT TMIDxR_TXRQ = TIR b AND NOT TMIDxR_TXRQ \<and>
    RDTR f AND 15 = TDTR b AND 15 \<and>
    (let n = unat (TDTR b AND 15)
     in take n (frame_bytes (RDLR f) (RDHR f)) = take n (frame_bytes (TDLR b) (TDHR b)))"

lemma receive_std:
  assumes "RIR f AND NOT 1 = push_bit 21 i" "(i :: u32) < 2048" "sFIFOMailBox d ! unat fifo = f"
  shows "fst (CAN_Receive d fifo r) =
    r\<lparr>rx_IDE := 0, rx_StdId := i, rx_RTR := 0, rx_DLC := ucast (0x0F AND RDTR f),
      rx_FMI := ucast (0xFF AND drop_bit 8 (RDTR f)), rx_Data := frame_bytes (RDLR f) (RDHR f)\<rparr>"
proof -
  have b: "n \<noteq> 0 \<Longrightarrow> bit (RIR f) n = (21 \<le> n \<and> n < 32 \<and> bit i (n - 21))" for n
    using arg_cong[OF assms(1), of "\<lambda>w. bit w n"] by (auto simp: bit_simps dest: bit_u32_less)
  have i: "bit i n \<Longrightarrow> n < 11" for n
    using assms(2) small_bit[of i 11 n] by (simp add: word_less_nat_alt)
  have "ucast (0x04 AND RIR f) = (0 :: u8)" "ucast (0x02 AND RIR f) = (0 :: u8)"
    by (rule bit_word_eqI; auto simp: bit_simps bit_low_masks b)+
  moreover have "0x7FF AND drop_bit 21 (RIR f) = i"
    by (rule bit_word_eqI) (auto simp: bit_simps bit_low_masks b dest: i)
  ultimately show ?thesis
    using assms(3) by (simp add: CAN_Receive_def Let_def frame_bytes_def)
qed

text \<open>C20: A standard data frame that is transmitted and delivered by the bus is received unchanged:
  the receive routine returns the identifier, the length and the bytes of the message the
  transmit routine was given, in a controller of any node.
\<close>

theorem can_frame_roundtrip:
  assumes "CAN_Transmit c m = (mb, c', m')" "mb \<noteq> CAN_NO_MB" "length (sTxMailBox c) = 3"
    and "tx_IDE m = 0" "tx_RTR m = 0" "tx_StdId m < 2048" "tx_DLC m \<le> 8" "length (tx_Data m) = 8"
    and "bus_delivers (sTxMailBox c' ! unat mb) (sFIFOMailBox d ! unat fifo)"
    and "CAN_Receive d fifo r = (r', d')"
  shows "rx_StdId r' = tx_StdId m \<and> rx_IDE r' = 0 \<and> rx_RTR r' = 0 \<and> rx_DLC r' = tx_DLC m \<and>
    take (unat (rx_DLC r')) (rx_Data r') = take (unat (tx_DLC m)) (tx_Data m)"
proof -
  have mb: "mb = transmit_mailbox c" using assms(1) by (auto simp: CAN_Transmit_def Let_def split: if_splits)
  then have n: "transmit_mailbox c \<noteq> CAN_NO_MB" "unat mb < 3" using assms(2) transmit_mailbox_range by auto
  obtain b where b: "c' = c\<lparr>sTxMailBox := (sTxMailBox c)[unat mb := b]\<rparr>"
    "TIR b = push_bit 21 (tx_StdId m) OR 1" "TDTR b AND 15 = ucast (tx_DLC m AND 15)"
    "frame_bytes (TDLR b) (TDHR b) = tx_Data m"
    using CAN_Transmit_std[OF n(1) assms(4,5,3)] assms(1,8) mb by auto
  let ?f = "sFIFOMailBox d ! unat fifo"
  have clear: "(push_bit 21 x OR 1) AND NOT 1 = push_bit 21 (x :: u32)" for x
    by (rule bit_word_eqI) (auto simp: bit_simps)
  have dlc: "tx_DLC m AND 15 = tx_DLC m"
    using assms(7) small_bit[of "tx_DLC m" 4]
    by (intro bit_word_eqI) (auto simp: bit_simps bit_low_masks word_le_nat_alt)
  have "unat (ucast (tx_DLC m) :: u32) = unat (tx_DLC m)"
    using unsigned_less[of "tx_DLC m", where 'a = nat]
    by (simp add: unsigned_ucast_eq take_bit_nat_eq_self)
  then have f: "RIR ?f AND NOT 1 = push_bit 21 (tx_StdId m)" "RDTR ?f AND 15 = ucast (tx_DLC m)"
    "take (unat (tx_DLC m)) (frame_bytes (RDLR ?f) (RDHR ?f)) = take (unat (tx_DLC m)) (tx_Data m)"
    using assms(9) b n(2) assms(3) dlc clear by (simp_all add: bus_delivers_def Let_def)
  moreover have "ucast (ucast (tx_DLC m) :: u32) = tx_DLC m"
    by (rule bit_word_eqI) (auto simp: bit_simps)
  ultimately show ?thesis
    using receive_std[OF f(1) assms(6) refl, where r = r] assms(10)
    by (auto simp: and.commute)
qed

definition demo_can :: CAN_TypeDef where
  "demo_can = \<lparr>TSR = 0x1C000000, RF0R = 0, RF1R = 0,
    sTxMailBox = replicate 3 \<lparr>TIR = 0, TDTR = 0, TDLR = 0, TDHR = 0\<rparr>,
    sFIFOMailBox = [\<lparr>RIR = 0x14000000, RDTR = 0x302, RDLR = 0xFFFFBBAA, RDHR = 0\<rparr>,
                    \<lparr>RIR = 0, RDTR = 0, RDLR = 0, RDHR = 0\<rparr>],
    FMR = 0, FM1R = 0, FS1R = 0, FFA1R = 0, FA1R = 0,
    sFilterRegister = replicate 28 \<lparr>FR1 = 0, FR2 = 0\<rparr>\<rparr>"

definition demo_tx :: CanTxMsg where
  "demo_tx = \<lparr>tx_StdId = 0xa0, tx_ExtId = 0, tx_IDE = 0, tx_RTR = 0, tx_DLC = 2,
    tx_Data = [0xAA, 0xBB, 1, 2, 3, 4, 5, 6]\<rparr>"

definition demo_rx :: CanRxMsg where
  "demo_rx = \<lparr>rx_StdId = 1, rx_ExtId = 0, rx_IDE = 4, rx_RTR = 0, rx_DLC = 0, rx_Data = [], rx_FMI = 0\<rparr>"

theorem can_frame_roundtrip_witness:
  "\<exists>mb c' m' r' d'. CAN_Transmit demo_can demo_tx = (mb, c', m') \<and> mb = 0 \<and>
    CAN_Receive demo_can 0 demo_rx = (r', d') \<and> rx_StdId r' = 0xa0 \<and>
    take (unat (rx_DLC r')) (rx_Data r') = [0xAA, 0xBB]"
proof -
  obtain mb c' m' where t: "CAN_Transmit demo_can demo_tx = (mb, c', m')"
    by (cases "CAN_Transmit demo_can demo_tx") auto
  obtain r' d' where r: "CAN_Receive demo_can 0 demo_rx = (r', d')"
    by (cases "CAN_Receive demo_can 0 demo_rx") auto
  have mb: "mb = 0" using t by (simp add: CAN_Transmit_def transmit_mailbox_def demo_can_def Let_def)
  have "bus_delivers (sTxMailBox (fst (snd (CAN_Transmit demo_can demo_tx))) ! 0) (sFIFOMailBox demo_can ! 0)"
    by code_simp
  then have c': "bus_delivers (sTxMailBox c' ! unat mb) (sFIFOMailBox demo_can ! unat (0 :: u8))"
    unfolding t mb by simp
  show ?thesis
    using can_frame_roundtrip[OF t _ _ _ _ _ _ _ c' r] t r mb
    by (auto simp: demo_can_def demo_tx_def)
qed


text \<open>The registers at poll \<open>n\<close>, while every earlier poll found no empty mailbox.\<close>

primrec registers_at :: "(nat \<Rightarrow> CAN_TypeDef \<Rightarrow> CAN_TypeDef) \<Rightarrow> CAN_TypeDef \<Rightarrow> nat \<Rightarrow> CAN_TypeDef" where
  "registers_at hw c 0 = c"
| "registers_at hw c (Suc n) = hw n (registers_at hw c n)"

lemma send_loop_polls:
  assumes "\<forall>j < i. transmit_mailbox (registers_at hw c j) = CAN_NO_MB" "i \<le> 6"
  shows "can_send_loop hw 0 c m = can_send_loop hw i (registers_at hw c i) m"
  using assms
proof (induction i)
  case (Suc i)
  have "can_send_loop hw i (registers_at hw c i) m = can_send_loop hw (Suc i) (registers_at hw c (Suc i)) m"
    using Suc.prems by (subst can_send_loop.simps) (simp add: CAN_Transmit_none del: can_send_loop.simps)
  then show ?case using Suc by simp
qed simp

lemma transmit_result: "fst (CAN_Transmit c m) = transmit_mailbox c"
  by (simp add: CAN_Transmit_def Let_def)

text \<open>C21: The send routine polls the controller at most seven times, 5 ms apart.  The frame goes into
  a mailbox of the first poll that finds one empty, and an error is reported when that was the
  seventh; when no poll finds one, the registers are left as they are and the error is reported.
\<close>

theorem can_send_retries:
  "(i \<le> 6 \<and> (\<forall>j < i. transmit_mailbox (registers_at hw c j) = CAN_NO_MB) \<and>
      transmit_mailbox (registers_at hw c i) \<noteq> CAN_NO_MB
    \<longrightarrow> can_senddata hw c m = (i = 6, fst (snd (CAN_Transmit (registers_at hw c i) m)))) \<and>
   ((\<forall>j \<le> 6. transmit_mailbox (registers_at hw c j) = CAN_NO_MB)
    \<longrightarrow> can_senddata hw c m = (True, registers_at hw c 6))"
proof (intro conjI impI)
  assume a: "i \<le> 6 \<and> (\<forall>j < i. transmit_mailbox (registers_at hw c j) = CAN_NO_MB) \<and>
    transmit_mailbox (registers_at hw c i) \<noteq> CAN_NO_MB"
  then have "can_send_loop hw 0 c m = can_send_loop hw i (registers_at hw c i) m"
    by (intro send_loop_polls) auto
  also have "\<dots> = (i, snd (CAN_Transmit (registers_at hw c i) m))"
    using a transmit_result[of "registers_at hw c i" m]
    by (subst can_send_loop.simps) (auto simp: case_prod_beta simp del: can_send_loop.simps)
  finally show "can_senddata hw c m = (i = 6, fst (snd (CAN_Transmit (registers_at hw c i) m)))"
    using a by (auto simp: can_senddata_def case_prod_beta simp del: can_send_loop.simps)
next
  assume a: "\<forall>j \<le> 6. transmit_mailbox (registers_at hw c j) = CAN_NO_MB"
  then have "can_send_loop hw 0 c m = can_send_loop hw 6 (registers_at hw c 6) m"
    by (intro send_loop_polls) auto
  also have "\<dots> = (6, registers_at hw c 6, m)"
    using a by (subst can_send_loop.simps) (simp add: CAN_Transmit_none del: can_send_loop.simps)
  finally show "can_senddata hw c m = (True, registers_at hw c 6)"
    by (simp add: can_senddata_def del: can_send_loop.simps)
qed

theorem can_send_retries_witness:
  "can_senddata (\<lambda>n c. if n = 1 then c\<lparr>TSR := 0x08000000\<rparr> else c) (demo_can\<lparr>TSR := 0\<rparr>) demo_tx =
    (False, fst (snd (CAN_Transmit (demo_can\<lparr>TSR := 0x08000000\<rparr>) demo_tx)))"
proof -
  let ?hw = "\<lambda>n c. if n = 1 then c\<lparr>TSR := 0x08000000\<rparr> else c"
  have "registers_at ?hw (demo_can\<lparr>TSR := 0\<rparr>) 2 = demo_can\<lparr>TSR := 0x08000000\<rparr>"
    by (simp add: numeral_2_eq_2)
  moreover have "\<forall>j < 2. transmit_mailbox (registers_at ?hw (demo_can\<lparr>TSR := 0\<rparr>) j) = CAN_NO_MB"
    "transmit_mailbox (demo_can\<lparr>TSR := 0x08000000\<rparr>) \<noteq> CAN_NO_MB"
    by code_simp+
  ultimately show ?thesis
    using can_send_retries[of 2 ?hw "demo_can\<lparr>TSR := 0\<rparr>" demo_tx] by simp
qed

end
