(* ===== verification/CanDatabase.thy ===== *)
theory CanDatabase
  imports BxCan
begin

text \<open>
  The CAN message database \<^verbatim>\<open>drivers/can_database.c\<close> with its header: the identifiers, the
  table that ties an identifier to a buffer, a length, a handler, a bus and a receive
  FIFO, the index \<^verbatim>\<open>HASH_TABLE\<close>, and the routine \<^verbatim>\<open>Write_Database\<close> that sends an entry.

  Buffers are named by the C variables they are (\<open>MOSI_MOTOR_OLD 1\<close> is
  \<^verbatim>\<open>MOSI_MOTOR1_OLD\<close>, and so on) and hold the bytes of the variable.  A handler is
  named by the function whose address the table holds.  Frames handed to the
  controller are recorded in \<open>can_out\<close> with their bus.  An access outside the
  tables or outside a buffer sets \<open>can_status\<close> to \<open>Wild_Access\<close>.
\<close>


section \<open>Identifiers\<close>

type_synonym ID_NUMDEF = nat

abbreviation (input) M_G_CMD_ID :: ID_NUMDEF where "M_G_CMD_ID \<equiv> 0x00"
abbreviation (input) W_STEPPER_ID :: ID_NUMDEF where "W_STEPPER_ID \<equiv> 0x01"
abbreviation (input) W_GPS_X_ID :: ID_NUMDEF where "W_GPS_X_ID \<equiv> 0x08"
abbreviation (input) W_GPS_Y_ID :: ID_NUMDEF where "W_GPS_Y_ID \<equiv> 0x09"
abbreviation (input) W_GPS_ANG_ID :: ID_NUMDEF where "W_GPS_ANG_ID \<equiv> 0x0a"
abbreviation (input) W_GYRO_C1_ID :: ID_NUMDEF where "W_GYRO_C1_ID \<equiv> 0x10"
abbreviation (input) W_GYRO_C2_ID :: ID_NUMDEF where "W_GYRO_C2_ID \<equiv> 0x11"
abbreviation (input) W_ENC1_C1_ID :: ID_NUMDEF where "W_ENC1_C1_ID \<equiv> 0x18"
abbreviation (input) W_ENC1_C2_ID :: ID_NUMDEF where "W_ENC1_C2_ID \<equiv> 0x19"
abbreviation (input) W_ENC1_RAD_ID :: ID_NUMDEF where "W_ENC1_RAD_ID \<equiv> 0x1a"
abbreviation (input) W_ENC1_ANG_ID :: ID_NUMDEF where "W_ENC1_ANG_ID \<equiv> 0x1b"
abbreviation (input) W_ENC2_C1_ID :: ID_NUMDEF where "W_ENC2_C1_ID \<equiv> 0x20"
abbreviation (input) W_ENC2_C2_ID :: ID_NUMDEF where "W_ENC2_C2_ID \<equiv> 0x21"
abbreviation (input) W_ENC2_RAD_ID :: ID_NUMDEF where "W_ENC2_RAD_ID \<equiv> 0x22"
abbreviation (input) W_ENC2_ANG_ID :: ID_NUMDEF where "W_ENC2_ANG_ID \<equiv> 0x23"
abbreviation (input) G_M_CMD_ID :: ID_NUMDEF where "G_M_CMD_ID \<equiv> 0x40"
abbreviation (input) S_GPS_X_ID :: ID_NUMDEF where "S_GPS_X_ID \<equiv> 0x48"
abbreviation (input) S_GPS_Y_ID :: ID_NUMDEF where "S_GPS_Y_ID \<equiv> 0x49"
abbreviation (input) S_GPS_ANG_ID :: ID_NUMDEF where "S_GPS_ANG_ID \<equiv> 0x4a"
abbreviation (input) S_GYRO_C1_ID :: ID_NUMDEF where "S_GYRO_C1_ID \<equiv> 0x50"
abbreviation (input) S_GYRO_C2_ID :: ID_NUMDEF where "S_GYRO_C2_ID \<equiv> 0x51"
abbreviation (input) S_GYRO_RAD_ID :: ID_NUMDEF where "S_GYRO_RAD_ID \<equiv> 0x52"
abbreviation (input) S_ENC1_C1_ID :: ID_NUMDEF where "S_ENC1_C1_ID \<equiv> 0x58"
abbreviation (input) S_ENC1_C2_ID :: ID_NUMDEF where "S_ENC1_C2_ID \<equiv> 0x59"
abbreviation (input) S_ENC1_RAD_ID :: ID_NUMDEF where "S_ENC1_RAD_ID \<equiv> 0x5a"
abbreviation (input) S_ENC1_ANG_ID :: ID_NUMDEF where "S_ENC1_ANG_ID \<equiv> 0x5b"
abbreviation (input) S_ENC1_DIS_ID :: ID_NUMDEF where "S_ENC1_DIS_ID \<equiv> 0x5c"
abbreviation (input) S_ENC2_C1_ID :: ID_NUMDEF where "S_ENC2_C1_ID \<equiv> 0x60"
abbreviation (input) S_ENC2_C2_ID :: ID_NUMDEF where "S_ENC2_C2_ID \<equiv> 0x61"
abbreviation (input) S_ENC2_RAD_ID :: ID_NUMDEF where "S_ENC2_RAD_ID \<equiv> 0x62"
abbreviation (input) S_ENC2_ANG_ID :: ID_NUMDEF where "S_ENC2_ANG_ID \<equiv> 0x63"
abbreviation (input) S_ENC2_DIS_ID :: ID_NUMDEF where "S_ENC2_DIS_ID \<equiv> 0x64"
abbreviation (input) W_MOTOR1_SPEED_ID :: ID_NUMDEF where "W_MOTOR1_SPEED_ID \<equiv> 0x80"
abbreviation (input) W_MOTOR1_ANGLE_ID :: ID_NUMDEF where "W_MOTOR1_ANGLE_ID \<equiv> 0x81"
abbreviation (input) W_MOTOR2_SPEED_ID :: ID_NUMDEF where "W_MOTOR2_SPEED_ID \<equiv> 0x82"
abbreviation (input) W_MOTOR2_ANGLE_ID :: ID_NUMDEF where "W_MOTOR2_ANGLE_ID \<equiv> 0x83"
abbreviation (input) W_MOTOR3_SPEED_ID :: ID_NUMDEF where "W_MOTOR3_SPEED_ID \<equiv> 0x84"
abbreviation (input) W_MOTOR3_ANGLE_ID :: ID_NUMDEF where "W_MOTOR3_ANGLE_ID \<equiv> 0x85"
abbreviation (input) W_MOTOR4_SPEED_ID :: ID_NUMDEF where "W_MOTOR4_SPEED_ID \<equiv> 0x86"
abbreviation (input) W_MOTOR4_ANGLE_ID :: ID_NUMDEF where "W_MOTOR4_ANGLE_ID \<equiv> 0x87"
abbreviation (input) W_MOTOR5_SPEED_ID :: ID_NUMDEF where "W_MOTOR5_SPEED_ID \<equiv> 0x88"
abbreviation (input) W_MOTOR5_ANGLE_ID :: ID_NUMDEF where "W_MOTOR5_ANGLE_ID \<equiv> 0x89"
abbreviation (input) W_MOTOR6_SPEED_ID :: ID_NUMDEF where "W_MOTOR6_SPEED_ID \<equiv> 0x8a"
abbreviation (input) W_MOTOR6_ANGLE_ID :: ID_NUMDEF where "W_MOTOR6_ANGLE_ID \<equiv> 0x8b"
abbreviation (input) W_MOTOR7_SPEED_ID :: ID_NUMDEF where "W_MOTOR7_SPEED_ID \<equiv> 0x8c"
abbreviation (input) W_MOTOR7_ANGLE_ID :: ID_NUMDEF where "W_MOTOR7_ANGLE_ID \<equiv> 0x8d"
abbreviation (input) W_MOTOR8_SPEED_ID :: ID_NUMDEF where "W_MOTOR8_SPEED_ID \<equiv> 0x8e"
abbreviation (input) W_MOTOR8_ANGLE_ID :: ID_NUMDEF where "W_MOTOR8_ANGLE_ID \<equiv> 0x8f"
abbreviation (input) W_MOTOR9_SPEED_ID :: ID_NUMDEF where "W_MOTOR9_SPEED_ID \<equiv> 0x90"
abbreviation (input) W_MOTOR9_ANGLE_ID :: ID_NUMDEF where "W_MOTOR9_ANGLE_ID \<equiv> 0x91"
abbreviation (input) W_MOTOR1_OLD_ID :: ID_NUMDEF where "W_MOTOR1_OLD_ID \<equiv> 0xa0"
abbreviation (input) S_MOTOR1_ENC_ID :: ID_NUMDEF where "S_MOTOR1_ENC_ID \<equiv> 0xa8"
abbreviation (input) W_MOTOR2_OLD_ID :: ID_NUMDEF where "W_MOTOR2_OLD_ID \<equiv> 0xa1"
abbreviation (input) S_MOTOR2_ENC_ID :: ID_NUMDEF where "S_MOTOR2_ENC_ID \<equiv> 0xa9"
abbreviation (input) W_MOTOR3_OLD_ID :: ID_NUMDEF where "W_MOTOR3_OLD_ID \<equiv> 0xa2"
abbreviation (input) S_MOTOR3_ENC_ID :: ID_NUMDEF where "S_MOTOR3_ENC_ID \<equiv> 0xaa"
abbreviation (input) W_MOTOR4_OLD_ID :: ID_NUMDEF where "W_MOTOR4_OLD_ID \<equiv> 0xa3"
abbreviation (input) S_MOTOR4_ENC_ID :: ID_NUMDEF where "S_MOTOR4_ENC_ID \<equiv> 0xab"
abbreviation (input) W_MOTOR5_OLD_ID :: ID_NUMDEF where "W_MOTOR5_OLD_ID \<equiv> 0xa4"
abbreviation (input) S_MOTOR5_ENC_ID :: ID_NUMDEF where "S_MOTOR5_ENC_ID \<equiv> 0xac"
abbreviation (input) W_MOTOR6_OLD_ID :: ID_NUMDEF where "W_MOTOR6_OLD_ID \<equiv> 0xa5"
abbreviation (input) S_MOTOR6_ENC_ID :: ID_NUMDEF where "S_MOTOR6_ENC_ID \<equiv> 0xad"
abbreviation (input) W_MOTOR7_OLD_ID :: ID_NUMDEF where "W_MOTOR7_OLD_ID \<equiv> 0xa6"
abbreviation (input) S_MOTOR7_ENC_ID :: ID_NUMDEF where "S_MOTOR7_ENC_ID \<equiv> 0xae"
abbreviation (input) W_MOTOR8_OLD_ID :: ID_NUMDEF where "W_MOTOR8_OLD_ID \<equiv> 0xa7"
abbreviation (input) S_MOTOR8_ENC_ID :: ID_NUMDEF where "S_MOTOR8_ENC_ID \<equiv> 0xaf"
abbreviation (input) W_PWM_ID :: ID_NUMDEF where "W_PWM_ID \<equiv> 0xc4"
abbreviation (input) S_SWITCH_ID :: ID_NUMDEF where "S_SWITCH_ID \<equiv> 0xc0"
abbreviation (input) W_FLAG_SET_ID :: ID_NUMDEF where "W_FLAG_SET_ID \<equiv> 0xc5"
abbreviation (input) R_FLAG_SET_ID :: ID_NUMDEF where "R_FLAG_SET_ID \<equiv> 0xc6"
abbreviation (input) S_CAMERA1_ID :: ID_NUMDEF where "S_CAMERA1_ID \<equiv> 0xc8"
abbreviation (input) S_CAMERA2_ID :: ID_NUMDEF where "S_CAMERA2_ID \<equiv> 0xc9"
abbreviation (input) S_CAMERA3_ID :: ID_NUMDEF where "S_CAMERA3_ID \<equiv> 0xca"
abbreviation (input) S_CAMERA4_ID :: ID_NUMDEF where "S_CAMERA4_ID \<equiv> 0xcb"
abbreviation (input) S_CAMERA5_ID :: ID_NUMDEF where "S_CAMERA5_ID \<equiv> 0xcc"
abbreviation (input) W_CAMERA1_ID :: ID_NUMDEF where "W_CAMERA1_ID \<equiv> 0xd8"
abbreviation (input) W_CAMERA2_ID :: ID_NUMDEF where "W_CAMERA2_ID \<equiv> 0xd9"
abbreviation (input) W_CAMERA3_ID :: ID_NUMDEF where "W_CAMERA3_ID \<equiv> 0xda"
abbreviation (input) W_CAMERA4_ID :: ID_NUMDEF where "W_CAMERA4_ID \<equiv> 0xdb"
abbreviation (input) W_CAMERA5_ID :: ID_NUMDEF where "W_CAMERA5_ID \<equiv> 0xdc"
abbreviation (input) W_RELAY64_ID :: ID_NUMDEF where "W_RELAY64_ID \<equiv> 0xd0"
abbreviation (input) W_RELAY1_ID :: ID_NUMDEF where "W_RELAY1_ID \<equiv> 0xd1"
abbreviation (input) W_RELAY2_ID :: ID_NUMDEF where "W_RELAY2_ID \<equiv> 0xd2"
abbreviation (input) W_SONIC1_ID :: ID_NUMDEF where "W_SONIC1_ID \<equiv> 0xe0"
abbreviation (input) S_SONIC1_ID :: ID_NUMDEF where "S_SONIC1_ID \<equiv> 0xe1"
abbreviation (input) W_SONIC2_ID :: ID_NUMDEF where "W_SONIC2_ID \<equiv> 0xe2"
abbreviation (input) S_SONIC2_ID :: ID_NUMDEF where "S_SONIC2_ID \<equiv> 0xe3"
abbreviation (input) S_CAM1_TRANS :: ID_NUMDEF where "S_CAM1_TRANS \<equiv> 0xe8"
abbreviation (input) S_CAM2_TRANS :: ID_NUMDEF where "S_CAM2_TRANS \<equiv> 0xe9"
abbreviation (input) S_CAM3_TRANS :: ID_NUMDEF where "S_CAM3_TRANS \<equiv> 0xea"
abbreviation (input) S_CAM4_TRANS :: ID_NUMDEF where "S_CAM4_TRANS \<equiv> 0xeb"
abbreviation (input) S_CAM5_TRANS :: ID_NUMDEF where "S_CAM5_TRANS \<equiv> 0xec"

definition all_ids :: "ID_NUMDEF list" where
  "all_ids =
    [M_G_CMD_ID, W_STEPPER_ID, W_GPS_X_ID, W_GPS_Y_ID, W_GPS_ANG_ID, W_GYRO_C1_ID,
     W_GYRO_C2_ID, W_ENC1_C1_ID, W_ENC1_C2_ID, W_ENC1_RAD_ID, W_ENC1_ANG_ID, W_ENC2_C1_ID,
     W_ENC2_C2_ID, W_ENC2_RAD_ID, W_ENC2_ANG_ID, G_M_CMD_ID, S_GPS_X_ID, S_GPS_Y_ID,
     S_GPS_ANG_ID, S_GYRO_C1_ID, S_GYRO_C2_ID, S_GYRO_RAD_ID, S_ENC1_C1_ID, S_ENC1_C2_ID,
     S_ENC1_RAD_ID, S_ENC1_ANG_ID, S_ENC1_DIS_ID, S_ENC2_C1_ID, S_ENC2_C2_ID, S_ENC2_RAD_ID,
     S_ENC2_ANG_ID, S_ENC2_DIS_ID, W_MOTOR1_SPEED_ID, W_MOTOR1_ANGLE_ID, W_MOTOR2_SPEED_ID,
     W_MOTOR2_ANGLE_ID, W_MOTOR3_SPEED_ID, W_MOTOR3_ANGLE_ID, W_MOTOR4_SPEED_ID,
     W_MOTOR4_ANGLE_ID, W_MOTOR5_SPEED_ID, W_MOTOR5_ANGLE_ID, W_MOTOR6_SPEED_ID,
     W_MOTOR6_ANGLE_ID, W_MOTOR7_SPEED_ID, W_MOTOR7_ANGLE_ID, W_MOTOR8_SPEED_ID,
     W_MOTOR8_ANGLE_ID, W_MOTOR9_SPEED_ID, W_MOTOR9_ANGLE_ID, W_MOTOR1_OLD_ID,
     S_MOTOR1_ENC_ID, W_MOTOR2_OLD_ID, S_MOTOR2_ENC_ID, W_MOTOR3_OLD_ID, S_MOTOR3_ENC_ID,
     W_MOTOR4_OLD_ID, S_MOTOR4_ENC_ID, W_MOTOR5_OLD_ID, S_MOTOR5_ENC_ID, W_MOTOR6_OLD_ID,
     S_MOTOR6_ENC_ID, W_MOTOR7_OLD_ID, S_MOTOR7_ENC_ID, W_MOTOR8_OLD_ID, S_MOTOR8_ENC_ID,
     W_PWM_ID, S_SWITCH_ID, W_FLAG_SET_ID, R_FLAG_SET_ID, S_CAMERA1_ID, S_CAMERA2_ID,
     S_CAMERA3_ID, S_CAMERA4_ID, S_CAMERA5_ID, W_CAMERA1_ID, W_CAMERA2_ID, W_CAMERA3_ID,
     W_CAMERA4_ID, W_CAMERA5_ID, W_RELAY64_ID, W_RELAY1_ID, W_RELAY2_ID, W_SONIC1_ID,
     S_SONIC1_ID, W_SONIC2_ID, S_SONIC2_ID, S_CAM1_TRANS, S_CAM2_TRANS, S_CAM3_TRANS,
     S_CAM4_TRANS, S_CAM5_TRANS]"


section \<open>The table\<close>

datatype Data_Type = READ_ONLY | WRITE_ONLY

datatype can_buf =
    MOSI_CMD | MISO_CMD
  | MOSI_GPS_X | MOSI_GPS_Y | MOSI_GPS_ANG | MOSI_GYRO_C1 | MOSI_GYRO_C2
  | MOSI_ENC_C1 nat | MOSI_ENC_C2 nat | MOSI_ENC_RAD nat | MOSI_ENC_ANG nat
  | MISO_GPS_X | MISO_GPS_Y | MISO_GPS_ANG | MISO_GYRO_C1 | MISO_GYRO_C2 | MISO_GYRO_RAD
  | MISO_ENC_C1 nat | MISO_ENC_C2 nat | MISO_ENC_RAD nat | MISO_ENC_ANG nat | MISO_ENC_DIS nat
  | MOSI_MOTOR_SPEED nat | MOSI_MOTOR_ANGLE nat | MOSI_stepper
  | MOSI_MOTOR_OLD nat | MISO_M_ENC nat
  | MISO_SWITCH | FLAG_SET | FLAG_SET1 | MOSI_PWM
  | MOSI_CAMERA nat | MISO_CAM_TRANS nat
  | MOSI_RELAY_DATA nat | MOSI_SONIC_CMD nat | MISO_SONIC_DAT nat
  | camera_data nat

datatype can_func =
    Fn_G_M_CMD | Fn_S_GPS_X | Fn_S_GPS_Y | Fn_S_GPS_ANG
  | Fn_S_GYRO_C1 | Fn_S_GYRO_C2 | Fn_S_GYRO_RAD
  | Fn_S_ENC_C1 nat | Fn_S_ENC_C2 nat | Fn_S_ENC_RAD nat | Fn_S_ENC_ANG nat | Fn_S_ENC_DIS nat
  | Fn_R_FLAG_SET | Fn_S_SWITCH | Fn_S_SONIC nat | Fn_S_MOTOR_ENC nat | Fn_S_CAMERA nat
  | Fn_S_CAM_TRANS nat

text \<open>The size of each buffer as it is declared; a camera record has 8 data bytes and a 4-byte counter.\<close>

definition buf_size :: "can_buf \<Rightarrow> nat" where
  "buf_size b =
    (case b of
       MOSI_CMD \<Rightarrow> 1 | MISO_CMD \<Rightarrow> 1
     | MOSI_MOTOR_SPEED n \<Rightarrow> 4 | MOSI_MOTOR_ANGLE n \<Rightarrow> 4
     | MISO_M_ENC n \<Rightarrow> 7
     | MISO_SWITCH \<Rightarrow> 2 | FLAG_SET \<Rightarrow> 2 | FLAG_SET1 \<Rightarrow> 2
     | MOSI_RELAY_DATA n \<Rightarrow> 1
     | MOSI_SONIC_CMD n \<Rightarrow> 1 | MISO_SONIC_DAT n \<Rightarrow> 3
     | camera_data n \<Rightarrow> 12
     | _ \<Rightarrow> 8)"

record Can_Data =
  Data_type :: Data_Type
  Data_ID :: ID_NUMDEF
  Data_ptr :: can_buf
  Data_length :: u8
  MenuFunc :: "can_func option"
  Channel :: u8
  Fifo_num :: u8

definition Can_Database :: "Can_Data list" where
  "Can_Database =
    [Can_Data.make WRITE_ONLY M_G_CMD_ID MOSI_CMD 1 None 1 0,
     Can_Data.make WRITE_ONLY W_GPS_X_ID MOSI_GPS_X 8 None 1 1,
     Can_Data.make WRITE_ONLY W_GPS_Y_ID MOSI_GPS_Y 8 None 1 0,
     Can_Data.make WRITE_ONLY W_GPS_ANG_ID MOSI_GPS_ANG 8 None 1 1,
     Can_Data.make WRITE_ONLY W_GYRO_C1_ID MOSI_GYRO_C1 8 None 1 0,
     Can_Data.make WRITE_ONLY W_GYRO_C2_ID MOSI_GYRO_C2 8 None 1 1,
     Can_Data.make WRITE_ONLY W_ENC1_C1_ID (MOSI_ENC_C1 1) 8 None 1 0,
     Can_Data.make WRITE_ONLY W_ENC1_C2_ID (MOSI_ENC_C2 1) 8 None 1 1,
     Can_Data.make WRITE_ONLY W_ENC1_RAD_ID (MOSI_ENC_RAD 1) 8 None 1 0,
     Can_Data.make WRITE_ONLY W_ENC1_ANG_ID (MOSI_ENC_ANG 1) 8 None 1 1,
     Can_Data.make WRITE_ONLY W_ENC2_C1_ID (MOSI_ENC_C1 2) 8 None 1 0,
     Can_Data.make WRITE_ONLY W_ENC2_C2_ID (MOSI_ENC_C2 2) 8 None 1 1,
     Can_Data.make WRITE_ONLY W_ENC2_RAD_ID (MOSI_ENC_RAD 2) 8 None 1 0,
     Can_Data.make WRITE_ONLY W_ENC2_ANG_ID (MOSI_ENC_ANG 2) 8 None 1 1,
     Can_Data.make READ_ONLY G_M_CMD_ID MISO_CMD 1 (Some Fn_G_M_CMD) 1 0,
     Can_Data.make READ_ONLY S_GPS_X_ID MISO_GPS_X 8 (Some Fn_S_GPS_X) 1 1,
     Can_Data.make READ_ONLY S_GPS_Y_ID MISO_GPS_Y 8 (Some Fn_S_GPS_Y) 1 0,
     Can_Data.make READ_ONLY S_GPS_ANG_ID MISO_GPS_ANG 8 (Some Fn_S_GPS_ANG) 1 1,
     Can_Data.make READ_ONLY S_GYRO_C1_ID MISO_GYRO_C1 8 (Some Fn_S_GYRO_C1) 1 0,
     Can_Data.make READ_ONLY S_GYRO_C2_ID MISO_GYRO_C2 8 (Some Fn_S_GYRO_C2) 1 1,
     Can_Data.make READ_ONLY S_GYRO_RAD_ID MISO_GYRO_RAD 8 (Some Fn_S_GYRO_RAD) 1 0,
     Can_Data.make READ_ONLY S_ENC1_C1_ID (MISO_ENC_C1 1) 8 (Some (Fn_S_ENC_C1 1)) 1 1,
     Can_Data.make READ_ONLY S_ENC1_C2_ID (MISO_ENC_C2 1) 8 (Some (Fn_S_ENC_C2 1)) 1 0,
     Can_Data.make READ_ONLY S_ENC1_RAD_ID (MISO_ENC_RAD 1) 8 (Some (Fn_S_ENC_RAD 1)) 1 1,
     Can_Data.make READ_ONLY S_ENC1_ANG_ID (MISO_ENC_ANG 1) 8 (Some (Fn_S_ENC_ANG 1)) 1 0,
     Can_Data.make READ_ONLY S_ENC1_DIS_ID (MISO_ENC_DIS 1) 8 (Some (Fn_S_ENC_DIS 1)) 1 1,
     Can_Data.make READ_ONLY S_ENC2_C1_ID (MISO_ENC_C1 2) 8 (Some (Fn_S_ENC_C1 2)) 1 0,
     Can_Data.make READ_ONLY S_ENC2_C2_ID (MISO_ENC_C2 2) 8 (Some (Fn_S_ENC_C2 2)) 1 1,
     Can_Data.make READ_ONLY S_ENC2_RAD_ID (MISO_ENC_RAD 2) 8 (Some (Fn_S_ENC_RAD 2)) 1 0,
     Can_Data.make READ_ONLY S_ENC2_ANG_ID (MISO_ENC_ANG 2) 8 (Some (Fn_S_ENC_ANG 2)) 1 1,
     Can_Data.make READ_ONLY S_ENC2_DIS_ID (MISO_ENC_DIS 2) 8 (Some (Fn_S_ENC_DIS 2)) 1 0,
     Can_Data.make WRITE_ONLY W_PWM_ID MOSI_PWM 8 None 1 0,
     Can_Data.make WRITE_ONLY W_STEPPER_ID MOSI_stepper 8 None 1 1,
     Can_Data.make WRITE_ONLY W_FLAG_SET_ID FLAG_SET 2 None 2 0,
     Can_Data.make READ_ONLY R_FLAG_SET_ID FLAG_SET1 2 (Some Fn_R_FLAG_SET) 2 0,
     Can_Data.make READ_ONLY S_SWITCH_ID MISO_SWITCH 2 (Some Fn_S_SWITCH) 2 1,
     Can_Data.make READ_ONLY W_RELAY1_ID (MOSI_RELAY_DATA 1) 1 None 2 0,
     Can_Data.make READ_ONLY W_RELAY2_ID (MOSI_RELAY_DATA 2) 1 None 2 1,
     Can_Data.make WRITE_ONLY W_SONIC1_ID (MOSI_SONIC_CMD 1) 1 None 2 0,
     Can_Data.make READ_ONLY S_SONIC1_ID (MISO_SONIC_DAT 1) 3 (Some (Fn_S_SONIC 1)) 2 1,
     Can_Data.make WRITE_ONLY W_SONIC2_ID (MOSI_SONIC_CMD 2) 1 None 2 1,
     Can_Data.make READ_ONLY S_SONIC2_ID (MISO_SONIC_DAT 2) 3 (Some (Fn_S_SONIC 2)) 2 0,
     Can_Data.make WRITE_ONLY W_MOTOR1_SPEED_ID (MOSI_MOTOR_SPEED 1) 4 None 2 1,
     Can_Data.make WRITE_ONLY W_MOTOR1_ANGLE_ID (MOSI_MOTOR_ANGLE 1) 4 None 2 0,
     Can_Data.make WRITE_ONLY W_MOTOR2_SPEED_ID (MOSI_MOTOR_SPEED 2) 4 None 2 1,
     Can_Data.make WRITE_ONLY W_MOTOR2_ANGLE_ID (MOSI_MOTOR_ANGLE 2) 4 None 2 0,
     Can_Data.make WRITE_ONLY W_MOTOR3_SPEED_ID (MOSI_MOTOR_SPEED 3) 4 None 2 1,
     Can_Data.make WRITE_ONLY W_MOTOR3_ANGLE_ID (MOSI_MOTOR_ANGLE 3) 4 None 2 0,
     Can_Data.make WRITE_ONLY W_MOTOR4_SPEED_ID (MOSI_MOTOR_SPEED 4) 4 None 2 1,
     Can_Data.make WRITE_ONLY W_MOTOR4_ANGLE_ID (MOSI_MOTOR_ANGLE 4) 4 None 2 0,
     Can_Data.make WRITE_ONLY W_MOTOR5_SPEED_ID (MOSI_MOTOR_SPEED 5) 4 None 2 1,
     Can_Data.make WRITE_ONLY W_MOTOR5_ANGLE_ID (MOSI_MOTOR_ANGLE 5) 4 None 2 0,
     Can_Data.make WRITE_ONLY W_MOTOR6_SPEED_ID (MOSI_MOTOR_SPEED 6) 4 None 2 1,
     Can_Data.make WRITE_ONLY W_MOTOR6_ANGLE_ID (MOSI_MOTOR_ANGLE 6) 4 None 2 0,
     Can_Data.make WRITE_ONLY W_MOTOR7_SPEED_ID (MOSI_MOTOR_SPEED 7) 4 None 2 1,
     Can_Data.make WRITE_ONLY W_MOTOR7_ANGLE_ID (MOSI_MOTOR_ANGLE 7) 4 None 2 0,
     Can_Data.make WRITE_ONLY W_MOTOR8_SPEED_ID (MOSI_MOTOR_SPEED 8) 4 None 2 1,
     Can_Data.make WRITE_ONLY W_MOTOR8_ANGLE_ID (MOSI_MOTOR_ANGLE 8) 4 None 2 0,
     Can_Data.make WRITE_ONLY W_MOTOR9_SPEED_ID (MOSI_MOTOR_SPEED 9) 4 None 2 1,
     Can_Data.make WRITE_ONLY W_MOTOR9_ANGLE_ID (MOSI_MOTOR_ANGLE 9) 4 None 2 0,
     Can_Data.make WRITE_ONLY W_MOTOR1_OLD_ID (MOSI_MOTOR_OLD 1) 8 None 2 1,
     Can_Data.make WRITE_ONLY W_MOTOR2_OLD_ID (MOSI_MOTOR_OLD 2) 8 None 2 0,
     Can_Data.make WRITE_ONLY W_MOTOR3_OLD_ID (MOSI_MOTOR_OLD 3) 8 None 2 1,
     Can_Data.make WRITE_ONLY W_MOTOR4_OLD_ID (MOSI_MOTOR_OLD 4) 8 None 2 0,
     Can_Data.make WRITE_ONLY W_MOTOR5_OLD_ID (MOSI_MOTOR_OLD 5) 8 None 2 1,
     Can_Data.make WRITE_ONLY W_MOTOR6_OLD_ID (MOSI_MOTOR_OLD 6) 8 None 2 0,
     Can_Data.make WRITE_ONLY W_MOTOR7_OLD_ID (MOSI_MOTOR_OLD 7) 8 None 2 1,
     Can_Data.make WRITE_ONLY W_MOTOR8_OLD_ID (MOSI_MOTOR_OLD 8) 8 None 2 0,
     Can_Data.make READ_ONLY S_MOTOR1_ENC_ID (MISO_M_ENC 1) 7 (Some (Fn_S_MOTOR_ENC 1)) 2 1,
     Can_Data.make READ_ONLY S_MOTOR2_ENC_ID (MISO_M_ENC 2) 7 (Some (Fn_S_MOTOR_ENC 2)) 2 0,
     Can_Data.make READ_ONLY S_MOTOR3_ENC_ID (MISO_M_ENC 3) 7 (Some (Fn_S_MOTOR_ENC 3)) 1 1,
     Can_Data.make READ_ONLY S_MOTOR4_ENC_ID (MISO_M_ENC 4) 7 (Some (Fn_S_MOTOR_ENC 4)) 2 0,
     Can_Data.make READ_ONLY S_MOTOR5_ENC_ID (MISO_M_ENC 5) 7 (Some (Fn_S_MOTOR_ENC 5)) 2 1,
     Can_Data.make READ_ONLY S_MOTOR6_ENC_ID (MISO_M_ENC 6) 7 (Some (Fn_S_MOTOR_ENC 6)) 2 0,
     Can_Data.make READ_ONLY S_MOTOR7_ENC_ID (MISO_M_ENC 7) 7 (Some (Fn_S_MOTOR_ENC 7)) 2 1,
     Can_Data.make READ_ONLY S_MOTOR8_ENC_ID (MISO_M_ENC 8) 7 (Some (Fn_S_MOTOR_ENC 8)) 2 0,
     Can_Data.make READ_ONLY S_CAMERA1_ID (camera_data 1) 8 (Some (Fn_S_CAMERA 1)) 1 1,
     Can_Data.make READ_ONLY S_CAMERA2_ID (camera_data 2) 8 (Some (Fn_S_CAMERA 2)) 1 0,
     Can_Data.make READ_ONLY S_CAMERA3_ID (camera_data 3) 8 (Some (Fn_S_CAMERA 3)) 1 1,
     Can_Data.make READ_ONLY S_CAMERA4_ID (camera_data 4) 8 (Some (Fn_S_CAMERA 4)) 2 0,
     Can_Data.make READ_ONLY S_CAMERA5_ID (camera_data 5) 8 (Some (Fn_S_CAMERA 5)) 2 1,
     Can_Data.make WRITE_ONLY W_CAMERA1_ID (MOSI_CAMERA 1) 8 None 1 0,
     Can_Data.make WRITE_ONLY W_CAMERA2_ID (MOSI_CAMERA 2) 8 None 1 1,
     Can_Data.make WRITE_ONLY W_CAMERA3_ID (MOSI_CAMERA 3) 8 None 1 0,
     Can_Data.make WRITE_ONLY W_CAMERA4_ID (MOSI_CAMERA 4) 8 None 2 1,
     Can_Data.make WRITE_ONLY W_CAMERA5_ID (MOSI_CAMERA 5) 8 None 2 0,
     Can_Data.make READ_ONLY S_CAM1_TRANS (MISO_CAM_TRANS 1) 8 (Some (Fn_S_CAM_TRANS 1)) 1 0,
     Can_Data.make READ_ONLY S_CAM2_TRANS (MISO_CAM_TRANS 2) 8 (Some (Fn_S_CAM_TRANS 2)) 1 1,
     Can_Data.make READ_ONLY S_CAM3_TRANS (MISO_CAM_TRANS 3) 8 (Some (Fn_S_CAM_TRANS 3)) 1 0,
     Can_Data.make READ_ONLY S_CAM4_TRANS (MISO_CAM_TRANS 4) 8 (Some (Fn_S_CAM_TRANS 4)) 2 1,
     Can_Data.make READ_ONLY S_CAM5_TRANS (MISO_CAM_TRANS 5) 8 (Some (Fn_S_CAM_TRANS 5)) 2 0]"


section \<open>State and operations\<close>

datatype can_status = Can_Ok | Wild_Access | Spinning

text \<open>
  \<open>tx_stack\<close> is what the stack holds where \<^verbatim>\<open>Write_Database\<close> puts its message: the bytes
  beyond the length of an entry keep it.
\<close>

record can_state =
  HASH_TABLE :: "u8 list"
  Can_Data_Num :: u8
  can_mem :: "can_buf \<Rightarrow> u8 list"
  tx_stack :: "u8 list"
  can_out :: "(nat \<times> CanTxMsg) list"
  can_status :: can_status

definition Hash_Table_init :: "'a can_state_scheme \<Rightarrow> 'a can_state_scheme" where
  "Hash_Table_init s =
    (let s = s\<lparr>Can_Data_Num := of_nat (length Can_Database)\<rparr>;
         s = s\<lparr>HASH_TABLE := fold (\<lambda>i tab. tab[i := 255]) [0..<256] (HASH_TABLE s)\<rparr>
     in s\<lparr>HASH_TABLE := fold (\<lambda>i tab. tab[Data_ID (Can_Database ! i) := of_nat i])
            [0..<unat (Can_Data_Num s)] (HASH_TABLE s)\<rparr>)"

text \<open>\<^verbatim>\<open>Can_Database[HASH_TABLE[id]]\<close>, or nothing when an index is outside its array.\<close>

definition db_entry :: "nat \<Rightarrow> 'a can_state_scheme \<Rightarrow> Can_Data option" where
  "db_entry k s =
    (if k < length (HASH_TABLE s) \<and> unat (HASH_TABLE s ! k) < length Can_Database
     then Some (Can_Database ! unat (HASH_TABLE s ! k)) else None)"

definition Can_SendData :: "CanTxMsg \<Rightarrow> u8 \<Rightarrow> 'a can_state_scheme \<Rightarrow> 'a can_state_scheme" where
  "Can_SendData TxM Can_Channel s =
    (let s = (if Can_Channel = 1 then s\<lparr>can_out := can_out s @ [(1, TxM)]\<rparr> else s)
     in if Can_Channel = 2 then s\<lparr>can_out := can_out s @ [(2, TxM)]\<rparr> else s)"

definition Write_Database :: "ID_NUMDEF \<Rightarrow> 'a can_state_scheme \<Rightarrow> 'a can_state_scheme" where
  "Write_Database ID_NUM s =
    (case db_entry ID_NUM s of
       None \<Rightarrow> s\<lparr>can_status := Wild_Access\<rparr>
     | Some e \<Rightarrow>
       if HASH_TABLE s ! ID_NUM \<ge> Can_Data_Num s \<and> Data_type e \<noteq> WRITE_ONLY then s
       else
         let n = unat (Data_length e); d = can_mem s (Data_ptr e)
         in if n \<le> length d \<and> n \<le> 8
            then Can_SendData
                   \<lparr>tx_StdId = of_nat (Data_ID e), tx_ExtId = 0, tx_IDE = 0, tx_RTR = 0,
                    tx_DLC = Data_length e,
                    tx_Data = fold (\<lambda>j t. t[j := d ! j]) [0..<n] (tx_stack s)\<rparr>
                   (Channel e) s
            else s\<lparr>can_status := Wild_Access\<rparr>)"

text \<open>A byte written through \<^verbatim>\<open>Data_ptr\<close>, inside the buffer or not.\<close>

definition put_byte :: "can_buf \<Rightarrow> nat \<Rightarrow> u8 \<Rightarrow> 'a can_state_scheme \<Rightarrow> 'a can_state_scheme" where
  "put_byte b i v s =
    (if i < length (can_mem s b)
     then s\<lparr>can_mem := (can_mem s)(b := (can_mem s b)[i := v])\<rparr>
     else s\<lparr>can_status := Wild_Access\<rparr>)"


section \<open>Facts of the table\<close>

lemma Can_Database_length [simp]: "length Can_Database = 91"
  by (simp add: Can_Database_def)

lemma Can_Database_ids: "distinct (map Data_ID Can_Database)"
  unfolding Can_Database_def Can_Data.defs by simp

definition entry_ok :: "Can_Data \<Rightarrow> bool" where
  "entry_ok e \<longleftrightarrow> Data_ID e < 256 \<and> 0 < Data_length e \<and> Data_length e \<le> 8 \<and>
    unat (Data_length e) \<le> buf_size (Data_ptr e) \<and>
    (Channel e = 1 \<or> Channel e = 2) \<and> (Fifo_num e = 0 \<or> Fifo_num e = 1)"

lemma Can_Database_ok: "list_all entry_ok Can_Database"
  by (simp add: Can_Database_def Can_Data.defs entry_ok_def buf_size_def)

lemma entry_okD:
  assumes "e \<in> set Can_Database"
  shows "Data_ID e < 256" "0 < Data_length e" "Data_length e \<le> 8"
    "unat (Data_length e) \<le> buf_size (Data_ptr e)"
    "Channel e = 1 \<or> Channel e = 2" "Fifo_num e = 0 \<or> Fifo_num e = 1"
  using Can_Database_ok assms by (auto simp: list_all_iff entry_ok_def)


section \<open>The index\<close>

lemma fold_fill:
  "n \<le> length tab \<Longrightarrow> fold (\<lambda>i t. t[i := v]) [0..<n] tab = replicate n v @ drop n tab"
proof (induction n)
  case (Suc n)
  then show ?case
    by (simp add: list_update_append Cons_nth_drop_Suc[symmetric] replicate_append_same[symmetric])
qed simp

lemma fold_index:
  fixes g :: "nat \<Rightarrow> 'a"
  assumes "inj_on f {..<n}" "\<forall>i < n. f i < length tab"
  defines "t \<equiv> fold (\<lambda>i t. t[f i := g i]) [0..<n] tab"
  shows "length t = length tab \<and> (\<forall>i < n. t ! f i = g i) \<and> (\<forall>k. k \<notin> f ` {..<n} \<longrightarrow> t ! k = tab ! k)"
  using assms(1,2) unfolding t_def
proof (induction n)
  case (Suc n)
  have "inj_on f {..<n}" "\<forall>i < n. f i < length tab" "f n \<notin> f ` {..<n}"
    using Suc.prems by (auto simp: lessThan_Suc inj_on_insert)
  then show ?case using Suc.IH Suc.prems(2)
    by (auto simp: less_Suc_eq nth_list_update lessThan_Suc)
qed simp

definition db_ready :: "'a can_state_scheme \<Rightarrow> bool" where
  "db_ready s \<longleftrightarrow>
    Can_Data_Num s = 91 \<and> length (HASH_TABLE s) = 256 \<and>
    (\<forall>i < 91. HASH_TABLE s ! Data_ID (Can_Database ! i) = of_nat i) \<and>
    (\<forall>k < 256. k \<notin> Data_ID ` set Can_Database \<longrightarrow> HASH_TABLE s ! k = 255) \<and>
    (\<forall>b. length (can_mem s b) = buf_size b) \<and> length (tx_stack s) = 8"

lemma Hash_Table_init_frame [simp]:
  "can_mem (Hash_Table_init s) = can_mem s" "tx_stack (Hash_Table_init s) = tx_stack s"
  "can_out (Hash_Table_init s) = can_out s" "can_status (Hash_Table_init s) = can_status s"
  by (simp_all add: Hash_Table_init_def Let_def)

lemma inj_ids: "inj_on (\<lambda>i. Data_ID (Can_Database ! i)) {..<91}"
  using Can_Database_ids by (auto simp: distinct_conv_nth inj_on_def)

lemma Hash_Table_init_ready:
  assumes "length (HASH_TABLE s) = 256" "\<forall>b. length (can_mem s b) = buf_size b" "length (tx_stack s) = 8"
  shows "db_ready (Hash_Table_init s)"
proof -
  let ?t = "replicate 256 (255 :: u8)"
  have "\<forall>i < 91. Data_ID (Can_Database ! i) < length ?t" by (auto intro!: entry_okD(1))
  note index = fold_index[OF inj_ids this, of "of_nat"]
  have "Data_ID ` set Can_Database = (\<lambda>i. Data_ID (Can_Database ! i)) ` {..<91}"
    by (auto simp: set_conv_nth)
  then show ?thesis
    using index assms fold_fill[of 256 "HASH_TABLE s" 255]
    by (auto simp: db_ready_def Hash_Table_init_def Let_def)
qed

lemma find_entry:
  "find (\<lambda>e. Data_ID e = k) Can_Database = Some e \<Longrightarrow> e \<in> set Can_Database \<and> Data_ID e = k"
  by (auto simp: find_Some_iff)

lemma find_entry_of:
  assumes "e \<in> set Can_Database"
  shows "find (\<lambda>e'. Data_ID e' = Data_ID e) Can_Database = Some e"
proof (cases "find (\<lambda>e'. Data_ID e' = Data_ID e) Can_Database")
  case None
  then show ?thesis using assms by (auto simp: find_None_iff)
next
  case (Some e')
  then have "e' \<in> set Can_Database" "Data_ID e' = Data_ID e" using find_entry[OF Some] by simp_all
  moreover have "inj_on Data_ID (set Can_Database)" using Can_Database_ids by (simp add: distinct_map)
  ultimately have "e' = e" using assms by (simp add: inj_on_eq_iff)
  then show ?thesis using Some by simp
qed

lemma db_entry_ready:
  assumes "db_ready s"
  shows "db_entry k s = find (\<lambda>e. Data_ID e = k) Can_Database"
proof (cases "k \<in> Data_ID ` set Can_Database")
  case True
  then obtain i where i: "i < 91" "k = Data_ID (Can_Database ! i)" by (auto simp: in_set_conv_nth)
  have "db_entry k s = Some (Can_Database ! i)"
    using assms i entry_okD(1)[of "Can_Database ! i"]
    by (simp add: db_entry_def db_ready_def unat_of_nat take_bit_nat_eq_self)
  moreover have "find (\<lambda>e. Data_ID e = k) Can_Database = Some (Can_Database ! i)"
    using i find_entry_of[of "Can_Database ! i"] by simp
  ultimately show ?thesis by simp
next
  case False
  then have "k < 256 \<Longrightarrow> HASH_TABLE s ! k = 255" using assms by (simp add: db_ready_def)
  then have "db_entry k s = None" using assms by (simp add: db_entry_def db_ready_def)
  moreover have "find (\<lambda>e. Data_ID e = k) Can_Database = None"
    using False by (auto simp: find_None_iff)
  ultimately show ?thesis by simp
qed

text \<open>The frame of an entry: the bytes of its buffer, then what the stack held.\<close>

definition entry_frame :: "Can_Data \<Rightarrow> 'a can_state_scheme \<Rightarrow> CanTxMsg" where
  "entry_frame e s =
    (let n = unat (Data_length e)
     in \<lparr>tx_StdId = of_nat (Data_ID e), tx_ExtId = 0, tx_IDE = 0, tx_RTR = 0, tx_DLC = Data_length e,
         tx_Data = take n (can_mem s (Data_ptr e)) @ drop n (tx_stack s)\<rparr>)"

lemma fold_copy:
  "n \<le> length t \<Longrightarrow> n \<le> length d \<Longrightarrow> fold (\<lambda>j t. t[j := d ! j]) [0..<n] t = take n d @ drop n t"
proof (induction n)
  case (Suc n)
  then show ?case
    by (simp add: list_update_append Cons_nth_drop_Suc[symmetric] take_Suc_conv_app_nth)
qed simp

lemma Write_Database_ready:
  assumes "db_ready s"
  shows "Write_Database k s =
    (case find (\<lambda>e. Data_ID e = k) Can_Database of
       None \<Rightarrow> s\<lparr>can_status := Wild_Access\<rparr>
     | Some e \<Rightarrow> s\<lparr>can_out := can_out s @ [(unat (Channel e), entry_frame e s)]\<rparr>)"
proof (cases "find (\<lambda>e. Data_ID e = k) Can_Database")
  case None
  then show ?thesis by (simp add: Write_Database_def db_entry_ready[OF assms])
next
  case (Some e)
  then have e: "e \<in> set Can_Database" "Data_ID e = k" using find_entry[OF Some] by simp_all
  then obtain i where i: "i < 91" "e = Can_Database ! i" by (auto simp: in_set_conv_nth)
  have "\<not> Can_Data_Num s \<le> HASH_TABLE s ! k"
    using assms i e(2) by (auto simp: db_ready_def word_le_nat_alt unat_of_nat take_bit_nat_eq_self)
  moreover have "unat (Data_length e) \<le> 8" "unat (Data_length e) \<le> length (can_mem s (Data_ptr e))"
    "length (tx_stack s) = 8"
    using entry_okD[OF e(1)] assms by (auto simp: db_ready_def word_le_nat_alt)
  ultimately show ?thesis
    using Some entry_okD(5)[OF e(1)]
    by (auto simp: Write_Database_def db_entry_ready[OF assms] Let_def Can_SendData_def
        entry_frame_def fold_copy)
qed


section \<open>Properties\<close>

text \<open>C22: After initialisation the hash table is an exact index of the database: following it from
  any number gives the entry with that identifier, and nothing for a number that is no
  identifier.\<close>

theorem hash_index_exact:
  assumes "length (HASH_TABLE s) = 256" "\<forall>b. length (can_mem s b) = buf_size b" "length (tx_stack s) = 8"
  shows "db_entry k (Hash_Table_init s) = find (\<lambda>e. Data_ID e = k) Can_Database"
  using assms by (intro db_entry_ready Hash_Table_init_ready)

definition demo_can_state :: can_state where
  "demo_can_state = \<lparr>HASH_TABLE = 255 # replicate 255 0, Can_Data_Num = 0,
     can_mem = (\<lambda>b. replicate (buf_size b) 7), tx_stack = replicate 8 9, can_out = [], can_status = Can_Ok\<rparr>"

theorem hash_index_exact_witness:
  "db_entry 0xa1 (Hash_Table_init demo_can_state) =
    Some \<lparr>Data_type = WRITE_ONLY, Data_ID = 0xa1, Data_ptr = MOSI_MOTOR_OLD 2, Data_length = 8,
          MenuFunc = None, Channel = 2, Fifo_num = 0\<rparr> \<and>
   db_entry 0xD0 (Hash_Table_init demo_can_state) = None"
  using hash_index_exact[of demo_can_state "0xa1"] hash_index_exact[of demo_can_state "0xD0"]
  by (simp add: demo_can_state_def Can_Database_def Can_Data.defs)

text \<open>C23: Writing a database entry hands exactly one frame to the bus of the entry, with its
  identifier, its length and the bytes of its buffer, and changes nothing else.  This holds for
  every entry, also one marked as read-only; an identifier without an entry is not refused but
  read outside the table.\<close>

theorem write_database_exact:
  assumes "db_ready s"
  shows "Write_Database k s =
    (case find (\<lambda>e. Data_ID e = k) Can_Database of
       None \<Rightarrow> s\<lparr>can_status := Wild_Access\<rparr>
     | Some e \<Rightarrow> s\<lparr>can_out := can_out s @ [(unat (Channel e), entry_frame e s)]\<rparr>)"
  using assms by (rule Write_Database_ready)

theorem write_database_exact_witness:
  "can_out (Write_Database 0xD1 (Hash_Table_init demo_can_state)) =
     [(2, \<lparr>tx_StdId = 0xD1, tx_ExtId = 0, tx_IDE = 0, tx_RTR = 0, tx_DLC = 1, tx_Data = [7, 9, 9, 9, 9, 9, 9, 9]\<rparr>)] \<and>
   can_status (Write_Database 0xD0 (Hash_Table_init demo_can_state)) = Wild_Access"
proof -
  have r: "db_ready (Hash_Table_init demo_can_state)"
    by (rule Hash_Table_init_ready) (simp_all add: demo_can_state_def)
  have e: "find (\<lambda>e. Data_ID e = 0xD1) Can_Database = Some \<lparr>Data_type = READ_ONLY, Data_ID = 0xD1,
      Data_ptr = MOSI_RELAY_DATA 1, Data_length = 1, MenuFunc = None, Channel = 2, Fifo_num = 0\<rparr>"
    "find (\<lambda>e. Data_ID e = 0xD0) Can_Database = None"
    by (simp_all add: Can_Database_def Can_Data.defs)
  have "can_mem demo_can_state (MOSI_RELAY_DATA 1) = [7]" "can_out demo_can_state = []"
    "tx_stack demo_can_state = [9, 9, 9, 9, 9, 9, 9, 9]"
    by (simp_all add: demo_can_state_def buf_size_def eval_nat_numeral)
  then show ?thesis
    using write_database_exact[OF r, of "0xD1"] write_database_exact[OF r, of "0xD0"]
    by (simp add: e entry_frame_def Let_def)
qed

end
