(* ===== verification/CanFilter.thy ===== *)
theory CanFilter
  imports CanDatabase "HOL-Library.Monad_Syntax"
begin

text \<open>
  The acceptance filters of \<^verbatim>\<open>drivers/can.c\<close>: \<^verbatim>\<open>Can_FILTER_Config\<close> collects the identifiers
  the main board reads into four arrays, one for each bus and receive FIFO, and programs
  the filter banks of the controller from them.
\<close>


section \<open>Acceptance filters\<close>

text \<open>
  \<^verbatim>\<open>Can_FILTER_Config\<close>: four arrays of 56 identifiers with their counters, one for each bus and
  FIFO; an index outside an array gives \<open>None\<close>.
\<close>

type_synonym temp = "u16 list \<times> nat"

record filter_temps =
  temp1 :: temp
  temp2 :: temp
  temp3 :: temp
  temp4 :: temp

definition temp_push :: "Can_Data \<Rightarrow> temp \<Rightarrow> temp option" where
  "temp_push e t =
    (case t of (xs, n) \<Rightarrow>
       if n < length xs then Some (xs[n := push_bit 5 (of_nat (Data_ID e))], n + 1) else None)"

definition collect_entry :: "Can_Data \<Rightarrow> filter_temps \<Rightarrow> filter_temps option" where
  "collect_entry e t =
    (if Data_type e = READ_ONLY
     then if Channel e = 1
          then if Fifo_num e = 0
               then do { x \<leftarrow> temp_push e (temp1 t); Some (t\<lparr>temp1 := x\<rparr>) }
               else do { x \<leftarrow> temp_push e (temp2 t); Some (t\<lparr>temp2 := x\<rparr>) }
          else if Channel e = 2
          then if Fifo_num e = 0
               then do { x \<leftarrow> temp_push e (temp3 t); Some (t\<lparr>temp3 := x\<rparr>) }
               else do { x \<leftarrow> temp_push e (temp4 t); Some (t\<lparr>temp4 := x\<rparr>) }
          else Some t
     else Some t)"

primrec collect_ids :: "Can_Data list \<Rightarrow> filter_temps \<Rightarrow> filter_temps option" where
  "collect_ids [] t = Some t"
| "collect_ids (e # es) t = do { t \<leftarrow> collect_entry e t; collect_ids es t }"

definition temp_pad :: "temp \<Rightarrow> temp option" where
  "temp_pad t =
    (case t of (xs, n) \<Rightarrow>
       if n = 0 \<or> length xs < n + (3 - (n - 1) mod 4) then None
       else Some (fold (\<lambda>i xs. xs[n + i := xs ! (n - 1)]) [0..<3 - (n - 1) mod 4] xs, n))"

definition program_banks :: "u16 \<Rightarrow> temp \<Rightarrow> nat \<times> CAN_TypeDef \<Rightarrow> nat \<times> CAN_TypeDef" where
  "program_banks fifo t bc =
    (case t of (xs, n) \<Rightarrow>
       if n > 0
       then fold (\<lambda>i (bank, c).
              (bank + 1,
               CAN_FilterInit
                 \<lparr>CAN_FilterIdHigh = xs ! (4 * i + 0), CAN_FilterIdLow = xs ! (4 * i + 1),
                  CAN_FilterMaskIdHigh = xs ! (4 * i + 2), CAN_FilterMaskIdLow = xs ! (4 * i + 3),
                  CAN_FilterFIFOAssignment = fifo, CAN_FilterNumber = of_nat bank,
                  CAN_FilterMode = CAN_FilterMode_IdList, CAN_FilterScale = CAN_FilterScale_16bit,
                  CAN_FilterActivation = True\<rparr> c))
              [0..<(n - 1) div 4 + 1] bc
       else bc)"

definition Can_FILTER_Config :: "Can_Data list \<Rightarrow> CAN_TypeDef \<Rightarrow> CAN_TypeDef option" where
  "Can_FILTER_Config db c =
    do { let c = CAN_SlaveStartBank 15 c;
         let z = (replicate 56 0, 0);
         t \<leftarrow> collect_ids db \<lparr>temp1 = z, temp2 = z, temp3 = z, temp4 = z\<rparr>;
         t1 \<leftarrow> temp_pad (temp1 t);
         t2 \<leftarrow> temp_pad (temp2 t);
         t3 \<leftarrow> temp_pad (temp3 t);
         t4 \<leftarrow> temp_pad (temp4 t);
         let (can1_filter_bank, c) = program_banks 1 t2 (program_banks 0 t1 (0, c));
         let (can2_filter_bank, c) = program_banks 1 t4 (program_banks 0 t3 (15, c));
         Some c }"

text \<open>An array with its counter holds the list of identifiers collected so far.\<close>

definition temp_holds :: "temp \<Rightarrow> u16 list \<Rightarrow> bool" where
  "temp_holds t l \<longleftrightarrow> length (fst t) = 56 \<and> snd t = length l \<and> take (length l) (fst t) = l"

definition filter_code :: "Can_Data \<Rightarrow> u16" where
  "filter_code e = push_bit 5 (of_nat (Data_ID e))"

definition received_on :: "u8 \<Rightarrow> bool \<Rightarrow> Can_Data \<Rightarrow> bool" where
  "received_on ch fifo e \<longleftrightarrow>
    Data_type e = READ_ONLY \<and> Channel e = ch \<and> (Fifo_num e \<noteq> 0) = fifo"

lemma temp_push_holds:
  assumes "temp_holds t l" "length l < 56"
  shows "\<exists>t'. temp_push e t = Some t' \<and> temp_holds t' (l @ [filter_code e])"
  using assms
  by (cases t) (auto simp: temp_holds_def temp_push_def filter_code_def take_Suc_conv_app_nth
      list_eq_iff_nth_eq nth_append nth_list_update)

text \<open>The list each array holds, as a function of the bus and the FIFO.\<close>

definition temps_hold :: "filter_temps \<Rightarrow> (u8 \<Rightarrow> bool \<Rightarrow> u16 list) \<Rightarrow> bool" where
  "temps_hold t l \<longleftrightarrow> temp_holds (temp1 t) (l 1 False) \<and> temp_holds (temp2 t) (l 1 True) \<and>
    temp_holds (temp3 t) (l 2 False) \<and> temp_holds (temp4 t) (l 2 True)"

definition add_code :: "Can_Data \<Rightarrow> (u8 \<Rightarrow> bool \<Rightarrow> u16 list) \<Rightarrow> u8 \<Rightarrow> bool \<Rightarrow> u16 list" where
  "add_code e l ch fifo = (if received_on ch fifo e then l ch fifo @ [filter_code e] else l ch fifo)"

lemma collect_entry_holds:
  assumes "temps_hold t l" "\<forall>ch fifo. length (add_code e l ch fifo) \<le> 56"
  shows "\<exists>t'. collect_entry e t = Some t' \<and> temps_hold t' (add_code e l)"
proof (cases "Data_type e = READ_ONLY \<and> (Channel e = 1 \<or> Channel e = 2)")
  case True
  have "length (l (Channel e) (Fifo_num e \<noteq> 0)) < 56"
    using True assms(2)[rule_format, of "Channel e" "Fifo_num e \<noteq> 0"]
    by (simp add: add_code_def received_on_def)
  then show ?thesis
    using True assms(1) temp_push_holds[of "temp1 t" "l 1 False" e] temp_push_holds[of "temp2 t" "l 1 True" e]
      temp_push_holds[of "temp3 t" "l 2 False" e] temp_push_holds[of "temp4 t" "l 2 True" e]
    by (cases "Fifo_num e = 0") (auto simp: temps_hold_def collect_entry_def add_code_def received_on_def)
next
  case False
  then show ?thesis
    using assms(1) by (auto simp: temps_hold_def collect_entry_def add_code_def received_on_def)
qed

lemma collect_ids_holds:
  assumes "temps_hold t l"
    and "\<forall>ch fifo. length (l ch fifo) + length (filter (received_on ch fifo) es) \<le> 56"
  shows "\<exists>t'. collect_ids es t = Some t' \<and>
    temps_hold t' (\<lambda>ch fifo. l ch fifo @ map filter_code (filter (received_on ch fifo) es))"
  using assms
proof (induction es arbitrary: t l)
  case (Cons e es)
  have len: "\<forall>ch fifo. length (add_code e l ch fifo) + length (filter (received_on ch fifo) es) \<le> 56"
    using Cons.prems(2) by (auto simp: add_code_def split: if_splits)
  then obtain t1 where t1: "collect_entry e t = Some t1" "temps_hold t1 (add_code e l)"
    using collect_entry_holds[OF Cons.prems(1)] by (metis add_leE)
  have "(\<lambda>ch fifo. add_code e l ch fifo @ map filter_code (filter (received_on ch fifo) es)) =
    (\<lambda>ch fifo. l ch fifo @ map filter_code (filter (received_on ch fifo) (e # es)))"
    by (auto simp: add_code_def fun_eq_iff)
  then show ?case using Cons.IH[OF t1(2) len] t1(1) by simp
qed simp

lemma temp_pad_holds:
  assumes "temp_holds t l" "l \<noteq> []"
  defines "k \<equiv> (length l - 1) div 4 + 1"
  shows "\<exists>xs. temp_pad t = Some (xs, length l) \<and> length xs = 56 \<and> 4 * k \<le> 56 \<and>
    set (take (4 * k) xs) = set l"
proof -
  obtain xs where t: "t = (xs, length l)" "length xs = 56" "take (length l) xs = l"
    using assms(1) by (cases t) (auto simp: temp_holds_def)
  let ?n = "length l" and ?p = "3 - (length l - 1) mod 4"
  have div: "4 * ((?n - 1) div 4) + (?n - 1) mod 4 = ?n - 1" "(?n - 1) mod 4 < 4"
    by (rule mult_div_mod_eq) simp
  have n: "0 < ?n" using assms(2) by simp
  have "4 * q + r = m - 1 \<Longrightarrow> r < 4 \<Longrightarrow> 0 < m \<Longrightarrow> m + (3 - r) = 4 * (q + 1)" for q r m :: nat
    by arith
  then have pad: "?n + ?p = 4 * k" using div n unfolding k_def by blast
  have "?n \<le> 56" using t(2,3) by (metis length_take min.cobounded1)
  then have "4 * k \<le> 56 + 3" unfolding pad[symmetric] by (intro add_mono) simp_all
  then have k: "4 * k \<le> 56" by arith
  have "p \<le> ?p \<Longrightarrow> fold (\<lambda>i xs. xs[?n + i := xs ! (?n - 1)]) [0..<p] xs =
      l @ replicate p (last l) @ drop (?n + p) xs" for p
  proof (induction p)
    case 0
    then show ?case using t(3) by (metis append_take_drop_id fold_Nil id_apply replicate_0 self_append_conv2
          upt_0 add_0_right)
  next
    case (Suc p)
    then have "?n + p < length xs" using pad k t(2) by simp
    then show ?case
      using Suc n
      by (simp add: nth_append list_update_append last_conv_nth Cons_nth_drop_Suc[symmetric]
          replicate_append_same[symmetric])
  qed
  then show ?thesis
    using t n pad k assms(2) by (auto simp: temp_pad_def)
qed

lemma take4_drop:
  "4 * i + 4 \<le> length xs \<Longrightarrow>
    take 4 (drop (4 * i) xs) = [xs ! (4 * i), xs ! (4 * i + 1), xs ! (4 * i + 2), xs ! (4 * i + 3)]"
  by (auto simp: list_eq_iff_nth_eq less_Suc_eq numeral_eq_Suc)

lemma take_chunks: "set (take (4 * k) xs) = (\<Union>i < k. set (take 4 (drop (4 * i) xs)))"
proof (induction k)
  case (Suc k)
  have "take (4 * Suc k) xs = take (4 * k) xs @ take 4 (drop (4 * k) xs)"
    by (metis mult_Suc_right add.commute take_add)
  then show ?case using Suc by (simp add: lessThan_Suc Un_commute)
qed simp

text \<open>The banks from \<open>bank\<close> on that list the first \<open>4 * k\<close> identifiers of an array.\<close>

definition chunk_banks :: "nat \<Rightarrow> nat \<Rightarrow> bool \<Rightarrow> u16 list \<Rightarrow> (nat \<Rightarrow> (bool \<times> bool \<times> bool \<times> u16 list) option)
    \<Rightarrow> nat \<Rightarrow> (bool \<times> bool \<times> bool \<times> u16 list) option" where
  "chunk_banks bank k fifo xs f b =
    (if bank \<le> b \<and> b < bank + k then Some (True, False, fifo, take 4 (drop (4 * (b - bank)) xs)) else f b)"

lemma filter_init_FMR [simp]: "drop_bit 8 (FMR (CAN_FilterInit f c)) = drop_bit 8 (FMR c)"
proof -
  have "drop_bit 8 ((w OR 1) AND NOT 1) = drop_bit 8 (w :: u32)" for w
  proof (rule bit_word_eqI)
    fix n
    show "bit (drop_bit 8 ((w OR 1) AND NOT 1)) n \<longleftrightarrow> bit (drop_bit 8 w) n"
      by (auto simp only: bit_drop_bit_eq comp_apply bit_and_iff bit_or_iff bit_not_iff bit_1_iff
          possible_bit_word dest: bit_imp_le_length)
  qed
  then show ?thesis by (simp add: CAN_FilterInit_def upd_filter_def Let_def)
qed

lemma program_banks_effect:
  fixes n :: nat
  assumes "0 < n" "bank + k \<le> 28" "length (sFilterRegister c) = 28" "4 * k \<le> length xs"
    and k: "k = (n - 1) div 4 + 1"
  shows "\<exists>c'. program_banks (if fifo then 1 else 0) (xs, n) (bank, c) = (bank + k, c') \<and>
    length (sFilterRegister c') = 28 \<and> drop_bit 8 (FMR c') = drop_bit 8 (FMR c) \<and>
    filter_bank c' = chunk_banks bank k fifo xs (filter_bank c)"
proof -
  define step where "step = (\<lambda>i (bank, c). (bank + 1 :: nat, CAN_FilterInit
      \<lparr>CAN_FilterIdHigh = xs ! (4 * i + 0), CAN_FilterIdLow = xs ! (4 * i + 1),
       CAN_FilterMaskIdHigh = xs ! (4 * i + 2), CAN_FilterMaskIdLow = xs ! (4 * i + 3),
       CAN_FilterFIFOAssignment = if fifo then 1 else 0, CAN_FilterNumber = of_nat bank,
       CAN_FilterMode = CAN_FilterMode_IdList, CAN_FilterScale = CAN_FilterScale_16bit,
       CAN_FilterActivation = True\<rparr> c))"
  have "j \<le> k \<Longrightarrow> \<exists>c'. fold step [0..<j] (bank, c) = (bank + j, c') \<and>
      length (sFilterRegister c') = 28 \<and> drop_bit 8 (FMR c') = drop_bit 8 (FMR c) \<and>
      filter_bank c' = chunk_banks bank j fifo xs (filter_bank c)" for j
  proof (induction j)
    case 0
    then show ?case using assms(3) by (auto simp: chunk_banks_def fun_eq_iff)
  next
    case (Suc j)
    then obtain c' where c': "fold step [0..<j] (bank, c) = (bank + j, c')"
      "length (sFilterRegister c') = 28" "drop_bit 8 (FMR c') = drop_bit 8 (FMR c)"
      "filter_bank c' = chunk_banks bank j fifo xs (filter_bank c)" by auto
    have "unat (of_nat (bank + j) :: u8) = bank + j"
      using Suc.prems assms(2) by (simp add: unat_of_nat take_bit_nat_eq_self del: of_nat_add)
    then show ?case
      using Suc.prems assms(2,4) c' take4_drop[of j xs]
      by (auto simp: step_def filter_bank_init[where fifo = fifo] chunk_banks_def fun_eq_iff)
  qed
  from this[of k] show ?thesis
    using assms(1) k by (simp add: program_banks_def step_def)
qed

definition banks_needed :: "u8 \<Rightarrow> bool \<Rightarrow> Can_Data list \<Rightarrow> nat" where
  "banks_needed ch fifo db = (length (filter (received_on ch fifo) db) - 1) div 4 + 1"

definition listed_ids :: "CAN_TypeDef \<Rightarrow> nat \<Rightarrow> nat \<Rightarrow> bool \<Rightarrow> u16 set" where
  "listed_ids c lo hi fifo =
    {i. \<exists>b l. lo \<le> b \<and> b < hi \<and> filter_bank c b = Some (True, False, fifo, l) \<and> i \<in> set l}"

lemma chunk_set:
  "{i. \<exists>b \<ge> lo. b < lo + k \<and> i \<in> set (take 4 (drop (4 * (b - lo)) xs))} = set (take (4 * k) xs)"
proof -
  have "{lo..<lo + k} = (+) lo ` {..<k}" by (simp add: lessThan_atLeast0 add.commute)
  then have "(\<Union>b \<in> {lo..<lo + k}. set (take 4 (drop (4 * (b - lo)) xs))) = set (take (4 * k) xs)"
    by (simp add: take_chunks)
  then show ?thesis unfolding set_eq_iff UN_iff Bex_def by simp
qed

lemma banks_of_bus:
  assumes bank: "\<And>b. filter_bank c b =
      (if lo \<le> b \<and> b < mid then Some (True, False, False, take 4 (drop (4 * (b - lo)) xs0))
       else if mid \<le> b \<and> b < mid + k1 then Some (True, False, True, take 4 (drop (4 * (b - mid)) xs1))
       else f b)"
    and "mid = lo + k0" "mid + k1 \<le> hi" "\<forall>b \<ge> lo. f b = None"
  shows "listed_ids c lo hi False = set (take (4 * k0) xs0)"
    "listed_ids c lo hi True = set (take (4 * k1) xs1)"
proof -
  have "(\<exists>l. lo \<le> b \<and> b < hi \<and> filter_bank c b = Some (True, False, False, l) \<and> i \<in> set l) \<longleftrightarrow>
    lo \<le> b \<and> b < lo + k0 \<and> i \<in> set (take 4 (drop (4 * (b - lo)) xs0))" for b i
    using assms(2-4) bank[of b] by auto
  then show "listed_ids c lo hi False = set (take (4 * k0) xs0)"
    unfolding listed_ids_def chunk_set[of lo k0 xs0, symmetric] by simp
  have "(\<exists>l. lo \<le> b \<and> b < hi \<and> filter_bank c b = Some (True, False, True, l) \<and> i \<in> set l) \<longleftrightarrow>
    mid \<le> b \<and> b < mid + k1 \<and> i \<in> set (take 4 (drop (4 * (b - mid)) xs1))" for b i
    using assms(2-4) bank[of b] by auto
  then show "listed_ids c lo hi True = set (take (4 * k1) xs1)"
    unfolding listed_ids_def chunk_set[of mid k1 xs1, symmetric] by simp
qed

text \<open>Programming the banks of one bus: FIFO 0 first, then FIFO 1.\<close>

lemma program_bus:
  assumes "temp_holds t0 (map filter_code (filter (received_on ch False) db))"
    and "temp_holds t1 (map filter_code (filter (received_on ch True) db))"
    and "filter (received_on ch False) db \<noteq> []" "filter (received_on ch True) db \<noteq> []"
    and "lo + banks_needed ch False db + banks_needed ch True db \<le> hi" "hi \<le> 28"
    and "length (sFilterRegister c) = 28" "\<forall>b. lo \<le> b \<longrightarrow> filter_bank c b = None"
  shows "\<exists>p0 p1 n c'. temp_pad t0 = Some p0 \<and> temp_pad t1 = Some p1 \<and>
    program_banks 1 p1 (program_banks 0 p0 (lo, c)) = (n, c') \<and>
    length (sFilterRegister c') = 28 \<and> drop_bit 8 (FMR c') = drop_bit 8 (FMR c) \<and>
    (\<forall>b. filter_bank c' b \<noteq> filter_bank c b \<longrightarrow> lo \<le> b \<and> b < hi) \<and>
    (\<forall>b. lo \<le> b \<longrightarrow> filter_bank c' b = None \<or> (\<exists>fifo l. filter_bank c' b = Some (True, False, fifo, l))) \<and>
    (\<forall>fifo. listed_ids c' lo hi fifo = filter_code ` {e \<in> set db. received_on ch fifo e})"
proof -
  let ?k = "\<lambda>fifo. banks_needed ch fifo db" and ?l = "\<lambda>fifo. map filter_code (filter (received_on ch fifo) db)"
  obtain xs0 where xs0: "temp_pad t0 = Some (xs0, length (?l False))" "length xs0 = 56"
    "4 * ?k False \<le> 56" "set (take (4 * ?k False) xs0) = set (?l False)"
    using temp_pad_holds[OF assms(1)] assms(3) by (auto simp: banks_needed_def)
  obtain xs1 where xs1: "temp_pad t1 = Some (xs1, length (?l True))" "length xs1 = 56"
    "4 * ?k True \<le> 56" "set (take (4 * ?k True) xs1) = set (?l True)"
    using temp_pad_holds[OF assms(2)] assms(4) by (auto simp: banks_needed_def)
  obtain c1 where c1: "program_banks 0 (xs0, length (?l False)) (lo, c) = (lo + ?k False, c1)"
    "length (sFilterRegister c1) = 28" "drop_bit 8 (FMR c1) = drop_bit 8 (FMR c)"
    "filter_bank c1 = chunk_banks lo (?k False) False xs0 (filter_bank c)"
    using program_banks_effect[of "length (?l False)" lo "?k False" c xs0 False] assms(3,5,6,7) xs0
    by (auto simp: banks_needed_def)
  obtain c2 where c2: "program_banks 1 (xs1, length (?l True)) (lo + ?k False, c1) = (lo + ?k False + ?k True, c2)"
    "length (sFilterRegister c2) = 28" "drop_bit 8 (FMR c2) = drop_bit 8 (FMR c1)"
    "filter_bank c2 = chunk_banks (lo + ?k False) (?k True) True xs1 (filter_bank c1)"
    using program_banks_effect[of "length (?l True)" "lo + ?k False" "?k True" c1 xs1 True] assms(4,5,6) xs1 c1(2)
    by (auto simp: banks_needed_def)
  have bank: "filter_bank c2 b = (if lo \<le> b \<and> b < lo + ?k False then Some (True, False, False, take 4 (drop (4 * (b - lo)) xs0))
      else if lo + ?k False \<le> b \<and> b < lo + ?k False + ?k True
      then Some (True, False, True, take 4 (drop (4 * (b - (lo + ?k False))) xs1)) else filter_bank c b)" for b
    unfolding c2(4) c1(4) chunk_banks_def by auto
  have listed: "listed_ids c2 lo hi False = set (take (4 * ?k False) xs0)"
    "listed_ids c2 lo hi True = set (take (4 * ?k True) xs1)"
    using assms(5,8) by (auto simp: banks_of_bus[OF bank])
  have ids: "listed_ids c2 lo hi fifo = filter_code ` {e \<in> set db. received_on ch fifo e}" for fifo
    using listed xs0(4) xs1(4) by (cases fifo) auto
  have "\<forall>b. filter_bank c2 b \<noteq> filter_bank c b \<longrightarrow> lo \<le> b \<and> b < hi"
    "\<forall>b. lo \<le> b \<longrightarrow> filter_bank c2 b = None \<or> (\<exists>fifo l. filter_bank c2 b = Some (True, False, fifo, l))"
    using bank assms(5,8) by auto
  then show ?thesis using xs0(1) xs1(1) c1(1,3) c2(1-3) ids by auto
qed

lemma received_counts:
  "length (filter (received_on 1 False) Can_Database) = 12"
  "length (filter (received_on 1 True) Can_Database) = 12"
  "length (filter (received_on 2 False) Can_Database) = 9"
  "length (filter (received_on 2 True) Can_Database) = 8"
  "length (filter (\<lambda>e. Data_type e = READ_ONLY) Can_Database) = 41"
  by (simp_all add: Can_Database_def Can_Data.defs received_on_def)

lemma slave_start_bank: "drop_bit 8 (FMR (CAN_SlaveStartBank 15 c)) AND 63 = 15"
  by (simp add: CAN_SlaveStartBank_def Let_def bit.conj_disj_distrib2 and.assoc)

lemma received_bound: "length (filter (received_on ch fifo) Can_Database) \<le> 56"
proof -
  have "filter (received_on ch fifo) Can_Database =
      filter (received_on ch fifo) (filter (\<lambda>e. Data_type e = READ_ONLY) Can_Database)"
    by (auto simp: received_on_def intro: filter_cong)
  then have "length (filter (received_on ch fifo) Can_Database) \<le> 41"
    using length_filter_le received_counts(5) by metis
  then show ?thesis by simp
qed

lemma collect_database:
  defines "z \<equiv> (replicate 56 0, 0)"
  shows "\<exists>t. collect_ids Can_Database \<lparr>temp1 = z, temp2 = z, temp3 = z, temp4 = z\<rparr> = Some t \<and>
    temps_hold t (\<lambda>ch fifo. map filter_code (filter (received_on ch fifo) Can_Database))"
  using collect_ids_holds[of "\<lparr>temp1 = z, temp2 = z, temp3 = z, temp4 = z\<rparr>" "\<lambda>_ _. []" Can_Database] received_bound
  by (simp add: temps_hold_def temp_holds_def z_def)

lemma filters_listed:
  assumes "length (sFilterRegister c) = 28" "FA1R c = 0"
  shows "\<exists>c'. Can_FILTER_Config Can_Database c = Some c' \<and>
    (\<forall>fifo. listed_ids c' 0 15 fifo = filter_code ` {e \<in> set Can_Database. received_on 1 fifo e} \<and>
            listed_ids c' 15 28 fifo = filter_code ` {e \<in> set Can_Database. received_on 2 fifo e}) \<and>
    (\<forall>b. filter_bank c' b = None \<or> (\<exists>fifo l. filter_bank c' b = Some (True, False, fifo, l))) \<and>
    drop_bit 8 (FMR c') AND 63 = 15"
proof -
  let ?c = "CAN_SlaveStartBank 15 c" and ?z = "(replicate 56 0, 0)"
  have start: "(15 :: nat) \<le> 28" "length (sFilterRegister ?c) = 28" "\<forall>b. 0 \<le> b \<longrightarrow> filter_bank ?c b = None"
    using assms by (simp_all add: filter_bank_def)
  obtain t where t: "collect_ids Can_Database \<lparr>temp1 = ?z, temp2 = ?z, temp3 = ?z, temp4 = ?z\<rparr> = Some t"
    "temps_hold t (\<lambda>ch fifo. map filter_code (filter (received_on ch fifo) Can_Database))"
    using collect_database by blast
  have ne: "filter (received_on 1 False) Can_Database \<noteq> []" "filter (received_on 1 True) Can_Database \<noteq> []"
    "filter (received_on 2 False) Can_Database \<noteq> []" "filter (received_on 2 True) Can_Database \<noteq> []"
    using received_counts(1-4) by (metis list.size(3) zero_neq_numeral)+
  have k: "0 + banks_needed 1 False Can_Database + banks_needed 1 True Can_Database \<le> 15"
    "15 + banks_needed 2 False Can_Database + banks_needed 2 True Can_Database \<le> 28"
    by (simp_all add: received_counts(1-4) banks_needed_def)
  let ?l = "\<lambda>ch fifo. map filter_code (filter (received_on ch fifo) Can_Database)"
  have h: "temp_holds (temp1 t) (?l 1 False)" "temp_holds (temp2 t) (?l 1 True)"
    "temp_holds (temp3 t) (?l 2 False)" "temp_holds (temp4 t) (?l 2 True)"
    using t(2) by (simp_all add: temps_hold_def)
  obtain p1 p2 n c1 where c1: "temp_pad (temp1 t) = Some p1" "temp_pad (temp2 t) = Some p2"
    "program_banks 1 p2 (program_banks 0 p1 (0, ?c)) = (n, c1)" "length (sFilterRegister c1) = 28"
    "drop_bit 8 (FMR c1) = drop_bit 8 (FMR ?c)"
    and b1: "\<forall>b. filter_bank c1 b \<noteq> filter_bank ?c b \<longrightarrow> 0 \<le> b \<and> b < 15"
      "\<forall>b. 0 \<le> b \<longrightarrow> filter_bank c1 b = None \<or> (\<exists>fifo l. filter_bank c1 b = Some (True, False, fifo, l))"
      "\<forall>fifo. listed_ids c1 0 15 fifo = filter_code ` {e \<in> set Can_Database. received_on 1 fifo e}"
    using program_bus[OF h(1,2) ne(1,2) k(1) start] by blast
  have none1: "\<forall>b. 15 \<le> b \<longrightarrow> filter_bank c1 b = None" using b1(1) start(3) by (metis not_less le0)
  obtain p3 p4 n' c2 where c2: "temp_pad (temp3 t) = Some p3" "temp_pad (temp4 t) = Some p4"
    "program_banks 1 p4 (program_banks 0 p3 (15, c1)) = (n', c2)"
    "drop_bit 8 (FMR c2) = drop_bit 8 (FMR c1)"
    and b2: "\<forall>b. filter_bank c2 b \<noteq> filter_bank c1 b \<longrightarrow> 15 \<le> b \<and> b < 28"
      "\<forall>b. 15 \<le> b \<longrightarrow> filter_bank c2 b = None \<or> (\<exists>fifo l. filter_bank c2 b = Some (True, False, fifo, l))"
      "\<forall>fifo. listed_ids c2 15 28 fifo = filter_code ` {e \<in> set Can_Database. received_on 2 fifo e}"
    using program_bus[OF h(3,4) ne(3,4) k(2) order.refl c1(4) none1] by blast
  have same: "b < 15 \<Longrightarrow> filter_bank c2 b = filter_bank c1 b" for b using b2(1) by (metis not_less)
  then have "listed_ids c2 0 15 fifo = listed_ids c1 0 15 fifo" for fifo by (auto simp: listed_ids_def)
  moreover have "\<forall>b. filter_bank c2 b = None \<or> (\<exists>fifo l. filter_bank c2 b = Some (True, False, fifo, l))"
    using b1(2) b2(2) same by (metis le0 not_less)
  moreover have "Can_FILTER_Config Can_Database c = Some c2"
    using t(1) c1(1-3) c2(1-3) by (simp add: Can_FILTER_Config_def Let_def)
  ultimately show ?thesis using b1(3) b2(3) c1(5) c2(4) slave_start_bank[of c] by auto
qed


section \<open>Property\<close>

text \<open>C24: From reset, the acceptance filters programmed from the database list, for each bus and
  each receive FIFO, exactly the identifiers of the entries that the main board reads from that bus
  with that FIFO; every active bank is a 16-bit identifier list, and the banks of the second bus
  start at 15.\<close>

theorem filters_exact:
  assumes "length (sFilterRegister c) = 28" "FA1R c = 0"
  shows "\<exists>c'. Can_FILTER_Config Can_Database c = Some c' \<and>
    (\<forall>fifo. listed_ids c' 0 15 fifo = filter_code ` {e \<in> set Can_Database. received_on 1 fifo e} \<and>
            listed_ids c' 15 28 fifo = filter_code ` {e \<in> set Can_Database. received_on 2 fifo e}) \<and>
    (\<forall>b. filter_bank c' b = None \<or> (\<exists>fifo l. filter_bank c' b = Some (True, False, fifo, l))) \<and>
    drop_bit 8 (FMR c') AND 63 = 15"
  using assms by (rule filters_listed)

theorem filters_exact_witness:
  "\<exists>c'. Can_FILTER_Config Can_Database demo_can = Some c' \<and> 0x1520 \<in> listed_ids c' 15 28 False"
proof -
  let ?e = "\<lparr>Data_type = READ_ONLY, Data_ID = 0xa9, Data_ptr = MISO_M_ENC 2, Data_length = 7,
      MenuFunc = Some (Fn_S_MOTOR_ENC 2), Channel = 2, Fifo_num = 0\<rparr>"
  have "?e \<in> set Can_Database" by (simp add: Can_Database_def Can_Data.defs)
  then have "filter_code ?e \<in> filter_code ` {e \<in> set Can_Database. received_on 2 False e}"
    by (simp add: received_on_def)
  moreover have "filter_code ?e = 0x1520" by (simp add: filter_code_def)
  ultimately show ?thesis using filters_exact[of demo_can] by (auto simp: demo_can_def)
qed

end
