(* ===== verification/ImageSave.thy ===== *)
theory ImageSave
  imports Fifo
begin

text \<open>
  The image transfer of \<^verbatim>\<open>drivers/sd_save.c\<close>: a camera board sends an image in frames of eight
  bytes, the interrupt routine \<^verbatim>\<open>img_save_isr\<close> follows the protocol and puts the frames into a
  circular buffer of 768 frames, and \<^verbatim>\<open>Save_Img\<close> writes them from there to a file.
\<close>


section \<open>State and operations\<close>

datatype cam_state = camSta_NoReady | camSta_Ready | camSta_Transmit | camSta_Finish

record img_cbuf =
  w_index :: u32
  r_index :: u32
  img_buf :: "u8 list"

record img_state =
  Cam_Sta :: "cam_state list"
  Cam_ErrFlg :: "u8 list"
  Time_Stamp :: nat
  img_fcnt :: nat
  Img_Cbuf :: img_cbuf

definition cam_trsimg_fh :: "u8 list" where
  "cam_trsimg_fh = [0x55, 0xaa, 0x55, 0xaa, 0x55, 0xaa, 0x55, 0xaa]"

abbreviation (input) IMG_SIZE :: nat where "IMG_SIZE \<equiv> 320 * 240 * 2"
abbreviation (input) CBUF_SIZE :: nat where "CBUF_SIZE \<equiv> 8 * 128 * 6"
abbreviation (input) camErr_it :: u8 where "camErr_it \<equiv> 0x04"
abbreviation (input) camErr_bufof :: u8 where "camErr_bufof \<equiv> 0x08"
abbreviation (input) camErr_frame :: u8 where "camErr_frame \<equiv> 0x10"

text \<open>\<^verbatim>\<open>strncmp\<close> of a frame with the frame head, over its eight bytes, none of which is zero.\<close>

definition is_frame_head :: "u8 list \<Rightarrow> bool" where
  "is_frame_head frame \<longleftrightarrow> take 8 frame = cam_trsimg_fh"

definition cbuf_put :: "u8 list \<Rightarrow> img_cbuf \<Rightarrow> img_cbuf" where
  "cbuf_put frame b =
    (let b = fold (\<lambda>i b. b\<lparr>img_buf := (img_buf b)[unat (w_index b) := frame ! i], w_index := w_index b + 1\<rparr>)
               [0..<8] b
     in if w_index b = of_nat CBUF_SIZE then b\<lparr>w_index := 0\<rparr> else b)"

definition img_save_isr :: "u8 \<Rightarrow> u8 list \<Rightarrow> img_state \<Rightarrow> img_state" where
  "img_save_isr camx frame s =
    (let c = unat (camx - 1)
     in if Cam_Sta s ! c = camSta_NoReady
        then if is_frame_head frame then s\<lparr>Cam_Sta := (Cam_Sta s)[c := camSta_Ready]\<rparr>
             else s\<lparr>Cam_ErrFlg := (Cam_ErrFlg s)[c := camErr_it OR camErr_frame]\<rparr>
        else
          let s = (if img_fcnt s = 0 then s\<lparr>Cam_Sta := (Cam_Sta s)[c := camSta_Transmit]\<rparr> else s)
          in if Cam_Sta s ! c \<noteq> camSta_Finish
             then
               let s = s\<lparr>Time_Stamp := 0\<rparr>
               in if img_fcnt s < IMG_SIZE div 8
                  then
                    let s = s\<lparr>Img_Cbuf := cbuf_put frame (Img_Cbuf s)\<rparr>;
                        s = (if w_index (Img_Cbuf s) = r_index (Img_Cbuf s)
                             then s\<lparr>Cam_ErrFlg := (Cam_ErrFlg s)[c := camErr_bufof OR camErr_it]\<rparr>
                             else s)
                    in s\<lparr>img_fcnt := img_fcnt s + 1\<rparr>
                  else if is_frame_head frame
                  then s\<lparr>Cam_Sta := (Cam_Sta s)[c := camSta_Finish], img_fcnt := 0\<rparr>
                  else s\<lparr>Cam_ErrFlg := (Cam_ErrFlg s)[c := camErr_it OR camErr_frame], img_fcnt := 0\<rparr>
             else s)"

text \<open>
  One turn of the loop of \<^verbatim>\<open>Save_Img\<close> that empties the buffer: eight bytes to the file.  The
  file system call is taken to succeed.
\<close>

definition save_step :: "img_state \<times> u8 list \<Rightarrow> img_state \<times> u8 list" where
  "save_step sf =
    (case sf of (s, file) \<Rightarrow>
       let b = Img_Cbuf s
       in if r_index b \<noteq> w_index b
          then let file = file @ take 8 (drop (unat (r_index b)) (img_buf b));
                   b = b\<lparr>r_index := r_index b + 8\<rparr>;
                   b = (if r_index b = of_nat CBUF_SIZE then b\<lparr>r_index := 0\<rparr> else b)
               in (s\<lparr>Img_Cbuf := b\<rparr>, file)
          else (s, file))"

text \<open>The start of a transfer in \<^verbatim>\<open>Save_Img\<close>.\<close>

definition save_start :: "u8 \<Rightarrow> img_state \<Rightarrow> img_state" where
  "save_start camx s =
    (let c = unat (camx - 1)
     in s\<lparr>Cam_ErrFlg := (Cam_ErrFlg s)[c := 0], Cam_Sta := (Cam_Sta s)[c := camSta_NoReady],
          Img_Cbuf := (Img_Cbuf s)\<lparr>r_index := 0, w_index := 0\<rparr>\<rparr>)"


section \<open>The circular buffer as a queue of frames\<close>

definition slot :: "u8 list \<Rightarrow> nat \<Rightarrow> u8 list" where
  "slot buf j = take 8 (drop (8 * j) buf)"

definition wrap768 :: "nat \<Rightarrow> nat" where
  "wrap768 j = (if j < 768 then j else j - 768)"

definition unread :: "img_cbuf \<Rightarrow> nat" where
  "unread b =
    (let i = unat (w_index b) div 8; j = unat (r_index b) div 8 in if j \<le> i then i - j else i + 768 - j)"

definition frames :: "img_cbuf \<Rightarrow> u8 list list" where
  "frames b = map (\<lambda>k. slot (img_buf b) (wrap768 (unat (r_index b) div 8 + k))) [0..<unread b]"

definition cbuf_inv :: "img_cbuf \<Rightarrow> bool" where
  "cbuf_inv b \<longleftrightarrow> length (img_buf b) = CBUF_SIZE \<and>
    (\<exists>i < 768. w_index b = of_nat (8 * i)) \<and> (\<exists>j < 768. r_index b = of_nat (8 * j))"

lemma cbuf_invI:
  "w_index b = of_nat (8 * i) \<Longrightarrow> r_index b = of_nat (8 * j) \<Longrightarrow> i < 768 \<Longrightarrow> j < 768 \<Longrightarrow>
    length (img_buf b) = CBUF_SIZE \<Longrightarrow> cbuf_inv b"
  by (auto simp: cbuf_inv_def)

lemma unat_of_small [simp]: "n < 4294967296 \<Longrightarrow> unat (of_nat n :: u32) = n"
  by (simp add: unat_of_nat take_bit_nat_eq_self)

lemma put_loop:
  assumes "w_index b = of_nat p" "p + 8 \<le> length (img_buf b)" "length (img_buf b) < 4294967296"
    "length frame = 8" "k \<le> 8"
  shows "fold (\<lambda>i b. b\<lparr>img_buf := (img_buf b)[unat (w_index b) := frame ! i], w_index := w_index b + 1\<rparr>)
      [0..<k] b =
    b\<lparr>img_buf := take p (img_buf b) @ take k frame @ drop (p + k) (img_buf b), w_index := of_nat (p + k)\<rparr>"
  using assms(5)
proof (induction k)
  case 0
  then show ?case using assms(1) by simp
next
  case (Suc k)
  have "unat (of_nat p + of_nat k :: u32) = p + k"
    using unat_of_small[of "p + k"] Suc.prems assms(2,3) by simp
  then show ?case
    using Suc assms(2,4)
    by (simp add: list_update_append min_def take_Suc_conv_app_nth Cons_nth_drop_Suc[symmetric])
qed

lemma cbuf_put_effect:
  assumes "w_index b = of_nat (8 * i)" "i < 768" "length (img_buf b) = CBUF_SIZE" "length frame = 8"
  shows "cbuf_put frame b =
    b\<lparr>img_buf := take (8 * i) (img_buf b) @ frame @ drop (8 * i + 8) (img_buf b),
      w_index := of_nat (8 * wrap768 (i + 1))\<rparr>"
proof -
  have "(of_nat (8 * i + 8) = (of_nat CBUF_SIZE :: u32)) = (i = 767)"
    using assms(2) unat_of_small[of "8 * i + 8"] unat_of_small[of CBUF_SIZE]
    by (auto simp: word_unat_eq_iff simp del: of_nat_add of_nat_mult)
  then show ?thesis
    using put_loop[of b "8 * i" frame 8] assms
    by (auto simp: cbuf_put_def Let_def wrap768_def add.commute simp del: of_nat_add of_nat_mult)
qed

lemma slot_put:
  assumes "i < 768" "j < 768" "length buf = CBUF_SIZE" "length frame = 8"
  shows "slot (take (8 * i) buf @ frame @ drop (8 * i + 8) buf) j = (if j = i then frame else slot buf j)"
proof -
  have len: "length (take (8 * i) buf) = 8 * i" using assms by simp
  consider "j = i" | "j < i" | "i < j" by linarith
  then show ?thesis
  proof cases
    case 1
    then show ?thesis using assms by (simp add: slot_def)
  next
    case 2
    then have "8 * i - 8 * j \<ge> 8" by simp
    then show ?thesis using 2 assms by (simp add: slot_def drop_take)
  next
    case 3
    then obtain d where "j = i + 1 + d" using less_imp_Suc_add by (metis Suc_eq_plus1 add_Suc_shift add.assoc add.commute)
    then show ?thesis using assms by (simp add: slot_def algebra_simps)
  qed
qed

definition cbuf_enq :: "u8 list \<Rightarrow> img_cbuf \<Rightarrow> img_cbuf option" where
  "cbuf_enq m b =
    (let b' = cbuf_put m b in if length m = 8 \<and> w_index b' \<noteq> r_index b' then Some b' else None)"

definition cbuf_deq :: "img_cbuf \<Rightarrow> (u8 list \<times> img_cbuf) option" where
  "cbuf_deq b =
    (if r_index b \<noteq> w_index b
     then let b' = b\<lparr>r_index := r_index b + 8\<rparr>
          in Some (take 8 (drop (unat (r_index b)) (img_buf b)),
                   if r_index b' = of_nat CBUF_SIZE then b'\<lparr>r_index := 0\<rparr> else b')
     else None)"

lemma index_eq: "i < 768 \<Longrightarrow> j < 768 \<Longrightarrow> (of_nat (8 * i) = (of_nat (8 * j) :: u32)) = (i = j)"
  using unat_of_small[of "8 * i"] unat_of_small[of "8 * j"]
  by (auto simp: word_unat_eq_iff simp del: of_nat_add of_nat_mult)

lemma cbuf_view:
  assumes "w_index b = of_nat (8 * i)" "r_index b = of_nat (8 * j)" "i < 768" "j < 768"
  shows "unread b = (if j \<le> i then i - j else i + 768 - j)"
    "frames b = map (\<lambda>k. slot (img_buf b) (wrap768 (j + k))) [0..<unread b]"
  using assms by (simp_all add: unread_def frames_def del: of_nat_mult)

lemma wrap768_less [simp]: "j < 2 * 768 \<Longrightarrow> wrap768 j < 768"
  by (auto simp: wrap768_def)

lemma cbuf_enq_room:
  assumes "cbuf_inv b" "unread b < 767" "length m = 8"
  shows "\<exists>b'. cbuf_enq m b = Some b' \<and> cbuf_inv b' \<and> frames b' = frames b @ [m]"
proof -
  obtain i j where ij: "w_index b = of_nat (8 * i)" "r_index b = of_nat (8 * j)" "i < 768" "j < 768"
    and len: "length (img_buf b) = CBUF_SIZE" using assms(1) by (auto simp: cbuf_inv_def)
  let ?b = "b\<lparr>img_buf := take (8 * i) (img_buf b) @ m @ drop (8 * i + 8) (img_buf b),
      w_index := of_nat (8 * wrap768 (i + 1))\<rparr>"
  have put: "cbuf_put m b = ?b" by (rule cbuf_put_effect[OF ij(1,3) len assms(3)])
  have i': "wrap768 (i + 1) < 768" using ij(3) by simp
  have n: "unread b = (if j \<le> i then i - j else i + 768 - j)" by (rule cbuf_view(1)[OF ij])
  then have ne: "wrap768 (i + 1) \<noteq> j" using assms(2) ij(3,4) by (auto simp: wrap768_def split: if_splits)
  have n': "unread ?b = unread b + 1"
    using cbuf_view(1)[of ?b "wrap768 (i + 1)" j] ij i' n ne by (auto simp: wrap768_def split: if_splits)
  have sl: "k \<le> unread b \<Longrightarrow> slot (img_buf ?b) (wrap768 (j + k)) = (if k = unread b then m else slot (img_buf b) (wrap768 (j + k)))" for k
    using slot_put[OF ij(3) _ len assms(3), of "wrap768 (j + k)"] ij(3,4) n assms(2)
    by (auto simp: wrap768_def split: if_splits)
  have "frames ?b = frames b @ [m]"
    using cbuf_view(2)[of ?b "wrap768 (i + 1)" j] cbuf_view(2)[OF ij] ij i' n' sl by simp
  moreover have "cbuf_inv ?b"
    using ij len assms(3) by (intro cbuf_invI[of _ "wrap768 (i + 1)" j]) (simp_all del: of_nat_mult)
  moreover have "w_index ?b \<noteq> r_index ?b" using index_eq[OF i' ij(4)] ne ij(2) by (simp del: of_nat_mult)
  ultimately show ?thesis using put assms(3) by (simp add: cbuf_enq_def Let_def)
qed

lemma cbuf_enq_full:
  assumes "cbuf_inv b" "unread b = 767"
  shows "cbuf_enq m b = None"
proof (cases "length m = 8")
  case True
  obtain i j where ij: "w_index b = of_nat (8 * i)" "r_index b = of_nat (8 * j)" "i < 768" "j < 768"
    and len: "length (img_buf b) = CBUF_SIZE" using assms(1) by (auto simp: cbuf_inv_def)
  have "wrap768 (i + 1) = j"
    using cbuf_view(1)[OF ij] assms(2) ij(3,4) by (auto simp: wrap768_def split: if_splits)
  then show ?thesis
    using cbuf_put_effect[OF ij(1,3) len True] ij(2) by (simp add: cbuf_enq_def Let_def)
qed (simp add: cbuf_enq_def Let_def)

lemma cbuf_deq_some:
  assumes "cbuf_inv b" "0 < unread b"
  shows "\<exists>b'. cbuf_deq b = Some (hd (frames b), b') \<and> cbuf_inv b' \<and> frames b' = tl (frames b)"
proof -
  obtain i j where ij: "w_index b = of_nat (8 * i)" "r_index b = of_nat (8 * j)" "i < 768" "j < 768"
    and len: "length (img_buf b) = CBUF_SIZE" using assms(1) by (auto simp: cbuf_inv_def)
  have n: "unread b = (if j \<le> i then i - j else i + 768 - j)" by (rule cbuf_view(1)[OF ij])
  then have ne: "i \<noteq> j" using assms(2) by auto
  let ?b = "b\<lparr>r_index := of_nat (8 * wrap768 (j + 1))\<rparr>"
  have j': "wrap768 (j + 1) < 768" using ij(4) by simp
  have "(of_nat (8 * j) + 8 = (of_nat CBUF_SIZE :: u32)) = (j = 767)"
    using ij(4) unat_of_small[of "8 * (j + 1)"] unat_of_small[of CBUF_SIZE]
    by (auto simp: word_unat_eq_iff algebra_simps)
  then have deq: "cbuf_deq b = Some (slot (img_buf b) j, ?b)"
    using ij ne index_eq[OF ij(4,3)]
    by (auto simp: cbuf_deq_def Let_def slot_def wrap768_def simp del: of_nat_mult)
  have n': "unread b = Suc (unread ?b)"
    using cbuf_view(1)[of ?b i "wrap768 (j + 1)"] ij j' n ne by (auto simp: wrap768_def split: if_splits)
  have "wrap768 (j + Suc k) = wrap768 (wrap768 (j + 1) + k)" if "k < unread ?b" for k
    using that n n' ij(3,4) by (auto simp: wrap768_def split: if_splits)
  then have "map (\<lambda>k. slot (img_buf b) (wrap768 (j + Suc k))) [0..<unread ?b] = frames ?b"
    using cbuf_view(2)[of ?b i "wrap768 (j + 1)"] ij j' by simp
  then have "frames b = slot (img_buf b) j # frames ?b"
    unfolding cbuf_view(2)[OF ij] n' map_upt_Suc using ij(4) by (simp add: wrap768_def)
  moreover have "cbuf_inv ?b"
    using ij len by (intro cbuf_invI[of _ i "wrap768 (j + 1)"]) (simp_all del: of_nat_mult)
  ultimately show ?thesis using deq by simp
qed

lemma unread_facts:
  assumes "cbuf_inv b"
  shows "unread b < 768" "unread b = 0 \<longleftrightarrow> r_index b = w_index b"
proof -
  obtain i j where ij: "w_index b = of_nat (8 * i)" "r_index b = of_nat (8 * j)" "i < 768" "j < 768"
    using assms by (auto simp: cbuf_inv_def)
  then show "unread b < 768" "unread b = 0 \<longleftrightarrow> r_index b = w_index b"
    using cbuf_view(1)[OF ij] index_eq[OF ij(4,3)] by (auto simp del: of_nat_mult)
qed

lemma frames_length [simp]: "length (frames b) = unread b"
  by (simp add: frames_def)

interpretation img: bounded_fifo cbuf_inv frames "\<lambda>_. 767" cbuf_enq cbuf_deq "\<lambda>_ m. length m = 8"
proof (unfold_locales, goal_cases)
  case (1 q)
  then show ?case using unread_facts(1) by fastforce
next
  case (2 q m)
  then show ?case by (simp add: cbuf_enq_full)
next
  case (3 q m)
  then show ?case using cbuf_enq_room by simp
next
  case (4 q)
  then have "unread q = 0" by (metis frames_length list.size(3))
  then show ?case using unread_facts(2)[OF 4(1)] by (simp add: cbuf_deq_def)
next
  case (5 q m ms)
  then have "0 < unread q" by (metis frames_length length_greater_0_conv list.distinct(1))
  then show ?case using cbuf_deq_some[OF 5(1)] 5(2) by auto
qed


section \<open>The protocol\<close>

datatype img_event = Img_Frame "u8 list" | Img_Save

fun img_event_step :: "u8 \<Rightarrow> img_state \<times> u8 list \<Rightarrow> img_event \<Rightarrow> img_state \<times> u8 list" where
  "img_event_step camx (s, file) (Img_Frame f) = (img_save_isr camx f s, file)"
| "img_event_step camx (s, file) Img_Save = save_step (s, file)"

fun frames_sent :: "img_event list \<Rightarrow> u8 list list" where
  "frames_sent [] = []"
| "frames_sent (Img_Frame f # es) = f # frames_sent es"
| "frames_sent (Img_Save # es) = frames_sent es"

text \<open>A transfer is running for a camera: its handshake is done and the count is that of the frames.\<close>

definition receiving :: "nat \<Rightarrow> img_state \<Rightarrow> bool" where
  "receiving c s \<longleftrightarrow> c < length (Cam_Sta s) \<and> c < length (Cam_ErrFlg s) \<and>
    (Cam_Sta s ! c = camSta_Transmit \<or> Cam_Sta s ! c = camSta_Ready \<and> img_fcnt s = 0)"

lemma isr_frame:
  assumes "receiving (unat (camx - 1)) s" "img_fcnt s < IMG_SIZE div 8" "length f = 8"
  defines "c \<equiv> unat (camx - 1)"
  defines "s' \<equiv> img_save_isr camx f s"
  shows "receiving c s'" "img_fcnt s' = img_fcnt s + 1"
    "Cam_ErrFlg s' = Cam_ErrFlg s \<and> cbuf_enq f (Img_Cbuf s) = Some (Img_Cbuf s') \<or> Cam_ErrFlg s' ! c \<noteq> 0"
    "Cam_ErrFlg s ! c \<noteq> 0 \<Longrightarrow> Cam_ErrFlg s' ! c \<noteq> 0"
  using assms(1-3) unfolding s'_def c_def
  by (auto simp: img_save_isr_def receiving_def Let_def cbuf_enq_def)

lemma save_frame:
  assumes "save_step (s, file) = (s', file')"
  shows "Cam_ErrFlg s' = Cam_ErrFlg s" "img_fcnt s' = img_fcnt s" "receiving c s' = receiving c s"
    "case cbuf_deq (Img_Cbuf s) of None \<Rightarrow> s' = s \<and> file' = file
     | Some (m, b) \<Rightarrow> Img_Cbuf s' = b \<and> file' = file @ m"
  using assms by (auto simp: save_step_def Let_def cbuf_deq_def receiving_def split: if_splits)

lemma error_sticky:
  assumes "receiving (unat (camx - 1)) s" "Cam_ErrFlg s ! unat (camx - 1) \<noteq> 0"
    and "\<forall>f \<in> set (frames_sent es). length f = 8" "img_fcnt s + length (frames_sent es) \<le> IMG_SIZE div 8"
    and "foldl (img_event_step camx) (s, sd) es = (s', sd')"
  shows "Cam_ErrFlg s' ! unat (camx - 1) \<noteq> 0"
  using assms
proof (induction es arbitrary: s sd)
  case (Cons e es)
  show ?case
  proof (cases e)
    case (Img_Frame f)
    then show ?thesis using Cons isr_frame[of camx s f] by auto
  next
    case Img_Save
    obtain s1 sd1 where sf: "save_step (s, sd) = (s1, sd1)" by fastforce
    show ?thesis
      using Cons.IH[of s1 sd1] Cons.prems Img_Save sf save_frame(1,2)[OF sf] save_frame(3)[OF sf, of "unat (camx - 1)"]
      by simp
  qed
qed simp

lemma transfer_invariant:
  assumes "receiving (unat (camx - 1)) s" "cbuf_inv (Img_Cbuf s)"
    and "\<forall>f \<in> set (frames_sent es). length f = 8" "img_fcnt s + length (frames_sent es) \<le> IMG_SIZE div 8"
    and "foldl (img_event_step camx) (s, sd) es = (s', sd')" "Cam_ErrFlg s' ! unat (camx - 1) = 0"
  shows "receiving (unat (camx - 1)) s' \<and> cbuf_inv (Img_Cbuf s') \<and>
    img_fcnt s' = img_fcnt s + length (frames_sent es) \<and>
    sd' @ concat (frames (Img_Cbuf s')) = sd @ concat (frames (Img_Cbuf s)) @ concat (frames_sent es)"
  using assms
proof (induction es arbitrary: s sd)
  case (Cons e es)
  let ?c = "unat (camx - 1)"
  show ?case
  proof (cases e)
    case (Img_Frame f)
    let ?s = "img_save_isr camx f s"
    have f: "length f = 8" "img_fcnt s < IMG_SIZE div 8" using Cons.prems(3,4) Img_Frame by auto
    note isr = isr_frame[OF Cons.prems(1) f(2,1)]
    have "Cam_ErrFlg ?s ! ?c = 0"
      using error_sticky[OF isr(1), of es sd s' sd'] isr(2) Cons.prems(3-6) Img_Frame by auto
    then have enq: "cbuf_enq f (Img_Cbuf s) = Some (Img_Cbuf ?s)" using isr(3) by auto
    then have "length (frames (Img_Cbuf s)) < 767"
      using img.bounded[OF Cons.prems(2)] img.put_full[OF Cons.prems(2), of f] by fastforce
    then have "cbuf_inv (Img_Cbuf ?s)" "frames (Img_Cbuf ?s) = frames (Img_Cbuf s) @ [f]"
      using img.put_room[OF Cons.prems(2), of f] enq f(1) by auto
    then show ?thesis using Cons.IH[of ?s sd] isr(1,2) Cons.prems(3-6) Img_Frame by simp
  next
    case Img_Save
    obtain s1 sd1 where sf: "save_step (s, sd) = (s1, sd1)" by fastforce
    note sv = save_frame[OF sf]
    have "cbuf_inv (Img_Cbuf s1) \<and> sd1 @ concat (frames (Img_Cbuf s1)) = sd @ concat (frames (Img_Cbuf s))"
    proof (cases "frames (Img_Cbuf s)")
      case Nil
      then show ?thesis using img.get_empty[OF Cons.prems(2)] sv(4) Cons.prems(2) by simp
    next
      case (Cons m ms)
      then show ?thesis using img.get_some[OF \<open>cbuf_inv (Img_Cbuf s)\<close>] sv(4) by force
    qed
    then show ?thesis
      using Cons.IH[of s1 sd1] Cons.prems Img_Save sf sv(2) sv(3)[of ?c] by auto
  qed
qed auto

text \<open>C28: An image transfer delivers the image: after the handshake, whatever the interleaving of
  received frames and of the loop that saves them, as long as no error was flagged the bytes of
  the file followed by the frames still in the circular buffer are the frames received, in order;
  after the last frame of the image the closing frame head ends the transfer.\<close>

theorem image_transfer:
  assumes "c = unat (camx - 1)" "c < length (Cam_Sta s)" "c < length (Cam_ErrFlg s)" "img_fcnt s = 0"
    and "length (img_buf (Img_Cbuf s)) = CBUF_SIZE"
    and "s1 = img_save_isr camx cam_trsimg_fh (save_start camx s)"
    and "\<forall>f \<in> set (frames_sent es). length f = 8" "length (frames_sent es) \<le> IMG_SIZE div 8"
    and "foldl (img_event_step camx) (s1, []) es = (s', sd)" "Cam_ErrFlg s' ! c = 0"
  shows "sd @ concat (frames (Img_Cbuf s')) = concat (frames_sent es) \<and>
    (r_index (Img_Cbuf s') = w_index (Img_Cbuf s') \<longrightarrow> sd = concat (frames_sent es)) \<and>
    (length (frames_sent es) = IMG_SIZE div 8 \<longrightarrow>
      Cam_Sta (img_save_isr camx cam_trsimg_fh s') ! c = camSta_Finish)"
proof -
  have "cbuf_inv (Img_Cbuf s1)" "frames (Img_Cbuf s1) = []" "receiving c s1" "img_fcnt s1 = 0"
    using assms(1-6)
    by (auto simp: img_save_isr_def save_start_def Let_def is_frame_head_def cam_trsimg_fh_def cbuf_inv_def
        frames_def unread_def receiving_def intro: exI[of _ 0])
  then have inv: "receiving c s'" "cbuf_inv (Img_Cbuf s')" "img_fcnt s' = length (frames_sent es)"
    "sd @ concat (frames (Img_Cbuf s')) = concat (frames_sent es)"
    using transfer_invariant[of camx s1 es "[]" s' sd] assms(1,7-10) by auto
  moreover have "r_index (Img_Cbuf s') = w_index (Img_Cbuf s') \<Longrightarrow> frames (Img_Cbuf s') = []"
    using unread_facts(2)[OF inv(2)] by (simp add: frames_def)
  moreover have "length (frames_sent es) = IMG_SIZE div 8 \<Longrightarrow>
      Cam_Sta (img_save_isr camx cam_trsimg_fh s') ! c = camSta_Finish"
    using inv(1,3) assms(1)
    by (auto simp: img_save_isr_def Let_def is_frame_head_def cam_trsimg_fh_def receiving_def)
  ultimately show ?thesis by auto
qed

definition demo_img :: img_state where
  "demo_img = \<lparr>Cam_Sta = replicate 7 camSta_NoReady, Cam_ErrFlg = replicate 7 0, Time_Stamp = 0, img_fcnt = 0,
    Img_Cbuf = \<lparr>w_index = 0, r_index = 0, img_buf = replicate CBUF_SIZE 0\<rparr>\<rparr>"

theorem image_transfer_witness:
  "\<exists>s'. foldl (img_event_step 2) (img_save_isr 2 cam_trsimg_fh (save_start 2 demo_img), [])
    [Img_Frame [1, 2, 3, 4, 5, 6, 7, 8], Img_Save] = (s', [1, 2, 3, 4, 5, 6, 7, 8])"
proof -
  let ?f = "[1, 2, 3, 4, 5, 6, 7, 8] :: u8 list" and ?s1 = "img_save_isr 2 cam_trsimg_fh (save_start 2 demo_img)"
  let ?es = "[Img_Frame ?f, Img_Save]"
  have demo: "length (Cam_Sta demo_img) = 7" "length (Cam_ErrFlg demo_img) = 7" "img_fcnt demo_img = 0"
    "length (img_buf (Img_Cbuf demo_img)) = CBUF_SIZE" by (simp_all add: demo_img_def)
  have s1: "Cam_Sta ?s1 ! 1 = camSta_Ready" "Cam_ErrFlg ?s1 ! 1 = 0" "img_fcnt ?s1 = 0"
    "Img_Cbuf ?s1 = (Img_Cbuf demo_img)\<lparr>r_index := 0, w_index := 0\<rparr>"
    using demo by (simp_all add: img_save_isr_def save_start_def Let_def is_frame_head_def cam_trsimg_fh_def)
  have put: "cbuf_put ?f (Img_Cbuf ?s1) =
      Img_Cbuf ?s1\<lparr>img_buf := ?f @ drop 8 (img_buf (Img_Cbuf ?s1)), w_index := 8\<rparr>"
    using cbuf_put_effect[of "Img_Cbuf ?s1" 0 ?f] s1(4) demo(4) by (simp add: wrap768_def)
  have len: "length (Cam_Sta ?s1) = 7"
    using demo by (simp add: img_save_isr_def save_start_def Let_def)
  have s2: "img_save_isr 2 ?f ?s1 = ?s1\<lparr>Cam_Sta := (Cam_Sta ?s1)[1 := camSta_Transmit], Time_Stamp := 0,
      Img_Cbuf := cbuf_put ?f (Img_Cbuf ?s1), img_fcnt := 1\<rparr>"
    using s1 put len unfolding img_save_isr_def[of 2 ?f] by (simp add: Let_def)
  obtain s' sd where run: "foldl (img_event_step 2) (?s1, []) ?es = (s', sd)" by fastforce
  then have e: "Cam_ErrFlg s' ! 1 = 0" "r_index (Img_Cbuf s') = w_index (Img_Cbuf s')"
    using s1 put s2 by (auto simp: save_step_def Let_def)
  show ?thesis
    using image_transfer[of 1 2 demo_img ?s1 ?es s' sd] demo run e by simp
qed

end
