(* ===== verification/Command.thy ===== *)
theory Command
  imports CanFilter ImageSave "HOL-Library.Signed_Division"
begin

text \<open>
  The commands and handlers of \<^verbatim>\<open>drivers/Command.c\<close> on top of the CAN database, the motor
  commands of \<^verbatim>\<open>UserDevices/motor.c\<close>, the sonar switches of \<^verbatim>\<open>UserDevices/sonic.c\<close> and the
  receive interrupts of \<^verbatim>\<open>drivers/stm32f4xx_it.c\<close>.  The state extends that of the
  database by the variables the handlers set.

  Unions of a number and its bytes are the little-endian reading of the bytes.  The
  handlers only copy floating-point numbers, so that these are kept as their bit
  patterns; the two conversions of the camera handlers are the values \<open>Fp_int n\<close> (the
  integer \<open>n\<close> as a double) and \<open>Fp_tenth n\<close> (the double nearest to a tenth of \<open>n\<close>).
\<close>


section \<open>Bytes and words\<close>

type_synonym u64 = "64 word"

primrec le_word :: "u8 list \<Rightarrow> 'a::len word" where
  "le_word [] = 0"
| "le_word (b # bs) = ucast b OR push_bit 8 (le_word bs)"

definition le_bytes :: "nat \<Rightarrow> 'a::len word \<Rightarrow> u8 list" where
  "le_bytes n w = map (\<lambda>i. ucast (drop_bit (8 * i) w)) [0..<n]"


section \<open>State\<close>

datatype fp64 = Fp_bits u64 | Fp_int int | Fp_tenth int

record Gyro_State =
  gy_angle :: u64
  gy_convert1 :: u64
  gy_convert2 :: u64

record Encoder_State =
  en_dis :: u64
  en_convert1 :: u64
  en_convert2 :: u64
  en_r :: u64
  en_radian :: u64

record GPS_State =
  gps_x :: u64
  gps_y :: u64
  gps_radian :: u64

record sonic_t =
  so_state :: u8
  so_count :: u8
  so_data :: u16

record motor_vars =
  IO_State :: "u8 list"
  Motor_Pos :: "u32 list"
  Motor_RealAim :: "u16 list"
  Motor2_Time_Flag :: u8

record camera_vars =
  FilterFlag :: "u8 list"
  Stop_Flag :: "u8 list"
  Cam_Angle :: "fp64 list"
  Cam_Dist :: "fp64 list"
  Cam_Pole :: "u16 list"
  Cam_XYZA :: "u16 list"
  cam1_tmp :: "u16 list"
  cam4_tmp :: "u16 list"
  cam5_tmp :: "u16 list"

record robot = can_state +
  GPS :: GPS_State
  Gyro :: Gyro_State
  Encoder :: "Encoder_State list"
  sonic_data :: "sonic_t list"
  motors :: motor_vars
  cams :: camera_vars
  img :: img_state

definition upd_encoder :: "nat \<Rightarrow> (Encoder_State \<Rightarrow> Encoder_State) \<Rightarrow> 'a robot_scheme \<Rightarrow> 'a robot_scheme" where
  "upd_encoder n f s = s\<lparr>Encoder := (Encoder s)[n := f (Encoder s ! n)]\<rparr>"


section \<open>Commands to the slave boards\<close>

text \<open>Bytes stored from the start of the buffer of an entry.\<close>

definition put_bytes :: "can_buf \<Rightarrow> u8 list \<Rightarrow> 'a can_state_scheme \<Rightarrow> 'a can_state_scheme" where
  "put_bytes b bs s = fold (\<lambda>i. put_byte b i (bs ! i)) [0..<length bs] s"

definition CheckFloat :: "'a can_state_scheme \<Rightarrow> 'a can_state_scheme" where
  "CheckFloat s = Write_Database M_G_CMD_ID (put_byte MOSI_CMD 0 2 (put_byte MISO_CMD 0 0 s))"

definition W_MOTOR_SPEED_ANGLE_FUNC ::
  "ID_NUMDEF \<Rightarrow> u32 \<Rightarrow> 'a can_state_scheme \<Rightarrow> 'a can_state_scheme" where
  "W_MOTOR_SPEED_ANGLE_FUNC ID_NUM SPEED_ANGLE s =
    (case db_entry ID_NUM s of
       None \<Rightarrow> s\<lparr>can_status := Wild_Access\<rparr>
     | Some e \<Rightarrow> Write_Database ID_NUM (put_bytes (Data_ptr e) (le_bytes 4 SPEED_ANGLE) s))"

definition W_MOTOR_OLD_FUNC ::
  "ID_NUMDEF \<Rightarrow> u32 \<Rightarrow> u16 \<Rightarrow> u8 \<Rightarrow> 'a can_state_scheme \<Rightarrow> 'a can_state_scheme" where
  "W_MOTOR_OLD_FUNC ID_NUM rot speed cmd s =
    (if ID_NUM > W_MOTOR8_OLD_ID \<or> ID_NUM < W_MOTOR1_OLD_ID then s
     else
       case db_entry ID_NUM s of
         None \<Rightarrow> s\<lparr>can_status := Wild_Access\<rparr>
       | Some e \<Rightarrow>
           Write_Database ID_NUM
             (put_bytes (Data_ptr e) (le_bytes 4 rot @ le_bytes 2 speed @ [0, cmd]) s))"

definition W_STEPPER_FUNC :: "u8 \<Rightarrow> u8 \<Rightarrow> u32 \<Rightarrow> 'a can_state_scheme \<Rightarrow> 'a can_state_scheme" where
  "W_STEPPER_FUNC dir free step s =
    Write_Database W_STEPPER_ID (put_bytes MOSI_stepper ([dir, free] @ le_bytes 4 step) s)"

definition W_FLAG_FUNC :: "'a can_state_scheme \<Rightarrow> 'a can_state_scheme" where
  "W_FLAG_FUNC s = Write_Database W_FLAG_SET_ID (put_byte FLAG_SET 0 1 s)"

definition W_MOTOR_ANGLE_FUNC :: "'a can_state_scheme \<Rightarrow> 'a can_state_scheme" where
  "W_MOTOR_ANGLE_FUNC s =
    Write_Database W_MOTOR1_ANGLE_ID (put_bytes (MOSI_MOTOR_ANGLE 1) (le_bytes 4 (1 :: u32)) s)"

text \<open>Motor commands; the position 0 is the zero bit pattern of a float.\<close>

definition Moto_Stop :: "ID_NUMDEF \<Rightarrow> 'a can_state_scheme \<Rightarrow> 'a can_state_scheme" where
  "Moto_Stop ID_NUM = W_MOTOR_OLD_FUNC ID_NUM 0 0 0"

definition Moto_Set_NPos :: "ID_NUMDEF \<Rightarrow> u32 \<Rightarrow> 'a can_state_scheme \<Rightarrow> 'a can_state_scheme" where
  "Moto_Set_NPos ID_NUM rot = W_MOTOR_OLD_FUNC ID_NUM rot 0 2"

definition Moto_Clear_NPos :: "ID_NUMDEF \<Rightarrow> 'a can_state_scheme \<Rightarrow> 'a can_state_scheme" where
  "Moto_Clear_NPos ID_NUM = W_MOTOR_OLD_FUNC ID_NUM 0 0 1"

definition Moto_Set_GPos :: "ID_NUMDEF \<Rightarrow> u32 \<Rightarrow> 'a can_state_scheme \<Rightarrow> 'a can_state_scheme" where
  "Moto_Set_GPos ID_NUM rot = W_MOTOR_OLD_FUNC ID_NUM rot 10000 5"

definition Moto_Set_GSpeed :: "ID_NUMDEF \<Rightarrow> u16 \<Rightarrow> 'a can_state_scheme \<Rightarrow> 'a can_state_scheme" where
  "Moto_Set_GSpeed ID_NUM speed = W_MOTOR_OLD_FUNC ID_NUM 0 speed 4"

definition SONICx_ENABLE :: "u8 \<Rightarrow> 'a can_state_scheme \<Rightarrow> 'a can_state_scheme" where
  "SONICx_ENABLE SONICx s =
    (if SONICx AND 0x0f \<noteq> 0
     then Write_Database W_SONIC1_ID
            (put_byte (MOSI_SONIC_CMD 1) 0 (can_mem s (MOSI_SONIC_CMD 1) ! 0 OR SONICx) s)
     else Write_Database W_SONIC2_ID
            (put_byte (MOSI_SONIC_CMD 2) 0 (can_mem s (MOSI_SONIC_CMD 2) ! 0 OR drop_bit 4 SONICx) s))"

definition SONICx_DISABLE :: "u8 \<Rightarrow> 'a can_state_scheme \<Rightarrow> 'a can_state_scheme" where
  "SONICx_DISABLE SONICx s =
    (if SONICx AND 0x0f \<noteq> 0
     then Write_Database W_SONIC1_ID
            (put_byte (MOSI_SONIC_CMD 1) 0 (can_mem s (MOSI_SONIC_CMD 1) ! 0 AND NOT SONICx) s)
     else Write_Database W_SONIC2_ID
            (put_byte (MOSI_SONIC_CMD 2) 0 (can_mem s (MOSI_SONIC_CMD 2) ! 0 AND NOT (drop_bit 4 SONICx)) s))"


section \<open>Handlers of received data\<close>

definition f64_of :: "can_buf \<Rightarrow> 'a can_state_scheme \<Rightarrow> u64" where
  "f64_of b s = le_word (can_mem s b)"

text \<open>
  \<^verbatim>\<open>G_M_CMD_FUNC\<close> reads a byte and does nothing with it; it indexes the table with the identifier
  0x40 itself instead of its hash, which is inside the table.
\<close>

definition G_M_CMD_FUNC :: "'a robot_scheme \<Rightarrow> 'a robot_scheme" where
  "G_M_CMD_FUNC s = (if G_M_CMD_ID < length Can_Database then s else s\<lparr>can_status := Wild_Access\<rparr>)"

definition S_GPS_X_FUNC :: "'a robot_scheme \<Rightarrow> 'a robot_scheme" where
  "S_GPS_X_FUNC s = s\<lparr>GPS := (GPS s)\<lparr>gps_x := f64_of MISO_GPS_X s\<rparr>\<rparr>"

definition S_GPS_Y_FUNC :: "'a robot_scheme \<Rightarrow> 'a robot_scheme" where
  "S_GPS_Y_FUNC s = s\<lparr>GPS := (GPS s)\<lparr>gps_y := f64_of MISO_GPS_Y s\<rparr>\<rparr>"

definition S_GPS_ANG_FUNC :: "'a robot_scheme \<Rightarrow> 'a robot_scheme" where
  "S_GPS_ANG_FUNC s = s\<lparr>GPS := (GPS s)\<lparr>gps_radian := f64_of MISO_GPS_ANG s\<rparr>\<rparr>"

definition S_GYRO_C1_FUNC :: "'a robot_scheme \<Rightarrow> 'a robot_scheme" where
  "S_GYRO_C1_FUNC s = s\<lparr>Gyro := (Gyro s)\<lparr>gy_convert1 := f64_of MISO_GYRO_C1 s\<rparr>\<rparr>"

definition S_GYRO_C2_FUNC :: "'a robot_scheme \<Rightarrow> 'a robot_scheme" where
  "S_GYRO_C2_FUNC s = s\<lparr>Gyro := (Gyro s)\<lparr>gy_convert2 := f64_of MISO_GYRO_C2 s\<rparr>\<rparr>"

definition S_GYRO_RAD_FUNC :: "'a robot_scheme \<Rightarrow> 'a robot_scheme" where
  "S_GYRO_RAD_FUNC s = s\<lparr>Gyro := (Gyro s)\<lparr>gy_angle := f64_of MISO_GYRO_RAD s\<rparr>\<rparr>"

text \<open>The encoder handlers for board \<open>n\<close>, 1 or 2 (\<^verbatim>\<open>S_ENC1_C1_FUNC\<close>, \<^verbatim>\<open>S_ENC2_C1_FUNC\<close> and so on).\<close>

definition S_ENC_C1_FUNC :: "nat \<Rightarrow> 'a robot_scheme \<Rightarrow> 'a robot_scheme" where
  "S_ENC_C1_FUNC n s = upd_encoder (n - 1) (\<lambda>e. e\<lparr>en_convert1 := f64_of (MISO_ENC_C1 n) s\<rparr>) s"

definition S_ENC_C2_FUNC :: "nat \<Rightarrow> 'a robot_scheme \<Rightarrow> 'a robot_scheme" where
  "S_ENC_C2_FUNC n s = upd_encoder (n - 1) (\<lambda>e. e\<lparr>en_convert2 := f64_of (MISO_ENC_C2 n) s\<rparr>) s"

definition S_ENC_RAD_FUNC :: "nat \<Rightarrow> 'a robot_scheme \<Rightarrow> 'a robot_scheme" where
  "S_ENC_RAD_FUNC n s = upd_encoder (n - 1) (\<lambda>e. e\<lparr>en_r := f64_of (MISO_ENC_RAD n) s\<rparr>) s"

definition S_ENC_ANG_FUNC :: "nat \<Rightarrow> 'a robot_scheme \<Rightarrow> 'a robot_scheme" where
  "S_ENC_ANG_FUNC n s = upd_encoder (n - 1) (\<lambda>e. e\<lparr>en_radian := f64_of (MISO_ENC_ANG n) s\<rparr>) s"

definition S_ENC_DIS_FUNC :: "nat \<Rightarrow> 'a robot_scheme \<Rightarrow> 'a robot_scheme" where
  "S_ENC_DIS_FUNC n s = upd_encoder (n - 1) (\<lambda>e. e\<lparr>en_dis := f64_of (MISO_ENC_DIS n) s\<rparr>) s"

text \<open>\<^verbatim>\<open>S_MOTOR1_ENC_FUNC\<close> to \<^verbatim>\<open>S_MOTOR8_ENC_FUNC\<close>; the second also resets a watchdog counter.\<close>

definition S_MOTOR_ENC_FUNC :: "nat \<Rightarrow> 'a robot_scheme \<Rightarrow> 'a robot_scheme" where
  "S_MOTOR_ENC_FUNC n s =
    (let d = can_mem s (MISO_M_ENC n);
         m = motors s;
         m = m\<lparr>IO_State := (IO_State m)[n - 1 := d ! 0]\<rparr>;
         m = m\<lparr>Motor_RealAim := (Motor_RealAim m)[n - 1 := ucast (d ! 6) * 256 + ucast (d ! 5)]\<rparr>;
         m = m\<lparr>Motor_Pos := (Motor_Pos m)[n - 1 := le_word [d ! 1, d ! 2, d ! 3, d ! 4]]\<rparr>;
         m = (if n = 2 then m\<lparr>Motor2_Time_Flag := 0\<rparr> else m)
     in s\<lparr>motors := m\<rparr>)"

definition S_SWITCH_FUNC :: "'a robot_scheme \<Rightarrow> 'a robot_scheme" where
  "S_SWITCH_FUNC s = s"

text \<open>\<^verbatim>\<open>R_FLAG_SET_FUNC\<close> starts the first motor and never returns when the flag is set.\<close>

definition R_FLAG_SET_FUNC :: "'a robot_scheme \<Rightarrow> 'a robot_scheme" where
  "R_FLAG_SET_FUNC s =
    (if can_mem s FLAG_SET1 ! 0 = 1
     then (Moto_Set_GSpeed W_MOTOR1_OLD_ID 500 s)\<lparr>can_status := Spinning\<rparr>
     else s)"

text \<open>The k-th 16-bit field of a camera record, and the reset of its counter.\<close>

definition cam_field :: "nat \<Rightarrow> nat \<Rightarrow> 'a can_state_scheme \<Rightarrow> u16" where
  "cam_field n k s = le_word (take 2 (drop (2 * k) (can_mem s (camera_data n))))"

definition reset_time_flag :: "nat \<Rightarrow> 'a can_state_scheme \<Rightarrow> 'a can_state_scheme" where
  "reset_time_flag n s =
    s\<lparr>can_mem := (can_mem s)(camera_data n := take 8 (can_mem s (camera_data n)) @ [0, 0, 0, 0])\<rparr>"

definition close_to :: "u16 \<Rightarrow> u16 \<Rightarrow> int \<Rightarrow> bool" where
  "close_to a b d \<longleftrightarrow> \<bar>sint a - sint b\<bar> < d"

definition cam_smooth :: "u16 \<Rightarrow> u16 \<Rightarrow> camera_vars \<Rightarrow> camera_vars" where
  "cam_smooth x y v =
    (if FilterFlag v ! 0 \<noteq> 0
     then let v = (if close_to (cam1_tmp v ! 0) x 100
                   then v\<lparr>Cam_Angle := (Cam_Angle v)[0 := Fp_int (sint x sdiv 10)]\<rparr> else v);
              v = (if close_to (cam1_tmp v ! 1) y 200
                   then v\<lparr>Cam_Dist := (Cam_Dist v)[0 := Fp_int (sint y sdiv 10)]\<rparr> else v)
          in v\<lparr>cam1_tmp := [x, y]\<rparr>
     else v)"

text \<open>The common part of the first three camera handlers, with the index of their filter flag.\<close>

definition cam_line :: "nat \<Rightarrow> nat \<Rightarrow> u16 \<Rightarrow> u16 \<Rightarrow> camera_vars \<Rightarrow> camera_vars" where
  "cam_line i flag x y v =
    (let v = (if FilterFlag v ! flag \<noteq> 0
              then let v = (if sint x sdiv 10 = 0
                            then v\<lparr>Cam_Dist := (Cam_Dist v)[i := Fp_tenth (sint y)]\<rparr> else v)
                   in v\<lparr>Stop_Flag := (Stop_Flag v)[i := if sint x sdiv 10 = 90 then 1 else 0]\<rparr>
              else v\<lparr>Cam_Dist := (Cam_Dist v)[i := Fp_tenth (sint y)]\<rparr>)
     in v\<lparr>Cam_Angle := (Cam_Angle v)[i := Fp_tenth (sint x)]\<rparr>)"

definition reset_unless_45 :: "nat \<Rightarrow> u16 \<Rightarrow> 'a can_state_scheme \<Rightarrow> 'a can_state_scheme" where
  "reset_unless_45 n x s = (if sint x sdiv 10 \<noteq> 45 then reset_time_flag n s else s)"

definition S_CAMERA1_FUNC :: "'a robot_scheme \<Rightarrow> 'a robot_scheme" where
  "S_CAMERA1_FUNC s =
    (let x = cam_field 1 0 s; y = cam_field 1 1 s
     in reset_unless_45 1 x (s\<lparr>cams := cam_line 0 1 x y (cam_smooth x y (cams s))\<rparr>))"

definition S_CAMERA2_FUNC :: "'a robot_scheme \<Rightarrow> 'a robot_scheme" where
  "S_CAMERA2_FUNC s =
    (let x = cam_field 2 0 s; y = cam_field 2 1 s
     in reset_unless_45 2 x (s\<lparr>cams := cam_line 1 2 x y (cams s)\<rparr>))"

definition S_CAMERA3_FUNC :: "'a robot_scheme \<Rightarrow> 'a robot_scheme" where
  "S_CAMERA3_FUNC s =
    (let x = cam_field 3 0 s; y = cam_field 3 1 s
     in reset_unless_45 3 x (s\<lparr>cams := cam_line 2 3 x y (cams s)\<rparr>))"

definition S_CAMERA4_FUNC :: "'a robot_scheme \<Rightarrow> 'a robot_scheme" where
  "S_CAMERA4_FUNC s =
    (let x = cam_field 4 0 s; y = cam_field 4 1 s; v = cams s;
         v = (if FilterFlag v ! 4 \<noteq> 0
              then let v = (if close_to (cam4_tmp v ! 0) x 200
                            then v\<lparr>Cam_Pole := (Cam_Pole v)[0 := of_int (sint x sdiv 10)]\<rparr> else v);
                       v = (if close_to (cam4_tmp v ! 1) y 200
                            then v\<lparr>Cam_Pole := (Cam_Pole v)[1 := of_int (sint y sdiv 10)]\<rparr> else v)
                   in v\<lparr>cam4_tmp := [x, y]\<rparr>
              else v\<lparr>Cam_Pole := [of_int (sint x sdiv 10), of_int (sint y sdiv 10)]\<rparr>)
     in reset_time_flag 4 (s\<lparr>cams := v\<rparr>))"

definition S_CAMERA5_FUNC :: "'a robot_scheme \<Rightarrow> 'a robot_scheme" where
  "S_CAMERA5_FUNC s =
    (let x = cam_field 5 0 s; y = cam_field 5 1 s; z = cam_field 5 2 s; a = cam_field 5 3 s; v = cams s;
         v = (if FilterFlag v ! 5 \<noteq> 0
              then let t = cam5_tmp v; c = Cam_XYZA v;
                       c = (if close_to (t ! 0) x 500 then c[0 := x] else c);
                       c = (if close_to (t ! 1) y 500 then c[1 := y] else c);
                       c = (if close_to (t ! 2) z 1000 then c[2 := z] else c);
                       c = (if close_to (t ! 3) a 10 then c[3 := a] else c)
                   in v\<lparr>Cam_XYZA := c, cam5_tmp := [x, y, z, a]\<rparr>
              else v\<lparr>Cam_XYZA := [x, y, z, a]\<rparr>)
     in reset_time_flag 5 (s\<lparr>cams := v\<rparr>))"

definition S_CAM_TRANS_FUNC :: "nat \<Rightarrow> 'a robot_scheme \<Rightarrow> 'a robot_scheme" where
  "S_CAM_TRANS_FUNC n s = s\<lparr>img := img_save_isr (of_nat n) (can_mem s (MISO_CAM_TRANS n)) (img s)\<rparr>"

definition S_SONIC1_FUNC :: "'a robot_scheme \<Rightarrow> 'a robot_scheme" where
  "S_SONIC1_FUNC s =
    (let d = can_mem s (MISO_SONIC_DAT 1); num = unat (d ! 2)
     in if num < 4
        then s\<lparr>sonic_data := (sonic_data s)[num := (sonic_data s ! num)
                 \<lparr>so_data := le_word [d ! 0, d ! 1], so_count := so_count (sonic_data s ! num) + 1\<rparr>]\<rparr>
        else s)"

definition S_SONIC2_FUNC :: "'a robot_scheme \<Rightarrow> 'a robot_scheme" where
  "S_SONIC2_FUNC s =
    (let d = can_mem s (MISO_SONIC_DAT 2); num = unat (d ! 2)
     in if num < 2
        then s\<lparr>sonic_data := (sonic_data s)[num + 4 := (sonic_data s ! (num + 4))
                 \<lparr>so_data := le_word [d ! 0, d ! 1], so_count := so_count (sonic_data s ! (num + 4)) + 1\<rparr>]\<rparr>
        else s)"

text \<open>A call through a function pointer of the table.\<close>

definition call_func :: "can_func \<Rightarrow> 'a robot_scheme \<Rightarrow> 'a robot_scheme" where
  "call_func f =
    (case f of
       Fn_G_M_CMD \<Rightarrow> G_M_CMD_FUNC
     | Fn_S_GPS_X \<Rightarrow> S_GPS_X_FUNC | Fn_S_GPS_Y \<Rightarrow> S_GPS_Y_FUNC | Fn_S_GPS_ANG \<Rightarrow> S_GPS_ANG_FUNC
     | Fn_S_GYRO_C1 \<Rightarrow> S_GYRO_C1_FUNC | Fn_S_GYRO_C2 \<Rightarrow> S_GYRO_C2_FUNC | Fn_S_GYRO_RAD \<Rightarrow> S_GYRO_RAD_FUNC
     | Fn_S_ENC_C1 n \<Rightarrow> S_ENC_C1_FUNC n | Fn_S_ENC_C2 n \<Rightarrow> S_ENC_C2_FUNC n
     | Fn_S_ENC_RAD n \<Rightarrow> S_ENC_RAD_FUNC n | Fn_S_ENC_ANG n \<Rightarrow> S_ENC_ANG_FUNC n
     | Fn_S_ENC_DIS n \<Rightarrow> S_ENC_DIS_FUNC n
     | Fn_R_FLAG_SET \<Rightarrow> R_FLAG_SET_FUNC | Fn_S_SWITCH \<Rightarrow> S_SWITCH_FUNC
     | Fn_S_SONIC n \<Rightarrow> (if n = 1 then S_SONIC1_FUNC else S_SONIC2_FUNC)
     | Fn_S_MOTOR_ENC n \<Rightarrow> S_MOTOR_ENC_FUNC n
     | Fn_S_CAMERA n \<Rightarrow> (if n = 1 then S_CAMERA1_FUNC else if n = 2 then S_CAMERA2_FUNC
                          else if n = 3 then S_CAMERA3_FUNC else if n = 4 then S_CAMERA4_FUNC
                          else S_CAMERA5_FUNC)
     | Fn_S_CAM_TRANS n \<Rightarrow> S_CAM_TRANS_FUNC n)"

text \<open>
  The four receive interrupts differ in the controller and the FIFO they read.  The message is a
  local variable, whose old contents are a parameter.
\<close>

definition CAN_RX_IRQHandler ::
  "u8 \<Rightarrow> CanRxMsg \<Rightarrow> CAN_TypeDef \<times> 'a robot_scheme \<Rightarrow> CAN_TypeDef \<times> 'a robot_scheme" where
  "CAN_RX_IRQHandler fifo m0 cs =
    (case cs of (c, s) \<Rightarrow>
       case CAN_Receive c fifo m0 of (RxMessage, c') \<Rightarrow>
         (c',
          case db_entry (unat (rx_StdId RxMessage)) s of
            None \<Rightarrow> s\<lparr>can_status := Wild_Access\<rparr>
          | Some e \<Rightarrow>
              if unat (rx_DLC RxMessage) > length (rx_Data RxMessage) then s\<lparr>can_status := Wild_Access\<rparr>
              else
                let s = put_bytes (Data_ptr e) (take (unat (rx_DLC RxMessage)) (rx_Data RxMessage)) s
                in case MenuFunc e of
                     None \<Rightarrow> s\<lparr>can_status := Wild_Access\<rparr>
                   | Some f \<Rightarrow> call_func f s))"


section \<open>Lemmas\<close>

lemma bit_le_word:
  "bit (le_word bs :: 'a::len word) n \<longleftrightarrow> n < LENGTH('a) \<and> n div 8 < length bs \<and> bit (bs ! (n div 8)) (n mod 8)"
proof (induction bs arbitrary: n)
  case (Cons b bs)
  show ?case
  proof (cases "n < 8")
    case True
    then show ?thesis using Cons by (auto simp: bit_simps)
  next
    case False
    then have "n div 8 = Suc ((n - 8) div 8)" "n mod 8 = (n - 8) mod 8"
      by (simp_all add: le_div_geq le_mod_geq)
    then show ?thesis using False Cons[of "n - 8"] by (auto simp: bit_simps dest: bit_imp_le_length)
  qed
qed simp

lemma le_word_le_bytes:
  fixes w :: "'a::len word"
  assumes "LENGTH('a) \<le> 8 * n"
  shows "le_word (le_bytes n w) = w"
proof (rule bit_word_eqI)
  fix k
  assume k: "k < LENGTH('a)"
  then have "k div 8 < n" "k mod 8 < 8" using assms by auto
  then show "bit (le_word (le_bytes n w) :: 'a word) k \<longleftrightarrow> bit w k"
    using k by (simp add: bit_le_word le_bytes_def bit_simps)
qed

lemma le_bytes_length [simp]: "length (le_bytes n w) = n"
  by (simp add: le_bytes_def)

lemma put_bytes_effect:
  assumes "length bs \<le> length (can_mem s b)"
  shows "put_bytes b bs s = s\<lparr>can_mem := (can_mem s)(b := bs @ drop (length bs) (can_mem s b))\<rparr>"
proof -
  have "n \<le> length bs \<Longrightarrow> fold (\<lambda>i. put_byte b i (bs ! i)) [0..<n] s =
      s\<lparr>can_mem := (can_mem s)(b := take n bs @ drop n (can_mem s b))\<rparr>" for n
  proof (induction n)
    case (Suc n)
    have "fold (\<lambda>i. put_byte b i (bs ! i)) [0..<Suc n] s =
        put_byte b n (bs ! n) (fold (\<lambda>i. put_byte b i (bs ! i)) [0..<n] s)" by simp
    also have "fold (\<lambda>i. put_byte b i (bs ! i)) [0..<n] s =
        s\<lparr>can_mem := (can_mem s)(b := take n bs @ drop n (can_mem s b))\<rparr>"
      by (rule Suc.IH) (use Suc.prems in simp)
    also have "put_byte b n (bs ! n) (s\<lparr>can_mem := (can_mem s)(b := take n bs @ drop n (can_mem s b))\<rparr>) =
        s\<lparr>can_mem := (can_mem s)(b := (take n bs @ drop n (can_mem s b))[n := bs ! n])\<rparr>"
      using Suc.prems assms by (simp add: put_byte_def)
    also have "(take n bs @ drop n (can_mem s b))[n := bs ! n] = take (Suc n) bs @ drop (Suc n) (can_mem s b)"
      using Suc.prems assms
      by (simp add: list_update_append take_Suc_conv_app_nth Cons_nth_drop_Suc[symmetric])
    finally show ?case .
  qed simp
  from this[of "length bs"] show ?thesis by (simp add: put_bytes_def)
qed

lemma db_ready_mem:
  assumes "db_ready s" "length d = buf_size b"
  shows "db_ready (s\<lparr>can_mem := (can_mem s)(b := d)\<rparr>)"
  using assms by (simp add: db_ready_def)

lemma db_ready_out [simp]: "db_ready (s\<lparr>can_out := l\<rparr>) = db_ready s"
  "db_ready (s\<lparr>can_status := t\<rparr>) = db_ready s"
  by (simp_all add: db_ready_def)

lemma db_entry_mem [simp]: "db_entry k (s\<lparr>can_mem := m\<rparr>) = db_entry k s"
  by (simp add: db_entry_def)

lemma db_ready_robot [simp]:
  "db_ready (s\<lparr>GPS := g\<rparr>) = db_ready s" "db_ready (s\<lparr>Gyro := y\<rparr>) = db_ready s"
  "db_ready (s\<lparr>Encoder := n\<rparr>) = db_ready s" "db_ready (s\<lparr>sonic_data := d\<rparr>) = db_ready s"
  "db_ready (s\<lparr>motors := m\<rparr>) = db_ready s" "db_ready (s\<lparr>cams := v\<rparr>) = db_ready s"
  "db_ready (s\<lparr>img := i\<rparr>) = db_ready s"
  by (simp_all add: db_ready_def)

text \<open>An entry of the table is stored and sent: the common effect of the commands.\<close>

lemma put_and_write:
  assumes "db_ready s" "find (\<lambda>e. Data_ID e = k) Can_Database = Some e" "length bs = unat (Data_length e)"
  shows "Write_Database k (put_bytes (Data_ptr e) bs s) =
    s\<lparr>can_mem := (can_mem s)(Data_ptr e := bs @ drop (length bs) (can_mem s (Data_ptr e))),
      can_out := can_out s @ [(unat (Channel e),
        \<lparr>tx_StdId = of_nat k, tx_ExtId = 0, tx_IDE = 0, tx_RTR = 0, tx_DLC = Data_length e,
         tx_Data = bs @ drop (length bs) (tx_stack s)\<rparr>)]\<rparr>"
proof -
  have e: "e \<in> set Can_Database" "Data_ID e = k" using find_entry[OF assms(2)] by auto
  have len: "length bs \<le> length (can_mem s (Data_ptr e))" "length (can_mem s (Data_ptr e)) = buf_size (Data_ptr e)"
    using entry_okD(4)[OF e(1)] assms(1,3) by (auto simp: db_ready_def)
  then have r: "db_ready (put_bytes (Data_ptr e) bs s)"
    using db_ready_mem[OF assms(1)] by (simp add: put_bytes_effect[OF len(1)])
  show ?thesis
    using Write_Database_ready[OF r, of k] assms(2,3) e(2) len(1)
    by (simp add: put_bytes_effect[OF len(1)] entry_frame_def Let_def)
qed

lemma motor_entry:
  assumes "W_MOTOR1_OLD_ID \<le> k" "k \<le> W_MOTOR8_OLD_ID"
  shows "\<exists>e. find (\<lambda>e. Data_ID e = k) Can_Database = Some e \<and> Data_ptr e = MOSI_MOTOR_OLD (k - 0x9f) \<and>
    Data_length e = 8 \<and> Channel e = 2"
proof -
  have "k = 0xa0 \<or> k = 0xa1 \<or> k = 0xa2 \<or> k = 0xa3 \<or> k = 0xa4 \<or> k = 0xa5 \<or> k = 0xa6 \<or> k = 0xa7"
    using assms by auto
  then show ?thesis
    by (elim disjE) (simp_all add: Can_Database_def Can_Data.defs)
qed

lemma feedback_entry:
  assumes "0 < n" "n \<le> 8"
  shows "\<exists>e. find (\<lambda>e. Data_ID e = 0xa7 + n) Can_Database = Some e \<and> Data_ptr e = MISO_M_ENC n \<and>
    Data_length e = 7 \<and> MenuFunc e = Some (Fn_S_MOTOR_ENC n)"
proof -
  have "n = 1 \<or> n = 2 \<or> n = 3 \<or> n = 4 \<or> n = 5 \<or> n = 6 \<or> n = 7 \<or> n = 8"
    using assms by auto
  then show ?thesis
    by (elim disjE) (simp_all add: Can_Database_def Can_Data.defs)
qed

text \<open>A received frame is stored in the buffer of its entry and the handler of the entry is called.\<close>

lemma rx_dispatch:
  assumes "db_ready s" "CAN_Receive c fifo m0 = (m, c')"
    and "find (\<lambda>e. Data_ID e = unat (rx_StdId m)) Can_Database = Some e" "MenuFunc e = Some f"
    and "unat (rx_DLC m) \<le> unat (Data_length e)" "length (rx_Data m) = 8"
  shows "CAN_RX_IRQHandler fifo m0 (c, s) =
    (c', call_func f (s\<lparr>can_mem := (can_mem s)(Data_ptr e :=
      take (unat (rx_DLC m)) (rx_Data m) @ drop (unat (rx_DLC m)) (can_mem s (Data_ptr e)))\<rparr>))"
proof -
  have e: "e \<in> set Can_Database" using find_entry[OF assms(3)] by simp
  have len: "unat (rx_DLC m) \<le> 8" "unat (rx_DLC m) \<le> length (can_mem s (Data_ptr e))"
    using assms(1,5) entry_okD(3,4)[OF e] by (auto simp: db_ready_def word_le_nat_alt)
  then show ?thesis
    using assms(2-4,6) put_bytes_effect[of "take (unat (rx_DLC m)) (rx_Data m)" s "Data_ptr e"]
    by (simp add: CAN_RX_IRQHandler_def db_entry_ready[OF assms(1)] Let_def)
qed

lemma receive_data_length: "CAN_Receive c fifo m0 = (m, c') \<Longrightarrow> length (rx_Data m) = 8"
  by (auto simp: CAN_Receive_def Let_def)

lemma call_func_safe:
  assumes "db_ready s" "f \<noteq> Fn_R_FLAG_SET"
  shows "db_ready (call_func f s) \<and> can_status (call_func f s) = can_status s \<and> can_out (call_func f s) = can_out s"
proof -
  have cam: "db_ready (reset_time_flag n t)" "can_status (reset_time_flag n t) = can_status t"
    "can_out (reset_time_flag n t) = can_out t" if "db_ready t" for n and t :: "'a robot_scheme"
    using that db_ready_mem[OF that, of _ "camera_data n"]
    by (simp_all add: reset_time_flag_def db_ready_def buf_size_def)
  then show ?thesis
    using assms
    by (cases f)
      (simp_all add: call_func_def G_M_CMD_FUNC_def S_GPS_X_FUNC_def S_GPS_Y_FUNC_def S_GPS_ANG_FUNC_def
        S_GYRO_C1_FUNC_def S_GYRO_C2_FUNC_def S_GYRO_RAD_FUNC_def S_ENC_C1_FUNC_def S_ENC_C2_FUNC_def
        S_ENC_RAD_FUNC_def S_ENC_ANG_FUNC_def S_ENC_DIS_FUNC_def upd_encoder_def S_SWITCH_FUNC_def
        S_SONIC1_FUNC_def S_SONIC2_FUNC_def S_MOTOR_ENC_FUNC_def S_CAM_TRANS_FUNC_def S_CAMERA1_FUNC_def
        S_CAMERA2_FUNC_def S_CAMERA3_FUNC_def S_CAMERA4_FUNC_def S_CAMERA5_FUNC_def reset_unless_45_def Let_def)
qed


section \<open>Properties\<close>

text \<open>C26: A motor command for one of the eight motor boxes sends exactly one frame of eight bytes on
  the second bus, from which the box reads back the position, the speed, the robot and the command;
  a command for any other identifier is ignored.\<close>

theorem motor_command_exact:
  assumes "db_ready s"
  shows "W_MOTOR_OLD_FUNC k rot speed cmd s =
    (if W_MOTOR1_OLD_ID \<le> k \<and> k \<le> W_MOTOR8_OLD_ID
     then let d = le_bytes 4 rot @ le_bytes 2 speed @ [0, cmd]
          in s\<lparr>can_mem := (can_mem s)(MOSI_MOTOR_OLD (k - 0x9f) := d),
               can_out := can_out s @ [(2, \<lparr>tx_StdId = of_nat k, tx_ExtId = 0, tx_IDE = 0, tx_RTR = 0,
                                            tx_DLC = 8, tx_Data = d\<rparr>)]\<rparr>
     else s) \<and>
    le_word (take 4 (le_bytes 4 rot @ le_bytes 2 speed @ [0, cmd])) = rot \<and>
    le_word (take 2 (drop 4 (le_bytes 4 rot @ le_bytes 2 speed @ [0, cmd]))) = speed"
proof (cases "W_MOTOR1_OLD_ID \<le> k \<and> k \<le> W_MOTOR8_OLD_ID")
  case True
  then obtain e where e: "find (\<lambda>e. Data_ID e = k) Can_Database = Some e"
    "Data_ptr e = MOSI_MOTOR_OLD (k - 0x9f)" "Data_length e = 8" "Channel e = 2"
    using motor_entry by blast
  have "length (can_mem s (MOSI_MOTOR_OLD (k - 0x9f))) = 8" "length (tx_stack s) = 8"
    using assms by (simp_all add: db_ready_def buf_size_def)
  then show ?thesis
    using True e put_and_write[OF assms e(1), of "le_bytes 4 rot @ le_bytes 2 speed @ [0, cmd]"]
    by (simp add: W_MOTOR_OLD_FUNC_def db_entry_ready[OF assms] Let_def le_word_le_bytes)
next
  case False
  then show ?thesis by (auto simp: W_MOTOR_OLD_FUNC_def le_word_le_bytes)
qed

definition demo_robot :: robot where
  "demo_robot = Hash_Table_init
    \<lparr>HASH_TABLE = replicate 256 0, Can_Data_Num = 0, can_mem = (\<lambda>b. replicate (buf_size b) 0),
     tx_stack = replicate 8 0, can_out = [], can_status = Can_Ok,
     GPS = \<lparr>gps_x = 0, gps_y = 0, gps_radian = 0\<rparr>,
     Gyro = \<lparr>gy_angle = 0, gy_convert1 = 0, gy_convert2 = 0\<rparr>,
     Encoder = replicate 2 \<lparr>en_dis = 0, en_convert1 = 0, en_convert2 = 0, en_r = 0, en_radian = 0\<rparr>,
     sonic_data = replicate 6 \<lparr>so_state = 0, so_count = 0, so_data = 0\<rparr>,
     motors = \<lparr>IO_State = replicate 8 0, Motor_Pos = replicate 8 0, Motor_RealAim = replicate 8 0,
               Motor2_Time_Flag = 7\<rparr>,
     cams = \<lparr>FilterFlag = replicate 6 0, Stop_Flag = replicate 3 0, Cam_Angle = replicate 3 (Fp_bits 0),
             Cam_Dist = replicate 3 (Fp_bits 0), Cam_Pole = [0, 0], Cam_XYZA = [0, 0, 0, 0],
             cam1_tmp = [0, 0], cam4_tmp = [0, 0], cam5_tmp = [0, 0, 0, 0]\<rparr>,
     img = demo_img\<rparr>"

lemma Hash_Table_init_robot [simp]:
  "motors (Hash_Table_init s) = motors s" "cams (Hash_Table_init s) = cams s"
  by (simp_all add: Hash_Table_init_def Let_def)

lemma demo_robot_ready: "db_ready demo_robot" "can_out demo_robot = []" "can_status demo_robot = Can_Ok"
  "IO_State (motors demo_robot) = replicate 8 0"
proof -
  show "db_ready demo_robot" unfolding demo_robot_def by (rule Hash_Table_init_ready) simp_all
qed (simp_all add: demo_robot_def)

theorem motor_command_exact_witness:
  "can_out (W_MOTOR_OLD_FUNC 0xa2 0x3F800000 0xFF38 5 demo_robot) =
    [(2, \<lparr>tx_StdId = 0xa2, tx_ExtId = 0, tx_IDE = 0, tx_RTR = 0, tx_DLC = 8,
          tx_Data = [0, 0, 0x80, 0x3F, 0x38, 0xFF, 0, 5]\<rparr>)]"
  using motor_command_exact[OF demo_robot_ready(1), of "0xa2" "0x3F800000" "0xFF38" 5] demo_robot_ready(2)
  by (simp add: Let_def le_bytes_def upt_rec)

text \<open>C27: A status frame of seven bytes from motor box \<open>n\<close> sets the input state, the position and the
  target of that motor from the bytes of the frame, and leaves every other motor, the bus and the
  status as they were.\<close>

theorem motor_feedback_exact:
  assumes "db_ready s" "0 < n" "n \<le> 8" "CAN_Receive c fifo m0 = (m, c')"
    and "rx_StdId m = of_nat (0xa7 + n)" "rx_DLC m = 7" "rx_Data m = d"
  shows "\<exists>s'. CAN_RX_IRQHandler fifo m0 (c, s) = (c', s') \<and> can_status s' = can_status s \<and>
    can_out s' = can_out s \<and>
    IO_State (motors s') = (IO_State (motors s))[n - 1 := d ! 0] \<and>
    Motor_Pos (motors s') = (Motor_Pos (motors s))[n - 1 := le_word (take 4 (drop 1 d))] \<and>
    Motor_RealAim (motors s') = (Motor_RealAim (motors s))[n - 1 := le_word (take 2 (drop 5 d))]"
proof -
  obtain e where e: "find (\<lambda>e. Data_ID e = 0xa7 + n) Can_Database = Some e" "Data_ptr e = MISO_M_ENC n"
    "Data_length e = 7" "MenuFunc e = Some (Fn_S_MOTOR_ENC n)"
    using feedback_entry[OF assms(2,3)] by blast
  have k: "unat (rx_StdId m) = 0xa7 + n"
    using assms(3,5) by (simp add: unat_of_nat take_bit_nat_eq_self del: of_nat_add)
  have d: "length d = 8" using receive_data_length[OF assms(4)] assms(7) by simp
  have mem: "length (can_mem s (MISO_M_ENC n)) = 7" using assms(1) by (simp add: db_ready_def buf_size_def)
  have "ucast b * 256 + ucast a = (le_word [a, b] :: u16)" for a b
  proof -
    have "ucast a + push_bit 8 (ucast b) = (ucast a OR push_bit 8 (ucast b) :: u16)"
      by (rule disjunctive_add) (auto simp: bit_simps dest: bit_imp_le_length)
    then show ?thesis by (simp add: push_bit_eq_mult ac_simps)
  qed
  moreover obtain d0 d1 d2 d3 d4 d5 d6 d7 where "d = [d0, d1, d2, d3, d4, d5, d6, d7]"
    using list_of_8[OF d] by metis
  ultimately show ?thesis
    using rx_dispatch[OF assms(1,4), of e "Fn_S_MOTOR_ENC n"] e k assms(6,7) d mem
    by (auto simp: call_func_def S_MOTOR_ENC_FUNC_def Let_def)
qed

definition demo_status :: CAN_FIFOMailBox where
  "demo_status = \<lparr>RIR = push_bit 21 0xa9, RDTR = 7, RDLR = 0x80000003, RDHR = 0x00E8033F\<rparr>"

definition demo_node :: CAN_TypeDef where
  "demo_node = demo_can\<lparr>sFIFOMailBox := [demo_status, demo_status]\<rparr>"

lemma demo_node_receive:
  "\<exists>m c'. CAN_Receive demo_node 0 demo_rx = (m, c') \<and> rx_StdId m = of_nat (0xa7 + 2) \<and> rx_DLC m = 7 \<and>
    rx_Data m = [3, 0, 0, 0x80, 0x3F, 3, 0xE8, 0]"
  by (simp add: CAN_Receive_def demo_node_def demo_status_def demo_rx_def Let_def)

theorem motor_feedback_exact_witness:
  "\<exists>c' s'. CAN_RX_IRQHandler 0 demo_rx (demo_node, demo_robot) = (c', s') \<and>
    IO_State (motors s') = [0, 3, 0, 0, 0, 0, 0, 0]"
proof -
  obtain m c' where m: "CAN_Receive demo_node 0 demo_rx = (m, c')" "rx_StdId m = of_nat (0xa7 + 2)"
    "rx_DLC m = 7" "rx_Data m = [3, 0, 0, 0x80, 0x3F, 3, 0xE8, 0]"
    using demo_node_receive by blast
  show ?thesis
    using motor_feedback_exact[OF demo_robot_ready(1) _ _ m] demo_robot_ready(4)
    by (auto simp: eval_nat_numeral)
qed

lemma filter_code_id:
  assumes "push_bit 5 (ucast x) = filter_code e" "(x :: u32) < 2048" "e \<in> set Can_Database"
  shows "Data_ID e = unat x"
proof -
  have u: "unat (push_bit 5 w :: u16) = unat w * 32" if "unat w < 2048" for w
    using that by (simp add: push_bit_eq_mult unat_word_ariths)
  have "unat (ucast x :: u16) = unat x" "unat x < 2048"
    using assms(2) by (simp_all add: word_less_nat_alt unsigned_ucast_eq take_bit_nat_eq_self)
  moreover have "unat (of_nat (Data_ID e) :: u16) = Data_ID e" "Data_ID e < 2048"
    using entry_okD(1)[OF assms(3)] by (simp_all add: unat_of_nat take_bit_nat_eq_self)
  ultimately show ?thesis
    using arg_cong[OF assms(1), of unat] u[of "ucast x"] u[of "of_nat (Data_ID e)"]
    by (simp add: filter_code_def)
qed

lemma reader_handlers:
  "list_all (\<lambda>e. Data_type e = READ_ONLY \<and> Data_ID e \<notin> {W_RELAY1_ID, W_RELAY2_ID, R_FLAG_SET_ID} \<longrightarrow>
    MenuFunc e \<noteq> None \<and> MenuFunc e \<noteq> Some Fn_R_FLAG_SET) Can_Database"
  by (simp add: Can_Database_def Can_Data.defs)

text \<open>C25: A frame that passes the programmed filters of a bus belongs to an entry that is read from
  that bus and FIFO; when it is no longer than the entry and neither a relay command nor the flag
  command, the receive interrupt stores and handles it without an access outside the tables and the
  buffers, and keeps the database consistent.\<close>

theorem accepted_frames_safe:
  assumes "Can_FILTER_Config Can_Database c0 = Some cf" "length (sFilterRegister c0) = 28" "FA1R c0 = 0"
    and "(ch, lo, hi) = (1, 0, 15) \<or> (ch, lo, hi) = (2, 15, 28)"
    and "CAN_Receive c fifo m0 = (m, c')" "rx_StdId m < 2048"
    and "push_bit 5 (ucast (rx_StdId m)) \<in> listed_ids cf lo hi (fifo \<noteq> 0)"
    and "db_ready s" "can_status s = Can_Ok"
  shows "\<exists>e. find (\<lambda>e. Data_ID e = unat (rx_StdId m)) Can_Database = Some e \<and>
    Data_type e = READ_ONLY \<and> Channel e = ch \<and> (Fifo_num e \<noteq> 0 \<longleftrightarrow> fifo \<noteq> 0) \<and>
    (rx_DLC m \<le> Data_length e \<and> Data_ID e \<notin> {W_RELAY1_ID, W_RELAY2_ID, R_FLAG_SET_ID} \<longrightarrow>
      db_ready (snd (CAN_RX_IRQHandler fifo m0 (c, s))) \<and>
      can_status (snd (CAN_RX_IRQHandler fifo m0 (c, s))) = Can_Ok)"
proof -
  have "listed_ids cf lo hi (fifo \<noteq> 0) = filter_code ` {e \<in> set Can_Database. received_on ch (fifo \<noteq> 0) e}"
    using filters_listed[OF assms(2,3)] assms(1,4) by auto
  then obtain e where e: "e \<in> set Can_Database" "received_on ch (fifo \<noteq> 0) e"
    "push_bit 5 (ucast (rx_StdId m)) = filter_code e" using assms(7) by auto
  have k: "Data_ID e = unat (rx_StdId m)" by (rule filter_code_id[OF e(3) assms(6) e(1)])
  have find: "find (\<lambda>e. Data_ID e = unat (rx_StdId m)) Can_Database = Some e"
    using find_entry_of[OF e(1)] k by simp
  have "db_ready (snd (CAN_RX_IRQHandler fifo m0 (c, s))) \<and>
      can_status (snd (CAN_RX_IRQHandler fifo m0 (c, s))) = Can_Ok"
    if short: "rx_DLC m \<le> Data_length e" and known: "Data_ID e \<notin> {W_RELAY1_ID, W_RELAY2_ID, R_FLAG_SET_ID}"
  proof -
    obtain f where f: "MenuFunc e = Some f" "f \<noteq> Fn_R_FLAG_SET"
      using reader_handlers e(1,2) known by (auto simp: list_all_iff received_on_def)
    have dlc: "unat (rx_DLC m) \<le> unat (Data_length e)" using short by (simp add: word_le_nat_alt)
    have len: "length (rx_Data m) = 8" by (rule receive_data_length[OF assms(5)])
    have "unat (rx_DLC m) \<le> buf_size (Data_ptr e)" "unat (rx_DLC m) \<le> 8"
      using dlc entry_okD(3,4)[OF e(1)] by (simp_all add: word_le_nat_alt)
    then have r: "db_ready (s\<lparr>can_mem := (can_mem s)(Data_ptr e :=
        take (unat (rx_DLC m)) (rx_Data m) @ drop (unat (rx_DLC m)) (can_mem s (Data_ptr e)))\<rparr>)"
      using assms(8) len by (intro db_ready_mem) (auto simp: db_ready_def)
    show ?thesis
      using rx_dispatch[OF assms(8,5) find f(1) dlc len] call_func_safe[OF r f(2)] assms(9) by simp
  qed
  then show ?thesis using find e(2) by (auto simp: received_on_def)
qed

theorem accepted_frames_safe_witness:
  "\<exists>cf. Can_FILTER_Config Can_Database demo_can = Some cf \<and>
    can_status (snd (CAN_RX_IRQHandler 0 demo_rx (demo_node, demo_robot))) = Can_Ok"
proof -
  have c: "length (sFilterRegister demo_can) = 28" "FA1R demo_can = 0" by (simp_all add: demo_can_def)
  obtain cf where cf: "Can_FILTER_Config Can_Database demo_can = Some cf"
    "\<forall>fifo. listed_ids cf 0 15 fifo = filter_code ` {e \<in> set Can_Database. received_on 1 fifo e} \<and>
            listed_ids cf 15 28 fifo = filter_code ` {e \<in> set Can_Database. received_on 2 fifo e}"
    using filters_listed[OF c] by (elim exE conjE) blast
  obtain m c' where m: "CAN_Receive demo_node 0 demo_rx = (m, c')" "rx_StdId m = 0xa9" "rx_DLC m = 7"
    using demo_node_receive by auto
  let ?e = "\<lparr>Data_type = READ_ONLY, Data_ID = 0xa9, Data_ptr = MISO_M_ENC 2, Data_length = 7,
      MenuFunc = Some (Fn_S_MOTOR_ENC 2), Channel = 2, Fifo_num = 0\<rparr>"
  have find: "find (\<lambda>e. Data_ID e = 0xa9) Can_Database = Some ?e"
    by (simp add: Can_Database_def Can_Data.defs)
  then have "?e \<in> set Can_Database" by (auto simp: find_Some_iff)
  then have "filter_code ?e \<in> listed_ids cf 15 28 False" using cf(2) by (simp add: received_on_def)
  then have l: "push_bit 5 (ucast (rx_StdId m)) \<in> listed_ids cf 15 28 ((0 :: u8) \<noteq> 0)"
    using m(2) by (simp add: filter_code_def)
  have "rx_StdId m < 2048" using m(2) by simp
  then show ?thesis
    using accepted_frames_safe[OF cf(1) c _ m(1) _ l demo_robot_ready(1,3), of 2] cf(1) m(2,3) find by auto
qed

end
