(* ===== verification/Relay.thy ===== *)
theory Relay
  imports Command
begin

text \<open>
  The pneumatic valves: \<^verbatim>\<open>UserDevices/relay.c\<close> and the light of \<^verbatim>\<open>UserDevices/motor.c\<close>.  Thirty-two
  ports on two relay boards are switched by one-byte frames, and \<^verbatim>\<open>RELAY_VALUE\<close> mirrors them.
  Delays between frames do not change the state and are left out.
\<close>


section \<open>State and operations\<close>

record valves = robot +
  RELAY_VALUE :: u32
  relay_clear_i :: u8
  Hall_Count :: u8

text \<open>
  The mask of a port.  Outside 1 to 32 the C shift is undefined; the shift instruction of the
  processor gives 0 there.
\<close>

definition RELAY_NUM :: "u8 \<Rightarrow> u32" where
  "RELAY_NUM port = (if 0 < port \<and> port \<le> 32 then push_bit (unat port - 1) 1 else 0)"

definition Relay_Set :: "u8 \<Rightarrow> 'a valves_scheme \<Rightarrow> 'a valves_scheme" where
  "Relay_Set port s =
    (let s = (if port > 0 \<and> port < 17
              then Write_Database W_RELAY1_ID (put_byte (MOSI_RELAY_DATA 1) 0 ((port - 1) OR 0x80) s)
              else if port > 16 \<and> port < 33
              then Write_Database W_RELAY2_ID (put_byte (MOSI_RELAY_DATA 2) 0 ((port - 17) OR 0x80) s)
              else s)
     in s\<lparr>RELAY_VALUE := RELAY_VALUE s OR RELAY_NUM port\<rparr>)"

definition Relay_Clear :: "u8 \<Rightarrow> 'a valves_scheme \<Rightarrow> 'a valves_scheme" where
  "Relay_Clear port s =
    (let s = (if port > 0 \<and> port < 17
              then let s = put_byte (MOSI_RELAY_DATA 1) 0 (port - 1) s;
                       s = s\<lparr>relay_clear_i := (relay_clear_i s AND 0x12) + 1\<rparr>
                   in Write_Database W_RELAY1_ID s
              else if port > 16 \<and> port < 33
              then Write_Database W_RELAY2_ID (put_byte (MOSI_RELAY_DATA 2) 0 (port - 17) s)
              else s)
     in s\<lparr>RELAY_VALUE := RELAY_VALUE s AND NOT (RELAY_NUM port)\<rparr>)"

definition relay_attain :: "u8 \<Rightarrow> 'a valves_scheme \<Rightarrow> u8" where
  "relay_attain port s = (if 0 < port \<and> port \<le> 32 \<and> bit (RELAY_VALUE s) (unat port - 1) then 1 else 0)"

definition HandOpen :: "'a valves_scheme \<Rightarrow> 'a valves_scheme" where "HandOpen = Relay_Set 20"

definition HandClose :: "'a valves_scheme \<Rightarrow> 'a valves_scheme" where "HandClose = Relay_Clear 20"

definition HandTurnRight :: "'a valves_scheme \<Rightarrow> 'a valves_scheme" where "HandTurnRight = Relay_Set 23"

definition HandTurnLeft :: "'a valves_scheme \<Rightarrow> 'a valves_scheme" where "HandTurnLeft = Relay_Clear 23"

definition HandRaise :: "'a valves_scheme \<Rightarrow> 'a valves_scheme" where "HandRaise = Relay_Set 19"

definition HandFall :: "'a valves_scheme \<Rightarrow> 'a valves_scheme" where "HandFall = Relay_Clear 19"

definition BufferOn :: "'a valves_scheme \<Rightarrow> 'a valves_scheme" where "BufferOn = Relay_Clear 1"

definition BufferOff :: "'a valves_scheme \<Rightarrow> 'a valves_scheme" where "BufferOff = Relay_Set 1"

definition GunOn :: "'a valves_scheme \<Rightarrow> 'a valves_scheme" where
  "GunOn s = Relay_Set 2 (HandClose s)"

definition GunOff :: "'a valves_scheme \<Rightarrow> 'a valves_scheme" where
  "GunOff s = Relay_Clear 2 (HandClose s)"

definition FireOn :: "'a valves_scheme \<Rightarrow> 'a valves_scheme" where
  "FireOn s = Relay_Set 6 (Relay_Clear 5 (Relay_Set 4 (Relay_Clear 3 s)))"

definition FireOff :: "'a valves_scheme \<Rightarrow> 'a valves_scheme" where
  "FireOff s = Relay_Set 5 (Relay_Clear 6 (Relay_Set 3 (Relay_Clear 4 s)))"

definition FireClear :: "'a valves_scheme \<Rightarrow> 'a valves_scheme" where
  "FireClear s = Relay_Clear 6 (Relay_Clear 5 (Relay_Clear 4 (Relay_Clear 3 s)))"

definition MotorLED_On :: "'a valves_scheme \<Rightarrow> 'a valves_scheme" where "MotorLED_On = Relay_Set 21"

definition MotorLED_Off :: "'a valves_scheme \<Rightarrow> 'a valves_scheme" where "MotorLED_Off = Relay_Clear 21"

definition MotorLED_Toggle :: "'a valves_scheme \<Rightarrow> 'a valves_scheme" where
  "MotorLED_Toggle s = (if relay_attain 21 s \<noteq> 0 then Relay_Clear 21 s else Relay_Set 21 s)"

definition Hall_Send :: "u8 \<Rightarrow> 'a valves_scheme \<Rightarrow> 'a valves_scheme" where
  "Hall_Send data s =
    (let port = 18;
         s = Relay_Set port s;
         s = fold (\<lambda>count s. if data AND push_bit (count - 1) 1 \<noteq> 0 then Relay_Set port s else Relay_Clear port s)
               [4, 3, 2, 1 :: nat] s;
         s = Relay_Clear port s
     in s\<lparr>Hall_Count := data + 1\<rparr>)"


section \<open>What the relay boards see\<close>

text \<open>
  A relay board reads the port in the low seven bits of the byte and the level in the highest; the
  second board has the ports from 17.
\<close>

definition valve_command :: "nat \<times> CanTxMsg \<Rightarrow> (u8 \<times> bool) option" where
  "valve_command f =
    (case f of (bus, m) \<Rightarrow>
       if bus = 2 \<and> tx_DLC m = 1 \<and> (tx_StdId m = 0xD1 \<or> tx_StdId m = 0xD2)
       then Some ((tx_Data m ! 0 AND 0x7f) + (if tx_StdId m = 0xD1 then 1 else 17), bit (tx_Data m ! 0) 7)
       else None)"

definition switch_port :: "'p \<times> bool \<Rightarrow> 'p set \<Rightarrow> 'p set" where
  "switch_port c P = (if snd c then insert (fst c) P else P - {fst c})"

definition boards_after :: "(nat \<times> CanTxMsg) list \<Rightarrow> u8 set \<Rightarrow> u8 set" where
  "boards_after fs P = fold switch_port (List.map_filter valve_command fs) P"

text \<open>Whether a property of the ports holds before and after each of a series of commands.\<close>

primrec throughout :: "('p set \<Rightarrow> bool) \<Rightarrow> ('p \<times> bool) list \<Rightarrow> 'p set \<Rightarrow> bool" where
  "throughout I [] P = I P"
| "throughout I (c # cs) P = (I P \<and> throughout I cs (switch_port c P))"

lemma throughout_append:
  "throughout I (xs @ ys) P \<longleftrightarrow> throughout I xs P \<and> throughout I ys (fold switch_port xs P)"
  by (induction xs arbitrary: P) (auto, (cases ys; simp)+)

lemma throughout_take: "throughout I cs P \<Longrightarrow> I (fold switch_port (take k cs) P)"
proof (induction cs arbitrary: k P)
  case (Cons c cs)
  then show ?case by (cases k) auto
qed simp

text \<open>
  The contract between a driver of switched ports and its users: every command sends one frame
  that carries it, and the driver's image of the ports follows the command.
\<close>

locale port_driver =
  fixes ready :: "'s \<Rightarrow> bool"
    and sent :: "'s \<Rightarrow> 'f list"
    and drive :: "'p \<times> bool \<Rightarrow> 's \<Rightarrow> 's"
    and image :: "'s \<Rightarrow> 'p set"
    and command :: "'f \<Rightarrow> ('p \<times> bool) option"
    and ports :: "'p set"
  assumes drive_ready: "ready s \<Longrightarrow> fst c \<in> ports \<Longrightarrow> ready (drive c s)"
    and drive_sent: "ready s \<Longrightarrow> fst c \<in> ports \<Longrightarrow> \<exists>f. sent (drive c s) = sent s @ [f] \<and> command f = Some c"
    and drive_image: "ready s \<Longrightarrow> fst c \<in> ports \<Longrightarrow> image (drive c s) = switch_port c (image s)"
begin

lemma drives:
  assumes "ready s" "fst ` set cs \<subseteq> ports"
  shows "ready (fold drive cs s) \<and> image (fold drive cs s) = fold switch_port cs (image s) \<and>
    (\<exists>fs. sent (fold drive cs s) = sent s @ fs \<and> map command fs = map Some cs)"
  using assms
proof (induction cs arbitrary: s)
  case (Cons c cs)
  then obtain f where f: "sent (drive c s) = sent s @ [f]" "command f = Some c"
    using drive_sent[of s c] by auto
  have "ready (drive c s)" "image (drive c s) = switch_port c (image s)"
    using Cons.prems drive_ready[of s c] drive_image[of s c] by auto
  moreover from this obtain fs where "sent (fold drive cs (drive c s)) = sent (drive c s) @ fs"
      "map command fs = map Some cs"
    using Cons.IH[of "drive c s"] Cons.prems by auto
  ultimately show ?case
    using Cons.IH[of "drive c s"] Cons.prems f by (auto intro!: exI[of _ "f # fs"])
qed simp

end

lemma map_filter_known: "map g fs = map Some cs \<Longrightarrow> List.map_filter g fs = cs"
  by (induction fs arbitrary: cs) (auto simp: List.map_filter_def split: option.splits)


section \<open>The driver keeps its contract\<close>

definition relay_drive :: "u8 \<times> bool \<Rightarrow> 'a valves_scheme \<Rightarrow> 'a valves_scheme" where
  "relay_drive c = (if snd c then Relay_Set (fst c) else Relay_Clear (fst c))"

definition ports_on :: "'a valves_scheme \<Rightarrow> u8 set" where
  "ports_on s = {p. relay_attain p s = 1}"

definition relay_ports :: "u8 set" where
  "relay_ports = {p. 0 < p \<and> p \<le> 32}"

lemma relay_write:
  assumes "db_ready s" "b = 1 \<or> b = 2"
  shows "Write_Database (0xD0 + b) (put_byte (MOSI_RELAY_DATA b) 0 v s) =
    s\<lparr>can_mem := (can_mem s)(MOSI_RELAY_DATA b := [v]),
      can_out := can_out s @ [(2, \<lparr>tx_StdId = of_nat (0xD0 + b), tx_ExtId = 0, tx_IDE = 0, tx_RTR = 0,
                                   tx_DLC = 1, tx_Data = v # drop 1 (tx_stack s)\<rparr>)]\<rparr>"
proof -
  let ?e = "\<lparr>Data_type = READ_ONLY, Data_ID = 0xD0 + b, Data_ptr = MOSI_RELAY_DATA b, Data_length = 1,
      MenuFunc = None, Channel = 2, Fifo_num = (if b = 1 then 0 else 1)\<rparr>"
  have e: "find (\<lambda>e. Data_ID e = 0xD0 + b) Can_Database = Some ?e"
    using assms(2) by (auto simp: Can_Database_def Can_Data.defs)
  have "length (can_mem s (MOSI_RELAY_DATA b)) = 1" using assms(1) by (simp add: db_ready_def buf_size_def)
  then show ?thesis
    using put_and_write[OF assms(1) e, of "[v]"] by (simp add: put_bytes_def)
qed


lemma db_ready_valves [simp]:
  "db_ready (s\<lparr>RELAY_VALUE := v\<rparr>) = db_ready s" "db_ready (s\<lparr>relay_clear_i := i\<rparr>) = db_ready s"
  "db_ready (s\<lparr>Hall_Count := h\<rparr>) = db_ready s"
  by (simp_all add: db_ready_def)

text \<open>The byte of a command, and what the board makes of it.\<close>

definition relay_byte :: "u8 \<times> bool \<Rightarrow> u8" where
  "relay_byte c = (fst c - (if fst c < 17 then 1 else 17)) OR (if snd c then 0x80 else 0)"

lemma relay_byte_decodes:
  assumes "fst c \<in> relay_ports"
  shows "(relay_byte c AND 0x7f) + (if fst c < 17 then 1 else 17) = fst c" "bit (relay_byte c) 7 = snd c"
proof -
  define q where "q = fst c - (if fst c < 17 then 1 else 17)"
  have "unat q < 2 ^ 4"
    using assms by (auto simp: q_def relay_ports_def word_le_nat_alt word_less_nat_alt unat_sub_if_size)
  then have low: "bit q n \<Longrightarrow> n < 4" for n by (rule small_bit)
  have "relay_byte c AND 0x7f = q"
    by (intro bit_word_eqI) (auto simp: relay_byte_def q_def[symmetric] bit_simps bit_low_masks dest: low)
  then show "(relay_byte c AND 0x7f) + (if fst c < 17 then 1 else 17) = fst c" by (simp add: q_def)
  show "bit (relay_byte c) 7 = snd c"
    using low[of 7] by (auto simp: relay_byte_def q_def[symmetric] bit_simps bit_low_masks)
qed


lemma put_byte_clear_i:
  "(put_byte d n x s)\<lparr>relay_clear_i := i\<rparr> = put_byte d n x (s\<lparr>relay_clear_i := i\<rparr>)"
  "relay_clear_i (put_byte d n x s) = relay_clear_i s"
  by (simp_all add: put_byte_def)

lemma relay_drive_effect:
  assumes "db_ready s" "fst c \<in> relay_ports"
  shows "db_ready (relay_drive c s)" "can_status (relay_drive c s) = can_status s"
    "\<exists>f. can_out (relay_drive c s) = can_out s @ [f] \<and> valve_command f = Some c"
    "RELAY_VALUE (relay_drive c s) =
      (if snd c then RELAY_VALUE s OR RELAY_NUM (fst c) else RELAY_VALUE s AND NOT (RELAY_NUM (fst c)))"
proof -
  define b :: nat where "b = (if fst c < 17 then 1 else 2)"
  define i where "i = (if \<not> snd c \<and> fst c < 17 then (relay_clear_i s AND 0x12) + 1 else relay_clear_i s)"
  have r: "db_ready (s\<lparr>relay_clear_i := i\<rparr>)" using assms(1) by simp
  have range: "0 < fst c" "fst c < 33" "\<not> fst c < 17 \<longleftrightarrow> fst c > 16"
    using assms(2) by (auto simp: relay_ports_def word_le_nat_alt word_less_nat_alt)
  have "relay_drive c s =
      (let t = Write_Database (0xD0 + b) (put_byte (MOSI_RELAY_DATA b) 0 (relay_byte c) (s\<lparr>relay_clear_i := i\<rparr>))
       in t\<lparr>RELAY_VALUE := (if snd c then RELAY_VALUE t OR RELAY_NUM (fst c)
                            else RELAY_VALUE t AND NOT (RELAY_NUM (fst c)))\<rparr>)"
    using range
    by (auto simp: relay_drive_def Relay_Set_def Relay_Clear_def Let_def b_def i_def relay_byte_def put_byte_clear_i)
  moreover have "length (can_mem s (MOSI_RELAY_DATA b)) = 1" using assms(1) by (simp add: db_ready_def buf_size_def)
  moreover have "b = 1 \<or> b = 2" by (simp add: b_def)
  ultimately have eq: "relay_drive c s = s\<lparr>relay_clear_i := i, can_mem := (can_mem s)(MOSI_RELAY_DATA b := [relay_byte c]),
      can_out := can_out s @ [(2, \<lparr>tx_StdId = of_nat (0xD0 + b), tx_ExtId = 0, tx_IDE = 0, tx_RTR = 0,
                                   tx_DLC = 1, tx_Data = relay_byte c # drop 1 (tx_stack s)\<rparr>)],
      RELAY_VALUE := (if snd c then RELAY_VALUE s OR RELAY_NUM (fst c) else RELAY_VALUE s AND NOT (RELAY_NUM (fst c)))\<rparr>"
    by (simp add: relay_write[OF r] Let_def)
  show "db_ready (relay_drive c s)"
    using assms(1) unfolding eq by (auto simp: db_ready_def buf_size_def)
  show "can_status (relay_drive c s) = can_status s" unfolding eq by simp
  show "RELAY_VALUE (relay_drive c s) =
      (if snd c then RELAY_VALUE s OR RELAY_NUM (fst c) else RELAY_VALUE s AND NOT (RELAY_NUM (fst c)))"
    unfolding eq by simp
  show "\<exists>f. can_out (relay_drive c s) = can_out s @ [f] \<and> valve_command f = Some c"
    using relay_byte_decodes[OF assms(2)] unfolding eq
    by (auto simp: valve_command_def b_def prod_eq_iff split: if_splits)
qed

lemma bit_RELAY_NUM:
  assumes "p \<in> relay_ports" "0 < q" "q \<le> 32"
  shows "bit (RELAY_NUM p) (unat q - 1) \<longleftrightarrow> p = q"
proof -
  have "0 < unat p" "unat p \<le> 32" "0 < unat q" "unat q \<le> 32"
    using assms by (auto simp: relay_ports_def word_le_nat_alt word_less_nat_alt unat_gt_0)
  moreover from this have "unat q - 1 = unat p - 1 \<longleftrightarrow> p = q" by (auto simp: word_unat_eq_iff)
  ultimately show ?thesis using assms by (auto simp: RELAY_NUM_def relay_ports_def bit_simps)
qed

lemma relay_drive_image:
  assumes "db_ready s" "fst c \<in> relay_ports"
  shows "ports_on (relay_drive c s) = switch_port c (ports_on s)"
proof -
  have "relay_attain p (relay_drive c s) = 1 \<longleftrightarrow> p \<in> switch_port c (ports_on s)" for p
    using relay_drive_effect(4)[OF assms] bit_RELAY_NUM[OF assms(2), of p] assms(2)
    by (auto simp: relay_attain_def switch_port_def ports_on_def bit_simps relay_ports_def
        word_le_nat_alt word_less_nat_alt)
  then show ?thesis by (auto simp: ports_on_def)
qed

interpretation relay: port_driver db_ready can_out relay_drive ports_on valve_command relay_ports
  by unfold_locales (use relay_drive_effect relay_drive_image in blast)+


section \<open>Properties\<close>

definition demo_valves :: valves where
  "demo_valves = robot.extend demo_robot (valves.fields 0 0 0)"

lemma demo_valves_ready: "db_ready demo_valves"
  using demo_robot_ready(1) by (simp add: db_ready_def demo_valves_def robot.defs valves.defs)

lemma RELAY_VALUE_write [simp]:
  "RELAY_VALUE (Write_Database k s) = RELAY_VALUE s" "RELAY_VALUE (put_byte b i v s) = RELAY_VALUE s"
  by (auto simp: Write_Database_def Can_SendData_def put_byte_def Let_def split: option.splits)




lemmas relay_users = FireOn_def FireOff_def FireClear_def relay_drive_def

definition fire_commands :: "(u8 \<times> bool) list set" where
  "fire_commands = {[(3, False), (4, True), (5, False), (6, True)], [(4, False), (3, True), (6, False), (5, True)],
     [(3, False), (4, False), (5, False), (6, False)]}"

lemma fire_ops_commands:
  assumes "set ops \<subseteq> {FireOn, FireOff, FireClear}"
  shows "\<exists>css. set css \<subseteq> fire_commands \<and> fold (\<lambda>f. f) ops s = fold relay_drive (concat css) s"
  using assms
proof (induction ops arbitrary: s)
  case (Cons f ops)
  then obtain css where css: "set css \<subseteq> fire_commands" "fold (\<lambda>f. f) ops (f s) = fold relay_drive (concat css) (f s)"
    by (metis insert_subset list.simps(15))
  have "\<exists>cs \<in> fire_commands. f s = fold relay_drive cs s"
    using Cons.prems by (auto simp: fire_commands_def relay_users)
  then obtain cs where "cs \<in> fire_commands" "f s = fold relay_drive cs s" by blast
  with css show ?case by (auto intro!: exI[of _ "cs # css"])
qed (auto intro: exI[of _ "[]"])

definition valves_apart :: "u8 set \<Rightarrow> bool" where
  "valves_apart P \<longleftrightarrow> \<not> (3 \<in> P \<and> 4 \<in> P) \<and> \<not> (5 \<in> P \<and> 6 \<in> P)"

lemma fire_apart:
  "cs \<in> fire_commands \<Longrightarrow> valves_apart P \<Longrightarrow> throughout valves_apart cs P \<and> valves_apart (fold switch_port cs P)"
  by (auto simp: fire_commands_def valves_apart_def switch_port_def)

lemma fires_apart:
  "set css \<subseteq> fire_commands \<Longrightarrow> valves_apart P \<Longrightarrow> throughout valves_apart (concat css) P"
  by (induction css arbitrary: P) (auto simp: throughout_append fire_apart)




lemma relay_drives_status:
  "db_ready s \<Longrightarrow> fst ` set cs \<subseteq> relay_ports \<Longrightarrow> can_status (fold relay_drive cs s) = can_status s"
  by (induction cs arbitrary: s) (auto simp: relay_drive_effect)

lemma low_bits_value:
  "foldl (\<lambda>n b. 2 * n + (if b then 1 else 0)) 0 (map (bit m) [3, 2, 1, 0]) = m mod 16" for m :: nat
proof -
  have "(if odd k then 1 else 0) = k mod 2" for k :: nat by presburger
  then show ?thesis
    using mod_mult2_eq[of m 2 8] mod_mult2_eq[of "m div 2" 2 4] mod_mult2_eq[of "m div 4" 2 2]
    by (simp add: bit_iff_odd div_mult2_eq[symmetric])
qed

text \<open>The code sent over the Hall port is four bits behind a start bit: sending \<open>data\<close> drives port 18
  high, then to the four low bits of \<open>data\<close> from the highest, then low; the bits read back give
  \<open>data\<close> modulo 16.\<close>

theorem hall_code_sent:
  assumes "db_ready s" "s' = Hall_Send data s"
  shows "\<exists>fs bits. can_out s' = can_out s @ fs \<and>
    map valve_command fs = map (\<lambda>b. Some (18, b)) ([True] @ bits @ [False]) \<and>
    length bits = 4 \<and> foldl (\<lambda>n b. 2 * n + (if b then 1 else 0)) 0 bits = unat data mod 16 \<and>
    Hall_Count s' = data + 1 \<and> can_status s' = can_status s"
proof -
  let ?bits = "map (bit data) [3, 2, 1, 0]"
  let ?cs = "map (Pair (18 :: u8)) ([True] @ ?bits @ [False])"
  have eq: "s' = (fold relay_drive ?cs s)\<lparr>Hall_Count := data + 1\<rparr>"
    using assms(2) unfolding Hall_Send_def bit_iff_and_push_bit_not_eq_0[symmetric]
    by (simp add: Let_def relay_drive_def)
  have ports: "fst ` set ?cs \<subseteq> relay_ports" by (auto simp: relay_ports_def)
  obtain fs where fs: "can_out (fold relay_drive ?cs s) = can_out s @ fs" "map valve_command fs = map Some ?cs"
    using relay.drives[OF assms(1) ports] by blast
  have "foldl (\<lambda>n b. 2 * n + (if b then 1 else 0)) 0 ?bits = unat data mod 16"
    using low_bits_value[of "unat data"] by (simp add: bit_unsigned_iff)
  then show ?thesis
    using fs relay_drives_status[OF assms(1) ports] unfolding eq by (intro exI[of _ fs] exI[of _ ?bits]) (simp add: comp_def)
qed


theorem hall_code_sent_witness:
  "Hall_Count (Hall_Send 6 demo_valves) = 7 \<and>
   (\<exists>fs bits. can_out (Hall_Send 6 demo_valves) = can_out demo_valves @ fs \<and>
      map valve_command fs = map (\<lambda>b. Some (18, b)) ([True] @ bits @ [False]) \<and>
      foldl (\<lambda>n b. 2 * n + (if b then 1 else 0)) 0 bits = (6 :: nat))"
  using hall_code_sent[OF demo_valves_ready refl, of 6] by auto

end
