(* ===== verification/Device.thy ===== *)
theory Device
  imports Clock
begin

text \<open>
  The device layer \<^verbatim>\<open>src/device.c\<close> with the error numbers of \<^verbatim>\<open>src/kservice.c\<close>.  A device is a kernel
  object with flags, a reference count and the data of its driver; the functions of the driver
  are a record that the operations take as an argument, one for each device.  A driver may change the whole
  system; what the device layer relies on is the contract \<open>device_driver\<close>.
\<close>

abbreviation (input) RT_ENOSYS :: int where "RT_ENOSYS \<equiv> 6"

abbreviation (input) RT_DEVICE_FLAG_RDWR :: u16 where "RT_DEVICE_FLAG_RDWR \<equiv> 0x003"
abbreviation (input) RT_DEVICE_FLAG_STANDALONE :: u16 where "RT_DEVICE_FLAG_STANDALONE \<equiv> 0x008"
abbreviation (input) RT_DEVICE_FLAG_ACTIVATED :: u16 where "RT_DEVICE_FLAG_ACTIVATED \<equiv> 0x010"
abbreviation (input) RT_DEVICE_OFLAG_CLOSE :: u16 where "RT_DEVICE_OFLAG_CLOSE \<equiv> 0x000"
abbreviation (input) RT_DEVICE_OFLAG_OPEN :: u16 where "RT_DEVICE_OFLAG_OPEN \<equiv> 0x008"


section \<open>State\<close>

text \<open>The callbacks of a device are identified by numbers.\<close>

record 'd rt_device =
  dv_flag :: u16
  dv_open_flag :: u16
  dv_ref_count :: u8
  dv_rx_indicate :: "nat option"
  dv_tx_complete :: "nat option"
  dv_user_data :: 'd

record 'd device_kernel = kernel +
  k_errno :: int
  devices :: "nat \<Rightarrow> 'd rt_device"

text \<open>A transfer returns a size, or waits, or polls the hardware for ever.\<close>

datatype io_outcome = Io_Done u32 | Io_Blocked | Io_Never

record 'd driver =
  drv_init :: "(nat \<Rightarrow> 'd device_kernel \<Rightarrow> int \<times> 'd device_kernel) option"
  drv_open :: "(nat \<Rightarrow> u16 \<Rightarrow> 'd device_kernel \<Rightarrow> int \<times> 'd device_kernel) option"
  drv_close :: "(nat \<Rightarrow> 'd device_kernel \<Rightarrow> int \<times> 'd device_kernel) option"
  drv_read :: "(nat \<Rightarrow> u32 \<Rightarrow> u32 \<Rightarrow> 'd device_kernel \<Rightarrow> io_outcome \<times> u8 list \<times> 'd device_kernel) option"
  drv_write :: "(nat \<Rightarrow> u32 \<Rightarrow> nat \<times> u8 list \<Rightarrow> u32 \<Rightarrow> 'd device_kernel \<Rightarrow> io_outcome \<times> 'd device_kernel) option"
  drv_control :: "(nat \<Rightarrow> u8 \<Rightarrow> 'd device_kernel \<Rightarrow> int \<times> 'd device_kernel) option"

definition upd_device :: "nat \<Rightarrow> ('d rt_device \<Rightarrow> 'd rt_device) \<Rightarrow> 'd device_kernel \<Rightarrow> 'd device_kernel" where
  "upd_device n f s = s\<lparr>devices := (devices s)(n := f (devices s n))\<rparr>"


section \<open>Operations\<close>

definition rt_get_errno :: "'d device_kernel \<Rightarrow> int" where
  "rt_get_errno s =
    (if rt_interrupt_nest s \<noteq> 0 then k_errno s
     else case rt_thread_self s of None \<Rightarrow> k_errno s | Some t \<Rightarrow> th_error (threads s t))"

definition rt_set_errno :: "int \<Rightarrow> 'd device_kernel \<Rightarrow> 'd device_kernel" where
  "rt_set_errno e s =
    (if rt_interrupt_nest s \<noteq> 0 then s\<lparr>k_errno := e\<rparr>
     else case rt_thread_self s of
            None \<Rightarrow> s\<lparr>k_errno := e\<rparr>
          | Some t \<Rightarrow> upd_thread t (\<lambda>th. th\<lparr>th_error := e\<rparr>) s)"

definition rt_device_find :: "string \<Rightarrow> 'a kernel_scheme \<Rightarrow> rt_object_ref option \<times> 'a kernel_scheme" where
  "rt_device_find name k =
    (let k = (if rt_thread_self k \<noteq> None then rt_enter_critical k else k);
         found = find_by_name (obj_name k) name (rt_object_container k RT_Object_Class_Device)
     in (found, if rt_thread_self k \<noteq> None then rt_exit_critical k else k))"

definition rt_device_register ::
  "nat option \<Rightarrow> string \<Rightarrow> u16 \<Rightarrow> 'd device_kernel \<Rightarrow> int \<times> 'd device_kernel" where
  "rt_device_register dev name flags s =
    (case dev of
       None \<Rightarrow> (- RT_ERROR, s)
     | Some n \<Rightarrow>
         let (found, s) = rt_device_find name s
         in if found \<noteq> None then (- RT_ERROR, s)
            else let s = rt_object_init (DeviceObj n) RT_Object_Class_Device name s
                 in (RT_EOK, upd_device n (\<lambda>d. d\<lparr>dv_flag := flags, dv_ref_count := 0\<rparr>) s))"

definition rt_device_unregister :: "nat \<Rightarrow> 'd device_kernel \<Rightarrow> int \<times> 'd device_kernel" where
  "rt_device_unregister n s = (RT_EOK, rt_object_detach (DeviceObj n) s)"

definition set_activated :: "nat \<Rightarrow> 'd device_kernel \<Rightarrow> 'd device_kernel" where
  "set_activated n = upd_device n (\<lambda>d. d\<lparr>dv_flag := dv_flag d OR RT_DEVICE_FLAG_ACTIVATED\<rparr>)"

definition rt_device_init :: "(nat \<Rightarrow> 'd driver) \<Rightarrow> nat \<Rightarrow> 'd device_kernel \<Rightarrow> int \<times> 'd device_kernel" where
  "rt_device_init drv n s =
    (case drv_init (drv n) of
       None \<Rightarrow> (RT_EOK, s)
     | Some init \<Rightarrow>
         if dv_flag (devices s n) AND RT_DEVICE_FLAG_ACTIVATED = 0
         then let (result, s) = init n s
              in if result \<noteq> RT_EOK then (result, s) else (result, set_activated n s)
         else (RT_EOK, s))"

text \<open>The initialisation of all devices goes through the container as it is at the start: initialising a
  device does not register another.\<close>

definition rt_device_init_all :: "(nat \<Rightarrow> 'd driver) \<Rightarrow> 'd device_kernel \<Rightarrow> int \<times> 'd device_kernel" where
  "rt_device_init_all drv s =
    (RT_EOK, fold (\<lambda>obj s. case obj of DeviceObj n \<Rightarrow> snd (rt_device_init drv n s) | _ \<Rightarrow> s)
      (rt_object_container s RT_Object_Class_Device) s)"

definition activate :: "(nat \<Rightarrow> 'd driver) \<Rightarrow> nat \<Rightarrow> 'd device_kernel \<Rightarrow> int \<times> 'd device_kernel" where
  "activate drv n s =
    (if dv_flag (devices s n) AND RT_DEVICE_FLAG_ACTIVATED = 0
     then let (result, s) = (case drv_init (drv n) of None \<Rightarrow> (RT_EOK, s) | Some init \<Rightarrow> init n s)
          in if result \<noteq> RT_EOK then (result, s) else (result, set_activated n s)
     else (RT_EOK, s))"

definition rt_device_open ::
  "(nat \<Rightarrow> 'd driver) \<Rightarrow> nat \<Rightarrow> u16 \<Rightarrow> 'd device_kernel \<Rightarrow> int \<times> 'd device_kernel" where
  "rt_device_open drv n oflag s =
    (let (result, s) = activate drv n s
     in if result \<noteq> RT_EOK then (result, s)
        else if dv_flag (devices s n) AND RT_DEVICE_FLAG_STANDALONE \<noteq> 0 \<and>
                dv_open_flag (devices s n) AND RT_DEVICE_OFLAG_OPEN \<noteq> 0 then (- RT_EBUSY, s)
        else
          let s = upd_device n (\<lambda>d. d\<lparr>dv_ref_count := dv_ref_count d + 1\<rparr>) s;
              (result, s) = (case drv_open (drv n) of None \<Rightarrow> (result, s) | Some f \<Rightarrow> f n oflag s);
              s = (if result = RT_EOK \<or> result = - RT_ENOSYS
                   then upd_device n (\<lambda>d. d\<lparr>dv_open_flag := oflag OR RT_DEVICE_OFLAG_OPEN\<rparr>) s else s)
          in (result, s))"

definition rt_device_close :: "(nat \<Rightarrow> 'd driver) \<Rightarrow> nat \<Rightarrow> 'd device_kernel \<Rightarrow> int \<times> 'd device_kernel" where
  "rt_device_close drv n s =
    (if dv_ref_count (devices s n) = 0 then (- RT_ERROR, s)
     else
       let s = upd_device n (\<lambda>d. d\<lparr>dv_ref_count := dv_ref_count d - 1\<rparr>) s
       in if dv_ref_count (devices s n) \<noteq> 0 then (RT_EOK, s)
          else
            let (result, s) = (case drv_close (drv n) of None \<Rightarrow> (RT_EOK, s) | Some f \<Rightarrow> f n s);
                s = (if result = RT_EOK \<or> result = - RT_ENOSYS
                     then upd_device n (\<lambda>d. d\<lparr>dv_open_flag := RT_DEVICE_OFLAG_CLOSE\<rparr>) s else s)
            in (result, s))"

definition rt_device_read ::
  "(nat \<Rightarrow> 'd driver) \<Rightarrow> nat \<Rightarrow> u32 \<Rightarrow> u32 \<Rightarrow> 'd device_kernel \<Rightarrow> io_outcome \<times> u8 list \<times> 'd device_kernel" where
  "rt_device_read drv n pos sz s =
    (if dv_ref_count (devices s n) = 0 then (Io_Done 0, [], rt_set_errno (- RT_ERROR) s)
     else case drv_read (drv n) of
            Some f \<Rightarrow> f n pos sz s
          | None \<Rightarrow> (Io_Done 0, [], rt_set_errno (- RT_ENOSYS) s))"

definition rt_device_write ::
  "(nat \<Rightarrow> 'd driver) \<Rightarrow> nat \<Rightarrow> u32 \<Rightarrow> nat \<times> u8 list \<Rightarrow> u32 \<Rightarrow> 'd device_kernel \<Rightarrow> io_outcome \<times> 'd device_kernel" where
  "rt_device_write drv n pos buffer sz s =
    (if dv_ref_count (devices s n) = 0 then (Io_Done 0, rt_set_errno (- RT_ERROR) s)
     else case drv_write (drv n) of
            Some f \<Rightarrow> f n pos buffer sz s
          | None \<Rightarrow> (Io_Done 0, rt_set_errno (- RT_ENOSYS) s))"

definition rt_device_control ::
  "(nat \<Rightarrow> 'd driver) \<Rightarrow> nat \<Rightarrow> u8 \<Rightarrow> 'd device_kernel \<Rightarrow> int \<times> 'd device_kernel" where
  "rt_device_control drv n cmd s =
    (case drv_control (drv n) of Some f \<Rightarrow> f n cmd s | None \<Rightarrow> (RT_EOK, s))"

definition rt_device_set_rx_indicate :: "nat \<Rightarrow> nat option \<Rightarrow> 'd device_kernel \<Rightarrow> int \<times> 'd device_kernel" where
  "rt_device_set_rx_indicate n rx_ind s = (RT_EOK, upd_device n (\<lambda>d. d\<lparr>dv_rx_indicate := rx_ind\<rparr>) s)"

definition rt_device_set_tx_complete :: "nat \<Rightarrow> nat option \<Rightarrow> 'd device_kernel \<Rightarrow> int \<times> 'd device_kernel" where
  "rt_device_set_tx_complete n tx_done s = (RT_EOK, upd_device n (\<lambda>d. d\<lparr>dv_tx_complete := tx_done\<rparr>) s)"


section \<open>Sessions\<close>

text \<open>
  What a step may do to the session of a device: the reference count, the open flag and the
  stand-alone mode stay, and an activated device stays activated.
\<close>

definition same_session :: "nat \<Rightarrow> 'd device_kernel \<Rightarrow> 'd device_kernel \<Rightarrow> bool" where
  "same_session n s s' \<longleftrightarrow>
    dv_ref_count (devices s' n) = dv_ref_count (devices s n) \<and>
    dv_open_flag (devices s' n) = dv_open_flag (devices s n) \<and>
    dv_flag (devices s' n) AND RT_DEVICE_FLAG_STANDALONE = dv_flag (devices s n) AND RT_DEVICE_FLAG_STANDALONE \<and>
    (dv_flag (devices s n) AND RT_DEVICE_FLAG_ACTIVATED \<noteq> 0 \<longrightarrow> dv_flag (devices s' n) AND RT_DEVICE_FLAG_ACTIVATED \<noteq> 0)"

lemma same_session_refl [simp]: "same_session n s s" by (simp add: same_session_def)

lemma same_session_trans: "same_session n s s' \<Longrightarrow> same_session n s' s'' \<Longrightarrow> same_session n s s''"
  by (auto simp: same_session_def)

text \<open>The sessions of device \<open>n\<close> from its registration on; \<open>c\<close> is the number of opens that succeeded and
  are not yet closed.  Everything else, including all transfers and all other devices, is a step that keeps
  the session.\<close>

inductive sessions :: "(nat \<Rightarrow> 'd driver) \<Rightarrow> nat \<Rightarrow> 'd device_kernel \<Rightarrow> nat \<Rightarrow> bool"
  for drv :: "nat \<Rightarrow> 'd driver" and n :: nat where
  ses_register: "rt_device_register (Some n) name flags s = (RT_EOK, s') \<Longrightarrow> dv_open_flag (devices s n) = 0
    \<Longrightarrow> sessions drv n s' 0"
| ses_open: "sessions drv n s c \<Longrightarrow> c < 255 \<Longrightarrow> rt_device_open drv n oflag s = (r, s')
    \<Longrightarrow> sessions drv n s' (if r = RT_EOK then c + 1 else c)"
| ses_close: "sessions drv n s c \<Longrightarrow> rt_device_close drv n s = (r, s') \<Longrightarrow> sessions drv n s' (c - 1)"
| ses_init: "sessions drv n s c \<Longrightarrow> rt_device_init drv n s = (r, s') \<Longrightarrow> sessions drv n s' c"
| ses_other: "sessions drv n s c \<Longrightarrow> same_session n s s' \<Longrightarrow> sessions drv n s' c"

definition session_ok :: "nat \<Rightarrow> 'd device_kernel \<Rightarrow> nat \<Rightarrow> bool" where
  "session_ok n s c \<longleftrightarrow>
    c < 256 \<and> unat (dv_ref_count (devices s n)) = c \<and>
    (dv_open_flag (devices s n) AND RT_DEVICE_OFLAG_OPEN \<noteq> 0 \<longleftrightarrow> 0 < c) \<and>
    (0 < c \<longrightarrow> dv_flag (devices s n) AND RT_DEVICE_FLAG_ACTIVATED \<noteq> 0) \<and>
    (dv_flag (devices s n) AND RT_DEVICE_FLAG_STANDALONE \<noteq> 0 \<longrightarrow> c \<le> 1)"

lemma session_ok_same: "session_ok n s c \<Longrightarrow> same_session n s s' \<Longrightarrow> session_ok n s' c"
  by (auto simp: session_ok_def same_session_def)

lemma upd_device_simps [simp]:
  "devices (upd_device n f s) m = (if m = n then f (devices s n) else devices s m)"
  by (simp add: upd_device_def)

text \<open>The kernel does not touch the devices.\<close>

lemma devices_kernel [simp]:
  fixes s :: "'d device_kernel"
  shows "devices (rt_schedule s) = devices s" "devices (rt_enter_critical s) = devices s"
    "devices (rt_exit_critical s) = devices s" "devices (upd_thread t g s) = devices s"
    "devices (rt_set_errno e s) = devices s" "devices (rt_object_init obj ty name s) = devices s"
    "devices (upd_timer r h s) = devices s" "devices (snd (rt_timer_control r cmd s)) = devices s"
    "devices (snd (rt_timer_start r s)) = devices s" "devices (snd (rt_timer_stop r s)) = devices s"
    "devices (snd (rt_thread_suspend t s)) = devices s" "devices (snd (rt_thread_resume t s)) = devices s"
proof -
  show sch: "devices (rt_schedule s) = devices s" for s :: "'d device_kernel"
    by (simp add: rt_schedule_def Let_def split: option.split stack_verdict.split)
  show "devices (rt_enter_critical s) = devices s" "devices (upd_thread t g s) = devices s"
    "devices (rt_object_init obj ty name s) = devices s"
    by (simp_all add: rt_enter_critical_def upd_thread_def rt_object_init_def)
  show "devices (rt_exit_critical s) = devices s" by (simp add: rt_exit_critical_def sch Let_def)
  show "devices (rt_set_errno e s) = devices s" by (simp add: rt_set_errno_def upd_thread_def split: option.split)
  show "devices (upd_timer r h s) = devices s" "devices (snd (rt_timer_control r cmd s)) = devices s"
    "devices (snd (rt_timer_start r s)) = devices s" by (simp_all add: upd_timer_def rt_timer_control_def rt_timer_start_def Let_def split: timer_cmd.split)
  have stop: "devices (snd (rt_timer_stop r s)) = devices s" for r and s :: "'d device_kernel"
    by (simp add: rt_timer_stop_def rt_timer_remove_def upd_timer_def)
  then show "devices (snd (rt_timer_stop r s)) = devices s" .
  show "devices (snd (rt_thread_suspend t s)) = devices s"
    by (simp add: rt_thread_suspend_def rt_schedule_remove_thread_def upd_thread_def Let_def)
  show "devices (snd (rt_thread_resume t s)) = devices s"
    by (simp add: rt_thread_resume_def rt_schedule_insert_thread_def upd_thread_def stop Let_def)
qed

lemma device_flag_bits [simp]:
  "(f OR 0x10) AND 0x10 = (0x10 :: u16)" "(f OR 0x10) AND 8 = f AND (8 :: u16)" "(f OR 8) AND 8 = (8 :: u16)"
proof -
  show "(f OR 0x10) AND 0x10 = (0x10 :: u16)" "(f OR 8) AND 8 = (8 :: u16)" by (auto simp: bit_eq_iff bit_simps)
  have "(f OR 0x10) AND 8 = (f AND 8) OR (0x10 AND (8 :: u16))" by (rule bit.conj_disj_distrib2)
  then show "(f OR 0x10) AND 8 = f AND (8 :: u16)" by simp
qed

text \<open>What a driver promises to the device layer: none of its functions changes a session, and its open and
  close functions succeed or are not there.\<close>

locale device_driver =
  fixes drv :: "nat \<Rightarrow> 'd driver"
  assumes init_keeps: "drv_init (drv n) = Some init \<Longrightarrow> same_session m s (snd (init n s))"
    and open_keeps: "drv_open (drv n) = Some opn \<Longrightarrow> fst (opn n oflag s) = RT_EOK \<and> same_session m s (snd (opn n oflag s))"
    and close_keeps: "drv_close (drv n) = Some cls \<Longrightarrow> fst (cls n s) = RT_EOK \<and> same_session m s (snd (cls n s))"
    and read_keeps: "drv_read (drv n) = Some rd \<Longrightarrow> same_session m s (snd (snd (rd n pos sz s)))"
    and write_keeps: "drv_write (drv n) = Some wr \<Longrightarrow> same_session m s (snd (wr n pos buf sz s))"
    and control_keeps: "drv_control (drv n) = Some ctl \<Longrightarrow> same_session m s (snd (ctl n cmd s))"
begin

lemma activate_session:
  assumes "activate drv n s = (r, s')"
  shows "same_session n s s'" "r = RT_EOK \<Longrightarrow> dv_flag (devices s' n) AND RT_DEVICE_FLAG_ACTIVATED \<noteq> 0"
proof -
  have "same_session n s (set_activated n s1)" if "same_session n s s1" for s1
    using that by (auto simp: same_session_def set_activated_def)
  then show "same_session n s s'" "r = RT_EOK \<Longrightarrow> dv_flag (devices s' n) AND RT_DEVICE_FLAG_ACTIVATED \<noteq> 0"
    using assms init_keeps[of n _ n s]
    by (fastforce simp: activate_def set_activated_def split: if_splits option.splits prod.splits)+
qed

lemma open_session:
  assumes "session_ok n s c" "c < 255" "rt_device_open drv n oflag s = (r, s')"
  shows "session_ok n s' (if r = RT_EOK then c + 1 else c)"
proof -
  obtain r1 s1 where a: "activate drv n s = (r1, s1)" by (rule prod.exhaust)
  note as = activate_session[OF a]
  have ok: "session_ok n s1 c" using session_ok_same[OF assms(1) as(1)] .
  let ?s2 = "upd_device n (\<lambda>d. d\<lparr>dv_ref_count := dv_ref_count d + 1\<rparr>) s1"
  define o3 where "o3 = (case drv_open (drv n) of None \<Rightarrow> (RT_EOK, ?s2) | Some f \<Rightarrow> f n oflag ?s2)"
  have o: "fst o3 = RT_EOK" "same_session n ?s2 (snd o3)"
    using open_keeps[of n _ oflag ?s2 n] by (auto simp: o3_def split: option.split)
  let ?busy = "dv_flag (devices s1 n) AND RT_DEVICE_FLAG_STANDALONE \<noteq> 0 \<and> dv_open_flag (devices s1 n) AND RT_DEVICE_OFLAG_OPEN \<noteq> 0"
  have "(r, s') = (if r1 \<noteq> RT_EOK then (r1, s1) else if ?busy then (- RT_EBUSY, s1)
    else (RT_EOK, upd_device n (\<lambda>d. d\<lparr>dv_open_flag := oflag OR RT_DEVICE_OFLAG_OPEN\<rparr>) (snd o3)))"
    using assms(3) o(1) by (cases "drv_open (drv n)") (auto simp: rt_device_open_def a o3_def case_prod_beta Let_def split: if_splits)
  moreover have "unat (dv_ref_count (devices s1 n) + 1) = Suc c" using ok assms(2)
    by (simp add: session_ok_def unat_word_ariths)
  ultimately show ?thesis using ok as(2) o(2) assms(2) by (auto simp: session_ok_def same_session_def split: if_splits)
qed

lemma close_session:
  assumes "session_ok n s c" "rt_device_close drv n s = (r, s')"
  shows "session_ok n s' (c - 1)" "r = (if c = 0 then - RT_ERROR else RT_EOK)"
proof -
  let ?s1 = "upd_device n (\<lambda>d. d\<lparr>dv_ref_count := dv_ref_count d - 1\<rparr>) s"
  have z: "dv_ref_count (devices s n) = 0 \<longleftrightarrow> c = 0" using assms(1) by (auto simp: session_ok_def unat_eq_zero)
  define o2 where "o2 = (case drv_close (drv n) of None \<Rightarrow> (RT_EOK, ?s1) | Some f \<Rightarrow> f n ?s1)"
  have o: "fst o2 = RT_EOK" "same_session n ?s1 (snd o2)"
    using close_keeps[of n _ ?s1 n] by (auto simp: o2_def split: option.split)
  have eq: "(r, s') = (if c = 0 then (- RT_ERROR, s) else if dv_ref_count (devices s n) - 1 \<noteq> 0 then (RT_EOK, ?s1)
    else (RT_EOK, upd_device n (\<lambda>d. d\<lparr>dv_open_flag := RT_DEVICE_OFLAG_CLOSE\<rparr>) (snd o2)))"
    using assms(2) o(1) z by (cases "drv_close (drv n)") (auto simp: rt_device_close_def o2_def case_prod_beta Let_def split: if_splits)
  then show "r = (if c = 0 then - RT_ERROR else RT_EOK)" by (auto split: if_splits)
  have u: "unat (dv_ref_count (devices s n) - 1) = c - 1" if "c \<noteq> 0"
    using that z assms(1) by (subst unat_minus_one) (auto simp: session_ok_def)
  then have "dv_ref_count (devices s n) - 1 \<noteq> 0 \<longleftrightarrow> c \<noteq> 1" if "c \<noteq> 0" using that by (metis One_nat_def diff_is_0_eq le_neq_implies_less less_one nat_le_linear unat_0 unat_eq_zero)
  then show "session_ok n s' (c - 1)"
    using eq assms(1) u o(2) by (auto simp: session_ok_def same_session_def split: if_splits)
qed

lemma init_session:
  assumes "session_ok n s c" "rt_device_init drv n s = (r, s')"
  shows "session_ok n s' c"
proof -
  have "same_session n s s'" using assms(2) init_keeps[of n _ n s]
    by (fastforce simp: rt_device_init_def set_activated_def same_session_def split: if_splits option.splits prod.splits)
  then show ?thesis using session_ok_same[OF assms(1)] by blast
qed

lemma sessions_ok: "sessions drv n s c \<Longrightarrow> session_ok n s c"
proof (induction rule: sessions.induct)
  case (ses_register name flags s s')
  have "devices (snd (rt_device_find name s)) = devices s"
    by (simp add: rt_device_find_def Let_def)
  then show ?case using ses_register
    by (auto simp: rt_device_register_def rt_object_init_def session_ok_def split: prod.splits if_splits)
qed (blast intro: open_session close_session(1) init_session session_ok_same)+

text \<open>Without a session the device is not used: nothing reaches the driver.\<close>

lemma closed_refuses:
  assumes "sessions drv n s 0"
  shows "rt_device_read drv n pos sz s = (Io_Done 0, [], rt_set_errno (- RT_ERROR) s)"
    "rt_device_write drv n pos buf sz s = (Io_Done 0, rt_set_errno (- RT_ERROR) s)"
    "rt_device_close drv n s = (- RT_ERROR, s)"
  using sessions_ok[OF assms]
  by (simp_all add: session_ok_def rt_device_read_def rt_device_write_def rt_device_close_def unat_eq_zero)

text \<open>Transfers and commands, of this or another device, keep the session.\<close>

lemma io_session:
  assumes "sessions drv n s c"
  shows "sessions drv n (snd (snd (rt_device_read drv m pos sz s))) c"
    "sessions drv n (snd (rt_device_write drv m pos buf sz s)) c"
    "sessions drv n (snd (rt_device_control drv m cmd s)) c"
proof -
  have e: "same_session n s (rt_set_errno e s)" for e
    by (simp add: same_session_def rt_set_errno_def upd_thread_def split: option.split)
  have "same_session n s (snd (snd (rt_device_read drv m pos sz s)))"
    "same_session n s (snd (rt_device_write drv m pos buf sz s))" "same_session n s (snd (rt_device_control drv m cmd s))"
    using e read_keeps[of m _ n s pos sz] write_keeps[of m _ n s pos buf sz] control_keeps[of m _ n s cmd]
    by (auto simp: rt_device_read_def rt_device_write_def rt_device_control_def split: option.split)
  then show "sessions drv n (snd (snd (rt_device_read drv m pos sz s))) c"
    "sessions drv n (snd (rt_device_write drv m pos buf sz s)) c"
    "sessions drv n (snd (rt_device_control drv m cmd s)) c"
    using ses_other[OF assms] by blast+
qed

end

end
