(* ===== verification/Serial.thy ===== *)
theory Serial
  imports Device Mempool
begin

text \<open>
  The serial port driver \<^verbatim>\<open>drivers/serial.c\<close>: reception by interrupt into a ring of 64 bytes, polled
  reading and writing, and transmission by DMA from a linked list of data nodes that are blocks of a
  memory pool.  It is a driver of the device layer.

  The hardware is a parameter: the values an interrupt or a polling loop finds in the data register are an
  argument of the handler or part of the state (\<open>uart_polls\<close>), the values written to the data register and the
  transfers programmed into the DMA stream are logged (\<open>uart_sent\<close>, \<open>dma_started\<close>), and the waits
  for an empty transmit register end.
\<close>

abbreviation (input) UART_RX_BUFFER_SIZE :: nat where "UART_RX_BUFFER_SIZE \<equiv> 64"
abbreviation (input) RT_DEVICE_FLAG_SUSPENDED :: u16 where "RT_DEVICE_FLAG_SUSPENDED \<equiv> 0x020"
abbreviation (input) RT_DEVICE_FLAG_STREAM :: u16 where "RT_DEVICE_FLAG_STREAM \<equiv> 0x040"
abbreviation (input) RT_DEVICE_FLAG_INT_RX :: u16 where "RT_DEVICE_FLAG_INT_RX \<equiv> 0x100"
abbreviation (input) RT_DEVICE_FLAG_INT_TX :: u16 where "RT_DEVICE_FLAG_INT_TX \<equiv> 0x400"
abbreviation (input) RT_DEVICE_FLAG_DMA_TX :: u16 where "RT_DEVICE_FLAG_DMA_TX \<equiv> 0x800"
abbreviation (input) RT_DEVICE_CTRL_RESUME :: u8 where "RT_DEVICE_CTRL_RESUME \<equiv> 0x01"
abbreviation (input) RT_DEVICE_CTRL_SUSPEND :: u8 where "RT_DEVICE_CTRL_SUSPEND \<equiv> 0x02"


section \<open>State\<close>

record stm32_serial_int_rx =
  rx_buffer :: "u8 list"
  read_index :: u32
  save_index :: u32

record stm32_serial_data_node =
  data_ptr :: nat
  data_size :: u32
  node_next :: "nat option"
  node_prev :: "nat option"

record stm32_serial_dma_tx =
  list_head :: "nat option"
  list_tail :: "nat option"
  data_nodes :: "nat \<Rightarrow> stm32_serial_data_node"
  data_node_mp :: rt_mempool
  data_node_mp_obj :: nat
  data_node_mem_pool :: nat
  dma_enabled :: bool
  dma_started :: "(nat \<times> u32) list"

record stm32_serial_device =
  int_rx :: stm32_serial_int_rx
  dma_tx :: "stm32_serial_dma_tx option"
  uart_enabled :: bool
  uart_sent :: "u16 list"
  uart_polls :: "u16 option list"

type_synonym serial_kernel = "stm32_serial_device device_kernel"

definition serial_of :: "nat \<Rightarrow> serial_kernel \<Rightarrow> stm32_serial_device" where
  "serial_of n s = dv_user_data (devices s n)"

definition upd_serial ::
  "nat \<Rightarrow> (stm32_serial_device \<Rightarrow> stm32_serial_device) \<Rightarrow> serial_kernel \<Rightarrow> serial_kernel" where
  "upd_serial n f = upd_device n (\<lambda>d. d\<lparr>dv_user_data := f (dv_user_data d)\<rparr>)"


section \<open>Reception\<close>

definition rx_wrap :: "u32 \<Rightarrow> u32" where
  "rx_wrap i = (if i \<ge> of_nat UART_RX_BUFFER_SIZE then 0 else i)"

text \<open>One round of the reading loop, which runs with interrupts disabled, and the loop.\<close>

definition rx_get :: "stm32_serial_int_rx \<Rightarrow> (u8 \<times> stm32_serial_int_rx) option" where
  "rx_get rx =
    (if read_index rx \<noteq> save_index rx
     then Some (rx_buffer rx ! unat (read_index rx), rx\<lparr>read_index := rx_wrap (read_index rx + 1)\<rparr>)
     else None)"

fun rx_read :: "nat \<Rightarrow> stm32_serial_int_rx \<Rightarrow> u8 list \<times> int \<times> stm32_serial_int_rx" where
  "rx_read 0 rx = ([], RT_EOK, rx)"
| "rx_read (Suc m) rx =
    (case rx_get rx of
       None \<Rightarrow> ([], - RT_EEMPTY, rx)
     | Some (b, rx) \<Rightarrow> let (bs, err_code, rx) = rx_read m rx in (b # bs, err_code, rx))"

text \<open>One round of the loop of the interrupt handler: the character is stored, and the oldest one is discarded
  when the ring is full.\<close>

definition rx_put :: "u16 \<Rightarrow> stm32_serial_int_rx \<Rightarrow> stm32_serial_int_rx" where
  "rx_put dr rx =
    (let rx = rx\<lparr>rx_buffer := (rx_buffer rx)[unat (save_index rx) := ucast (dr AND 0xff)]\<rparr>;
         rx = rx\<lparr>save_index := rx_wrap (save_index rx + 1)\<rparr>
     in if save_index rx = read_index rx then rx\<lparr>read_index := rx_wrap (read_index rx + 1)\<rparr> else rx)"

text \<open>Polling: the inner loop reads as long as the register is full, whatever the size of the buffer, and the
  outer one polls again while characters are missing.\<close>

fun poll_read :: "nat \<Rightarrow> u16 option list \<Rightarrow> u8 list \<Rightarrow> (u8 list \<times> u16 option list) option" where
  "poll_read m [] bs = None"
| "poll_read m (Some dr # hw) bs = poll_read m hw (bs @ [ucast (dr AND 0xff)])"
| "poll_read m (None # hw) bs = (if length bs < m then poll_read m hw bs else Some (bs, hw))"

definition rt_serial_read ::
  "nat \<Rightarrow> u32 \<Rightarrow> u32 \<Rightarrow> serial_kernel \<Rightarrow> io_outcome \<times> u8 list \<times> serial_kernel" where
  "rt_serial_read n pos sz s =
    (let uart = serial_of n s
     in if dv_flag (devices s n) AND RT_DEVICE_FLAG_INT_RX \<noteq> 0
        then
          if sz \<noteq> 0 \<and> read_index (int_rx uart) \<noteq> save_index (int_rx uart) \<and>
             UART_RX_BUFFER_SIZE \<le> unat (read_index (int_rx uart))
          then (Io_Done 0, [], s\<lparr>k_status := Bad_Access\<rparr>)
          else let (bs, err_code, rx) = rx_read (unat sz) (int_rx uart);
                   s = upd_serial n (\<lambda>u. u\<lparr>int_rx := rx\<rparr>) s
               in (Io_Done (of_nat (length bs)), bs, rt_set_errno err_code s)
        else
          case (if sz = 0 then Some ([], uart_polls uart) else poll_read (unat sz) (uart_polls uart) []) of
            None \<Rightarrow> (Io_Never, [], s)
          | Some (bs, polls) \<Rightarrow>
              let s = upd_serial n (\<lambda>u. u\<lparr>uart_polls := polls\<rparr>) s;
                  s = (if unat sz < length bs then s\<lparr>k_status := Bad_Access\<rparr> else s)
              in (Io_Done (of_nat (length bs)), bs, rt_set_errno RT_EOK s))"

text \<open>The interrupt handler; \<open>it_rxne\<close> is the interrupt status and \<open>arrived\<close> the values of the data register found
  by the loop.  It returns the call of the receive callback, if there is one.\<close>

definition rt_hw_serial_isr ::
  "nat \<Rightarrow> bool \<Rightarrow> u16 list \<Rightarrow> serial_kernel \<Rightarrow> (nat \<times> u32) option \<times> serial_kernel" where
  "rt_hw_serial_isr n it_rxne arrived s =
    (if \<not> it_rxne then (None, s)
     else if arrived \<noteq> [] \<and> UART_RX_BUFFER_SIZE \<le> unat (save_index (int_rx (serial_of n s)))
     then (None, s\<lparr>k_status := Bad_Access\<rparr>)
     else
       let s = upd_serial n (\<lambda>u. u\<lparr>int_rx := fold rx_put arrived (int_rx u)\<rparr>) s;
           rx = int_rx (serial_of n s);
           rx_length = (if read_index rx > save_index rx
                        then of_nat UART_RX_BUFFER_SIZE - read_index rx + save_index rx
                        else save_index rx - read_index rx)
       in (map_option (\<lambda>f. (f, rx_length)) (dv_rx_indicate (devices s n)), s))"


section \<open>Transmission\<close>

definition rt_serial_enable_dma :: "nat \<Rightarrow> u32 \<Rightarrow> stm32_serial_dma_tx \<Rightarrow> stm32_serial_dma_tx" where
  "rt_serial_enable_dma address sz t = t\<lparr>dma_enabled := True, dma_started := dma_started t @ [(address, sz)]\<rparr>"

text \<open>A filled node goes to the end of the list; the first one is started at once.\<close>

definition link_node :: "nat \<Rightarrow> nat \<Rightarrow> u32 \<Rightarrow> stm32_serial_dma_tx \<Rightarrow> stm32_serial_dma_tx" where
  "link_node p address sz t =
    (let nodes = (data_nodes t)(p := \<lparr>data_ptr = address, data_size = sz, node_next = None, node_prev = list_tail t\<rparr>);
         nodes = (case list_tail t of None \<Rightarrow> nodes | Some q \<Rightarrow> nodes(q := (nodes q)\<lparr>node_next := Some p\<rparr>));
         t = t\<lparr>data_nodes := nodes, list_tail := Some p\<rparr>
     in case list_head t of
          None \<Rightarrow> let t = t\<lparr>list_head := Some p\<rparr>
                  in rt_serial_enable_dma (data_ptr (data_nodes t p)) (data_size (data_nodes t p)) t
        | Some _ \<Rightarrow> t)"

definition upd_dma :: "nat \<Rightarrow> stm32_serial_dma_tx \<Rightarrow> serial_kernel \<Rightarrow> serial_kernel" where
  "upd_dma n t = upd_serial n (\<lambda>u. u\<lparr>dma_tx := Some t\<rparr>)"

text \<open>The rest of a write in DMA mode, once the pool has answered.  The pointer into the buffer is not moved, so the
  size returned is 0.\<close>

definition queue_data ::
  "nat \<Rightarrow> nat \<Rightarrow> u32 \<Rightarrow> stm32_serial_dma_tx \<Rightarrow> mp_outcome \<times> rt_mempool \<times> serial_kernel \<Rightarrow> io_outcome \<times> serial_kernel" where
  "queue_data n address sz t answer =
    (case answer of (out, mp, s) \<Rightarrow>
       let t = t\<lparr>data_node_mp := mp\<rparr>
       in case out of
            Mp_Blocked \<Rightarrow> (Io_Blocked, upd_dma n t s)
          | Mp_Returned None \<Rightarrow> (Io_Done 0, rt_set_errno (- RT_ENOMEM) (upd_dma n t s))
          | Mp_Returned (Some p) \<Rightarrow> (Io_Done 0, rt_set_errno RT_EOK (upd_dma n (link_node p address sz t) s)))"

definition stream_data :: "u8 list \<Rightarrow> u16 list" where
  "stream_data bs = concat (map (\<lambda>b. if b = 10 then [13, ucast b AND 0x1FF] else [ucast b AND 0x1FF]) bs)"

definition rt_serial_write ::
  "nat \<Rightarrow> u32 \<Rightarrow> nat \<times> u8 list \<Rightarrow> u32 \<Rightarrow> serial_kernel \<Rightarrow> io_outcome \<times> serial_kernel" where
  "rt_serial_write n pos buffer sz s =
    (let flag = dv_flag (devices s n)
     in if flag AND RT_DEVICE_FLAG_INT_TX \<noteq> 0 then (Io_Done 0, rt_set_errno RT_EOK s)
        else if flag AND RT_DEVICE_FLAG_DMA_TX \<noteq> 0
        then case dma_tx (serial_of n s) of
               None \<Rightarrow> (Io_Done 0, s\<lparr>k_status := Bad_Access\<rparr>)
             | Some t \<Rightarrow>
                 queue_data n (fst buffer) sz t
                   (rt_mp_alloc (data_node_mp_obj t) RT_WAITING_FOREVER (data_node_mp t) s)
        else
          let bs = take (unat sz) (snd buffer);
              sent = (if flag AND RT_DEVICE_FLAG_STREAM \<noteq> 0 then stream_data bs
                      else map (\<lambda>b. ucast b AND 0x1FF) bs)
          in (Io_Done sz, rt_set_errno RT_EOK (upd_serial n (\<lambda>u. u\<lparr>uart_sent := uart_sent u @ sent\<rparr>) s)))"

text \<open>Thread \<open>t\<close> continues after waiting for a node.\<close>

definition rt_serial_write_resumed ::
  "nat \<Rightarrow> nat \<Rightarrow> nat \<Rightarrow> u32 \<Rightarrow> serial_kernel \<Rightarrow> io_outcome \<times> serial_kernel" where
  "rt_serial_write_resumed n thread address sz s =
    (case dma_tx (serial_of n s) of
       None \<Rightarrow> (Io_Done 0, s\<lparr>k_status := Bad_Access\<rparr>)
     | Some t \<Rightarrow> queue_data n address sz t (rt_mp_alloc_resumed (data_node_mp_obj t) thread (data_node_mp t) s))"

text \<open>The interrupt at the end of a transfer; it returns the call of the transmit callback.\<close>

definition rt_hw_serial_dma_tx_isr :: "nat \<Rightarrow> serial_kernel \<Rightarrow> (nat \<times> nat) option \<times> serial_kernel" where
  "rt_hw_serial_dma_tx_isr n s =
    (case dma_tx (serial_of n s) of
       None \<Rightarrow> (None, s\<lparr>k_status := Bad_Access\<rparr>)
     | Some t \<Rightarrow>
         (case list_head t of
            None \<Rightarrow> (None, s\<lparr>k_status := Bad_Access\<rparr>)
          | Some p \<Rightarrow>
              let call = map_option (\<lambda>f. (f, data_ptr (data_nodes t p))) (dv_tx_complete (devices s n));
                  t = t\<lparr>list_head := node_next (data_nodes t p)\<rparr>;
                  t = (if list_head t = None then t\<lparr>list_tail := None\<rparr> else t);
                  (mp, s) = rt_mp_free (data_node_mp_obj t) p (data_node_mp t) s;
                  t = t\<lparr>data_node_mp := mp\<rparr>;
                  t = (case list_head t of
                         Some q \<Rightarrow> rt_serial_enable_dma (data_ptr (data_nodes t q)) (data_size (data_nodes t q)) t
                       | None \<Rightarrow> t\<lparr>dma_enabled := False\<rparr>)
              in (call, upd_dma n t s)))"


section \<open>The driver\<close>

text \<open>The pool of data nodes has 4 nodes of 16 bytes, each with its pointer.\<close>

definition init_dma :: "nat \<Rightarrow> serial_kernel \<Rightarrow> serial_kernel" where
  "init_dma n s =
    (case dma_tx (serial_of n s) of
       None \<Rightarrow> s\<lparr>k_status := Bad_Access\<rparr>
     | Some t \<Rightarrow>
         let (mp, s) = rt_mp_init (data_node_mp_obj t) ''dn'' (data_node_mem_pool t) 80 16 (block_ptr (data_node_mp t)) s
         in upd_dma n (t\<lparr>list_head := None, list_tail := None, data_node_mp := mp\<rparr>) s)"

definition rt_serial_init :: "nat \<Rightarrow> serial_kernel \<Rightarrow> int \<times> serial_kernel" where
  "rt_serial_init n s =
    (let flag = dv_flag (devices s n)
     in if flag AND RT_DEVICE_FLAG_ACTIVATED = 0
        then
          let s = (if flag AND RT_DEVICE_FLAG_INT_RX \<noteq> 0
                   then upd_serial n (\<lambda>u. u\<lparr>int_rx :=
                     \<lparr>rx_buffer = replicate UART_RX_BUFFER_SIZE 0, read_index = 0, save_index = 0\<rparr>\<rparr>) s
                   else s);
              s = (if flag AND RT_DEVICE_FLAG_DMA_TX \<noteq> 0 then init_dma n s else s);
              s = upd_serial n (\<lambda>u. u\<lparr>uart_enabled := True\<rparr>) s
          in (RT_EOK, set_activated n s)
        else (RT_EOK, s))"

definition rt_serial_open :: "nat \<Rightarrow> u16 \<Rightarrow> serial_kernel \<Rightarrow> int \<times> serial_kernel" where
  "rt_serial_open n oflag s = (RT_EOK, s)"

definition rt_serial_close :: "nat \<Rightarrow> serial_kernel \<Rightarrow> int \<times> serial_kernel" where
  "rt_serial_close n s = (RT_EOK, s)"

definition rt_serial_control :: "nat \<Rightarrow> u8 \<Rightarrow> serial_kernel \<Rightarrow> int \<times> serial_kernel" where
  "rt_serial_control n cmd s =
    (RT_EOK,
     if cmd = RT_DEVICE_CTRL_SUSPEND
     then upd_serial n (\<lambda>u. u\<lparr>uart_enabled := False\<rparr>)
            (upd_device n (\<lambda>d. d\<lparr>dv_flag := dv_flag d OR RT_DEVICE_FLAG_SUSPENDED\<rparr>) s)
     else if cmd = RT_DEVICE_CTRL_RESUME
     then upd_serial n (\<lambda>u. u\<lparr>uart_enabled := True\<rparr>)
            (upd_device n (\<lambda>d. d\<lparr>dv_flag := dv_flag d AND NOT RT_DEVICE_FLAG_SUSPENDED\<rparr>) s)
     else s)"

definition serial_driver :: "nat \<Rightarrow> stm32_serial_device driver" where
  "serial_driver n =
    \<lparr>drv_init = Some rt_serial_init, drv_open = Some rt_serial_open, drv_close = Some rt_serial_close,
     drv_read = Some rt_serial_read, drv_write = Some rt_serial_write, drv_control = Some rt_serial_control\<rparr>"

definition rt_hw_serial_register ::
  "nat \<Rightarrow> string \<Rightarrow> u32 \<Rightarrow> stm32_serial_device \<Rightarrow> serial_kernel \<Rightarrow> int \<times> serial_kernel" where
  "rt_hw_serial_register n name flag serial s =
    (let s = upd_device n (\<lambda>d. d\<lparr>dv_rx_indicate := None, dv_tx_complete := None, dv_user_data := serial\<rparr>) s
     in rt_device_register (Some n) name (ucast (0x003 OR flag)) s)"


section \<open>The contract of a driver\<close>

lemma devices_pool [simp]:
  fixes s :: "'d device_kernel"
  shows "devices (snd (rt_mp_init m name start sz b w s)) = devices s"
    "devices (snd (snd (mp_take m mp s))) = devices s"
    "devices (snd (snd (rt_mp_alloc m time mp s))) = devices s"
    "devices (snd (snd (rt_mp_alloc_resumed m t mp s))) = devices s"
    "devices (snd (rt_mp_free m block mp s)) = devices s"
proof -
  show "devices (snd (rt_mp_init m name start sz b w s)) = devices s"
    by (simp add: rt_mp_init_def init_waiters_def Let_def)
  have w: "devices (mp_wait m t time s) = devices s" for t by (simp add: mp_wait_def Let_def)
  show tk: "devices (snd (snd (mp_take m mp s))) = devices s" by (simp add: mp_take_def Let_def split: mp_ptr.split)
  show "devices (snd (snd (rt_mp_alloc m time mp s))) = devices s"
    by (simp add: rt_mp_alloc_def tk w split: option.split)
  show "devices (snd (snd (rt_mp_alloc_resumed m t mp s))) = devices s" by (simp add: rt_mp_alloc_resumed_def tk)
  show "devices (snd (rt_mp_free m block mp s)) = devices s"
    by (simp add: rt_mp_free_def Let_def split: list.split)
qed

lemma same_session_serial [simp]:
  "same_session m s (upd_serial n f s') = same_session m s s'" "same_session m s (upd_dma n t s') = same_session m s s'"
  "same_session m s (rt_set_errno e s') = same_session m s s'" "same_session m s (s'\<lparr>k_status := x\<rparr>) = same_session m s s'"
  by (simp_all add: same_session_def upd_serial_def upd_dma_def)

lemma devices_session: "devices s' = devices s \<Longrightarrow> same_session m s s'"
  by (simp add: same_session_def)

lemma queue_data_session:
  "devices (snd (snd answer)) = devices s \<Longrightarrow> same_session m s (snd (queue_data n address sz t answer))"
  by (cases answer) (simp add: queue_data_def Let_def devices_session split: mp_outcome.split option.split)

lemma serial_init_session: "same_session m s (snd (rt_serial_init n s))"
proof -
  have d: "same_session m s (init_dma n s')" if "same_session m s s'" for s'
  proof -
    have "same_session m s (snd (rt_mp_init ob name st sz b w s'))" for ob name st sz b w
      using that by (simp add: same_session_def)
    then show ?thesis using that by (simp add: init_dma_def case_prod_beta split: option.split)
  qed
  have a: "same_session m s (set_activated n s')" if "same_session m s s'" for s'
    using that by (auto simp: same_session_def set_activated_def)
  show ?thesis by (simp add: rt_serial_init_def Let_def d a)
qed

lemma serial_read_session: "same_session m s (snd (snd (rt_serial_read n pos sz s)))"
  by (simp add: rt_serial_read_def Let_def case_prod_beta split: option.split)

lemma serial_write_session: "same_session m s (snd (rt_serial_write n pos buf sz s))"
  by (simp add: rt_serial_write_def Let_def queue_data_session split: option.split)

lemma serial_control_session: "same_session m s (snd (rt_serial_control n cmd s))"
proof -
  have "(f OR 0x20) AND 8 = f AND (8 :: u16)" "(f OR 0x20) AND 0x10 = f AND (0x10 :: u16)" for f
    by (simp_all add: bit.conj_disj_distrib2)
  moreover have "(f AND NOT 0x20) AND 8 = f AND (8 :: u16)" "(f AND NOT 0x20) AND 0x10 = f AND (0x10 :: u16)" for f
    by (simp_all add: and.assoc)
  ultimately show ?thesis by (simp add: rt_serial_control_def) (simp add: same_session_def)
qed

interpretation serial: device_driver serial_driver
  by unfold_locales
    (auto simp: serial_driver_def rt_serial_open_def rt_serial_close_def serial_init_session serial_read_session serial_write_session serial_control_session)


section \<open>The receive ring\<close>

definition rx_inv :: "stm32_serial_int_rx \<Rightarrow> bool" where
  "rx_inv rx \<longleftrightarrow> length (rx_buffer rx) = 64 \<and> unat (read_index rx) < 64 \<and> unat (save_index rx) < 64"

definition rx_fill :: "stm32_serial_int_rx \<Rightarrow> nat" where
  "rx_fill rx = (unat (save_index rx) + 64 - unat (read_index rx)) mod 64"

definition rx_contents :: "stm32_serial_int_rx \<Rightarrow> u8 list" where
  "rx_contents rx = map (\<lambda>i. rx_buffer rx ! ((unat (read_index rx) + i) mod 64)) [0..<rx_fill rx]"

lemma unat_rx_wrap:
  assumes "unat i < 64"
  shows "unat (rx_wrap (i + 1)) = (unat i + 1) mod 64"
proof -
  have "unat (i + 1) = unat i + 1" using assms by (simp add: unat_word_ariths)
  then show ?thesis using assms by (cases "unat i = 63") (simp_all add: rx_wrap_def word_le_nat_alt)
qed

lemma ring_arith:
  "r < 64 \<Longrightarrow> s < 64 \<Longrightarrow> (s + 64 - r) mod 64 = (if r \<le> s then s - r else s + 64 - r)"
  "r < 64 \<Longrightarrow> f < 64 \<Longrightarrow> (r + f) mod 64 = (if r + f < 64 then r + f else r + f - 64)"
  "r < (64 :: nat) \<Longrightarrow> (r + 1) mod 64 = (if r = 63 then 0 else r + 1)"
proof -
  show "r < 64 \<Longrightarrow> s < 64 \<Longrightarrow> (s + 64 - r) mod 64 = (if r \<le> s then s - r else s + 64 - r)"
  proof (cases "r \<le> s")
    case True
    then have "s + 64 - r = (s - r) + 64" by simp
    moreover assume "s < 64"
    ultimately show ?thesis using True by (simp only: mod_add_self2) simp
  qed simp
  show "r < 64 \<Longrightarrow> f < 64 \<Longrightarrow> (r + f) mod 64 = (if r + f < 64 then r + f else r + f - 64)"
    by (simp add: le_mod_geq)
  show "r < (64 :: nat) \<Longrightarrow> (r + 1) mod 64 = (if r = 63 then 0 else r + 1)" by auto
qed

lemma rx_fill_less: "rx_fill rx < 64" by (simp add: rx_fill_def)

lemma length_rx_contents [simp]: "length (rx_contents rx) = rx_fill rx" by (simp add: rx_contents_def)

lemma rx_fill_0: "rx_inv rx \<Longrightarrow> rx_fill rx = 0 \<longleftrightarrow> read_index rx = save_index rx"
  unfolding rx_inv_def rx_fill_def word_unat_eq_iff by (auto simp: ring_arith(1))

lemma rx_get_empty: "rx_inv rx \<Longrightarrow> rx_contents rx = [] \<Longrightarrow> rx_get rx = None"
  using rx_fill_0[of rx] by (simp add: rx_contents_def rx_get_def)

lemma rx_get_first:
  assumes "rx_inv rx" "rx_contents rx = b # bs"
  shows "\<exists>rx'. rx_get rx = Some (b, rx') \<and> rx_inv rx' \<and> rx_contents rx' = bs"
proof -
  let ?rx' = "rx\<lparr>read_index := rx_wrap (read_index rx + 1)\<rparr>"
  have ne: "read_index rx \<noteq> save_index rx" using assms rx_fill_0[OF assms(1)] by (auto simp: rx_contents_def)
  have r: "unat (read_index ?rx') = (unat (read_index rx) + 1) mod 64"
    using assms(1) by (simp add: unat_rx_wrap rx_inv_def)
  have f: "rx_fill rx = Suc (rx_fill ?rx')"
    using assms(1) ne unfolding rx_inv_def rx_fill_def r word_unat_eq_iff
    by (auto simp: ring_arith(1,3) simp del: One_nat_def)
  have "[0..<rx_fill rx] = 0 # map Suc [0..<rx_fill ?rx']" unfolding f by (simp add: upt_conv_Cons map_Suc_upt)
  then have "rx_contents rx = rx_buffer rx ! (unat (read_index rx) mod 64) # rx_contents ?rx'"
    by (simp add: rx_contents_def r[simplified] mod_simps)
  then show ?thesis using assms ne r[simplified] by (simp add: rx_get_def rx_inv_def)
qed

lemma rx_read_contents:
  assumes "rx_inv rx"
  shows "\<exists>rx'. rx_read m rx = (take m (rx_contents rx), if length (rx_contents rx) < m then - RT_EEMPTY else RT_EOK, rx') \<and>
    rx_inv rx' \<and> rx_contents rx' = drop m (rx_contents rx)"
  using assms
proof (induction m arbitrary: rx)
  case (Suc m)
  show ?case
  proof (cases "rx_contents rx")
    case Nil
    then have "rx_fill rx = 0" by (metis length_rx_contents list.size(3))
    then show ?thesis using Nil Suc.prems rx_get_empty[OF Suc.prems Nil] by simp
  next
    case (Cons b bs)
    obtain rx' where g: "rx_get rx = Some (b, rx')" "rx_inv rx'" "rx_contents rx' = bs"
      using rx_get_first[OF Suc.prems Cons] by blast
    obtain rx'' where h: "rx_read m rx' = (take m bs, if length bs < m then - RT_EEMPTY else RT_EOK, rx'')"
      "rx_inv rx''" "rx_contents rx'' = drop m bs" using Suc.IH[OF g(2)] g(3) by auto
    have "rx_read (Suc m) rx = (b # take m bs, if length bs < m then - RT_EEMPTY else RT_EOK, rx'')"
      by (simp add: g(1) h(1))
    then show ?thesis using h(2,3) unfolding Cons by auto
  qed
qed simp

text \<open>A full ring has 63 characters.\<close>

lemma rx_put_contents:
  assumes "rx_inv rx"
  shows "rx_inv (rx_put dr rx)"
    "rx_contents (rx_put dr rx) = (if rx_fill rx = 63 then tl (rx_contents rx) else rx_contents rx) @ [ucast (dr AND 0xff)]"
proof -
  define r f where "r = unat (read_index rx)" and "f = rx_fill rx"
  let ?b = "ucast (dr AND 0xff) :: u8"
  let ?s1 = "rx_wrap (save_index rx + 1)"
  have i: "length (rx_buffer rx) = 64" "r < 64" "unat (save_index rx) < 64" "f < 64"
    using assms by (simp_all add: rx_inv_def r_def f_def rx_fill_less)
  have sv: "unat (save_index rx) = (r + f) mod 64"
    using i unfolding f_def rx_fill_def r_def[symmetric] by (auto simp: ring_arith)
  have s1: "unat ?s1 = (r + f + 1) mod 64" using unat_rx_wrap[OF i(3)] sv by (simp add: mod_simps)
  then have s2: "unat ?s1 = (if r + f = 127 then 0 else if r + f + 1 < 64 then r + f + 1 else r + f + 1 - 64)"
    using i ring_arith(2)[of r "f + 1"] by (cases "f = 63") auto
  have full: "?s1 = read_index rx \<longleftrightarrow> f = 63"
    using s2 i unfolding word_unat_eq_iff r_def[symmetric] by (auto split: if_splits)
  have r1: "unat (rx_wrap (read_index rx + 1)) = (r + 1) mod 64" using unat_rx_wrap i(2) by (simp add: r_def)
  have idx: "(r + j) mod 64 \<noteq> (r + f) mod 64" if "j < 64" "j \<noteq> f" for j using that i(2,4) by (auto simp: ring_arith(2))
  have put: "rx_put dr rx = (if f = 63
      then rx\<lparr>rx_buffer := (rx_buffer rx)[(r + f) mod 64 := ?b], save_index := ?s1, read_index := rx_wrap (read_index rx + 1)\<rparr>
      else rx\<lparr>rx_buffer := (rx_buffer rx)[(r + f) mod 64 := ?b], save_index := ?s1\<rparr>)"
    using full by (simp add: rx_put_def Let_def sv)
  show "rx_inv (rx_put dr rx)" using i s1 r1 by (simp add: put rx_inv_def r_def[symmetric])
  have fill: "rx_fill (rx_put dr rx) = (if f = 63 then 63 else f + 1)"
  proof -
    let ?r' = "if f = 63 then unat (rx_wrap (read_index rx + 1)) else r"
    have "rx_fill (rx_put dr rx) = (unat ?s1 + 64 - ?r') mod 64" by (simp add: put rx_fill_def r_def)
    also have "\<dots> = (if ?r' \<le> unat ?s1 then unat ?s1 - ?r' else unat ?s1 + 64 - ?r')"
      by (rule ring_arith(1)) (use i s1 r1 in auto)
    also have "\<dots> = (if f = 63 then 63 else f + 1)" unfolding s2 r1 ring_arith(3)[OF i(2)] using i by auto
    finally show ?thesis .
  qed
  show "rx_contents (rx_put dr rx) = (if rx_fill rx = 63 then tl (rx_contents rx) else rx_contents rx) @ [?b]"
  proof (rule nth_equalityI)
    fix j
    assume j: "j < length (rx_contents (rx_put dr rx))"
    show "rx_contents (rx_put dr rx) ! j = ((if rx_fill rx = 63 then tl (rx_contents rx) else rx_contents rx) @ [?b]) ! j"
    proof (cases "f = 63")
      case True
      have "((r + 1) mod 64 + j) mod 64 = (r + (j + 1)) mod 64" by (simp add: mod_simps add.commute add.left_commute)
      then show ?thesis using True j fill i idx[of "j + 1"] r1
        by (cases "j = 62")
          (auto simp: put rx_contents_def f_def[symmetric] r_def[symmetric] nth_append nth_tl nth_list_update)
    next
      case False
      then show ?thesis using j fill i idx[of j]
        by (cases "j = f") (auto simp: put rx_contents_def f_def[symmetric] r_def[symmetric] nth_append nth_list_update)
    qed
  qed (use fill in \<open>simp add: f_def\<close>)
qed

lemma fold_put_contents:
  assumes "rx_inv rx"
  shows "rx_inv (fold rx_put drs rx)"
    "rx_contents (fold rx_put drs rx) =
      drop (rx_fill rx + length drs - 63) (rx_contents rx @ map (\<lambda>dr. ucast (dr AND 0xff)) drs)"
  using assms
proof (induction drs arbitrary: rx)
  case Nil
  { case 1 then show ?case by simp }
  { case 2 then show ?case using rx_fill_less[of rx] by simp }
next
  case (Cons dr drs)
  { case 1 then show ?case using Cons.IH(1) rx_put_contents(1) by simp }
  {
    case 2
    let ?b = "ucast (dr AND 0xff) :: u8"
    let ?bs = "map (\<lambda>dr. ucast (dr AND 0xff)) drs :: u8 list"
    let ?c = "rx_contents rx"
    note put = rx_put_contents[OF 2, of dr]
    have fill: "rx_fill (rx_put dr rx) = (if rx_fill rx = 63 then 63 else rx_fill rx + 1)"
      using arg_cong[OF put(2), of length] by simp
    have "rx_contents (fold rx_put (dr # drs) rx) =
      drop (rx_fill (rx_put dr rx) + length drs - 63) (rx_contents (rx_put dr rx) @ ?bs)"
      using Cons.IH(2)[OF put(1)] by simp
    also have "\<dots> = drop (rx_fill rx + length (dr # drs) - 63) (?c @ map (\<lambda>dr. ucast (dr AND 0xff)) (dr # drs))"
    proof (cases "rx_fill rx = 63")
      case True
      then obtain x xs where "?c = x # xs" by (cases ?c) (auto simp flip: length_rx_contents)
      then show ?thesis using True put(2) fill by (simp add: Suc_diff_le)
    next
      case False
      then show ?thesis using put(2) fill by simp
    qed
    finally show ?case .
  }
qed

lemma errno_set [simp]: "rt_get_errno (rt_set_errno e s) = e"
  by (simp add: rt_get_errno_def rt_set_errno_def rt_thread_self_def upd_thread_def split: option.split)

lemma serial_of_simps [simp]:
  "serial_of m (upd_serial n f s) = (if m = n then f (serial_of n s) else serial_of m s)"
  "serial_of m (rt_set_errno e s) = serial_of m s" "serial_of m (set_activated n s) = serial_of m s"
  "dv_flag (devices (upd_serial n f s) m) = dv_flag (devices s m)"
  "dv_ref_count (devices (upd_serial n f s) m) = dv_ref_count (devices s m)"
  by (simp_all add: serial_of_def upd_serial_def set_activated_def)

text \<open>A port that is open and receives by interrupt.\<close>

definition rx_ready :: "nat \<Rightarrow> serial_kernel \<Rightarrow> bool" where
  "rx_ready n s \<longleftrightarrow> dv_flag (devices s n) AND RT_DEVICE_FLAG_INT_RX \<noteq> 0 \<and> dv_ref_count (devices s n) \<noteq> 0 \<and>
    rx_inv (int_rx (serial_of n s))"

abbreviation pending :: "nat \<Rightarrow> serial_kernel \<Rightarrow> u8 list" where
  "pending n s \<equiv> rx_contents (int_rx (serial_of n s))"

lemma device_read_ready:
  assumes "rx_ready n s"
  shows "\<exists>s'. rt_device_read serial_driver n pos sz s =
      (Io_Done (of_nat (min (unat sz) (length (pending n s)))), take (unat sz) (pending n s), s') \<and>
    rx_ready n s' \<and> pending n s' = drop (unat sz) (pending n s) \<and>
    rt_get_errno s' = (if length (pending n s) < unat sz then - RT_EEMPTY else RT_EOK)"
proof -
  let ?rx = "int_rx (serial_of n s)"
  obtain rx' where r: "rx_read (unat sz) ?rx =
      (take (unat sz) (rx_contents ?rx), if length (rx_contents ?rx) < unat sz then - RT_EEMPTY else RT_EOK, rx')"
    "rx_inv rx'" "rx_contents rx' = drop (unat sz) (rx_contents ?rx)"
    using rx_read_contents[of ?rx "unat sz"] assms by (auto simp: rx_ready_def)
  have i: "rx_inv ?rx" using assms by (simp add: rx_ready_def)
  show ?thesis using assms r i
    by (auto simp: rt_device_read_def serial_driver_def rt_serial_read_def rx_ready_def rx_inv_def min_def Let_def)
qed

lemma isr_ready:
  assumes "rx_ready n s" "rt_hw_serial_isr n it arrived s = (call, s')"
  shows "rx_ready n s'" "pending n s' = (if it
    then drop (length (pending n s) + length arrived - 63) (pending n s @ map (\<lambda>dr. ucast (dr AND 0xff)) arrived)
    else pending n s)"
proof -
  have i: "rx_inv (int_rx (serial_of n s))" using assms(1) by (simp add: rx_ready_def)
  have "s' = (if it then upd_serial n (\<lambda>u. u\<lparr>int_rx := fold rx_put arrived (int_rx u)\<rparr>) s else s)"
    using assms(2) i by (auto simp: rt_hw_serial_isr_def rx_inv_def Let_def split: if_splits)
  then show "rx_ready n s'" "pending n s' = (if it
    then drop (length (pending n s) + length arrived - 63) (pending n s @ map (\<lambda>dr. ucast (dr AND 0xff)) arrived)
    else pending n s)"
    using assms(1) fold_put_contents[OF i, of arrived] by (simp_all add: rx_ready_def)
qed

text \<open>
  What happens to an open port: interrupts store the characters \<open>received\<close>, reads hand out the characters
  \<open>delivered\<close>, and everything else leaves the ring and the session alone.  A read is interrupted only
  between two rounds of its loop, where it is the same as two reads.  \<open>lost\<close> counts the characters that arrived
  when the ring had no room for them.
\<close>

inductive rx_history :: "nat \<Rightarrow> serial_kernel \<Rightarrow> u8 list \<Rightarrow> u8 list \<Rightarrow> nat \<Rightarrow> bool" for n :: nat where
  rx_open: "rt_device_open serial_driver n oflag s = (RT_EOK, s') \<Longrightarrow>
    dv_flag (devices s n) AND RT_DEVICE_FLAG_ACTIVATED = 0 \<Longrightarrow> dv_flag (devices s n) AND RT_DEVICE_FLAG_INT_RX \<noteq> 0 \<Longrightarrow>
    dv_ref_count (devices s n) \<noteq> 255 \<Longrightarrow> rx_history n s' [] [] 0"
| rx_interrupt: "rx_history n s received delivered lost \<Longrightarrow> rt_hw_serial_isr n True arrived s = (call, s') \<Longrightarrow>
    rx_history n s' (received @ map (\<lambda>dr. ucast (dr AND 0xff)) arrived) delivered
      (lost + (length (pending n s) + length arrived - 63))"
| rx_reading: "rx_history n s received delivered lost \<Longrightarrow> rt_device_read serial_driver n pos sz s = (out, bs, s') \<Longrightarrow>
    rx_history n s' received (delivered @ bs) lost"
| rx_other: "rx_history n s received delivered lost \<Longrightarrow> int_rx (serial_of n s') = int_rx (serial_of n s) \<Longrightarrow>
    dv_ref_count (devices s' n) = dv_ref_count (devices s n) \<Longrightarrow>
    dv_flag (devices s' n) AND RT_DEVICE_FLAG_INT_RX = dv_flag (devices s n) AND RT_DEVICE_FLAG_INT_RX \<Longrightarrow>
    rx_history n s' received delivered lost"

lemma rx_read_split:
  "rx_read (m + k) rx = (let (bs, e, rx) = rx_read m rx
    in if e = RT_EOK then let (cs, e, rx) = rx_read k rx in (bs @ cs, e, rx) else (bs, e, rx))"
  by (induction m arbitrary: rx) (auto split: option.splits prod.splits)

lemma init_dma_frame:
  "int_rx (serial_of n (init_dma n s)) = int_rx (serial_of n s)" "dv_flag (devices (init_dma n s) n) = dv_flag (devices s n)"
  "dv_ref_count (devices (init_dma n s) n) = dv_ref_count (devices s n)"
  by (simp_all add: init_dma_def upd_dma_def upd_serial_def serial_of_def case_prod_beta Let_def split: option.split)

text \<open>The first open of a port initialises it.\<close>

lemma serial_open_effect:
  assumes "rt_device_open serial_driver n oflag s = (RT_EOK, s')"
    "dv_flag (devices s n) AND RT_DEVICE_FLAG_ACTIVATED = 0"
  shows "serial_of n s' = serial_of n (snd (rt_serial_init n s))"
    "dv_flag (devices s' n) = dv_flag (devices s n) OR RT_DEVICE_FLAG_ACTIVATED"
    "dv_ref_count (devices s' n) = dv_ref_count (devices s n) + 1"
proof -
  let ?s1 = "set_activated n (snd (rt_serial_init n s))"
  have flags: "dv_flag (devices (snd (rt_serial_init n s)) n) = dv_flag (devices s n) OR RT_DEVICE_FLAG_ACTIVATED"
    "dv_ref_count (devices (snd (rt_serial_init n s)) n) = dv_ref_count (devices s n)"
    using assms(2) by (simp_all add: rt_serial_init_def set_activated_def init_dma_frame Let_def)
  have "activate serial_driver n s = (RT_EOK, ?s1)"
    using assms(2) by (simp add: activate_def serial_driver_def rt_serial_init_def Let_def)
  then have "s' = upd_device n (\<lambda>d. d\<lparr>dv_open_flag := oflag OR RT_DEVICE_OFLAG_OPEN\<rparr>)
      (upd_device n (\<lambda>d. d\<lparr>dv_ref_count := dv_ref_count d + 1\<rparr>) ?s1)"
    using assms(1) by (simp add: rt_device_open_def serial_driver_def rt_serial_open_def Let_def split: if_splits)
  then show "serial_of n s' = serial_of n (snd (rt_serial_init n s))"
    "dv_flag (devices s' n) = dv_flag (devices s n) OR RT_DEVICE_FLAG_ACTIVATED"
    "dv_ref_count (devices s' n) = dv_ref_count (devices s n) + 1"
    using flags by (simp_all add: serial_of_def set_activated_def)
qed

lemma mode_bits:
  "(f OR 0x10) AND 0x100 = f AND (0x100 :: u16)" "(f OR 0x10) AND 0x400 = f AND (0x400 :: u16)"
  "(f OR 0x10) AND 0x800 = f AND (0x800 :: u16)"
  by (simp_all add: bit.conj_disj_distrib2)

lemma ref_count_inc:
  assumes "c \<noteq> (255 :: u8)"
  shows "c + 1 \<noteq> 0"
proof
  assume "c + 1 = 0"
  then have "c = - 1" by (simp add: eq_neg_iff_add_eq_0)
  then show False using assms by simp
qed

lemma open_rx_ready:
  assumes "rt_device_open serial_driver n oflag s = (RT_EOK, s')"
    "dv_flag (devices s n) AND RT_DEVICE_FLAG_ACTIVATED = 0" "dv_flag (devices s n) AND RT_DEVICE_FLAG_INT_RX \<noteq> 0"
    "dv_ref_count (devices s n) \<noteq> 255"
  shows "rx_ready n s' \<and> pending n s' = []"
proof -
  note o = serial_open_effect[OF assms(1,2)]
  have "dv_ref_count (devices s n) + 1 \<noteq> 0" using ref_count_inc[OF assms(4)] .
  moreover have "int_rx (serial_of n s') = \<lparr>rx_buffer = replicate 64 0, read_index = 0, save_index = 0\<rparr>"
    using assms(2,3) unfolding o(1) by (simp add: rt_serial_init_def init_dma_frame Let_def)
  ultimately show ?thesis using assms(3) o(2,3)
    by (simp add: rx_ready_def rx_inv_def rx_contents_def rx_fill_def mode_bits)
qed

lemma rx_history_inv:
  assumes "rx_history n s received delivered lost"
  shows "rx_ready n s \<and> (\<exists>old. received = old @ pending n s \<and> subseq delivered old \<and> length old = length delivered + lost)"
  using assms
proof induction
  case (rx_open oflag s s')
  then show ?case using open_rx_ready[of n oflag s s'] by simp
next
  case (rx_interrupt s received delivered lost arrived call s')
  then obtain old where o: "received = old @ pending n s" "subseq delivered old" "length old = length delivered + lost"
    "rx_ready n s" by blast
  let ?all = "pending n s @ map (\<lambda>dr. ucast (dr AND 0xff)) arrived :: u8 list"
  let ?k = "length (pending n s) + length arrived - 63"
  note isr = isr_ready[OF o(4) rx_interrupt(2)]
  have "received @ map (\<lambda>dr. ucast (dr AND 0xff)) arrived = (old @ take ?k ?all) @ pending n s'"
    using isr(2) o(1) append_take_drop_id[of ?k ?all] by simp
  moreover have "length (take ?k ?all) = ?k" by simp
  ultimately show ?case using o(2,3) isr(1)
    by (intro conjI exI[of _ "old @ take ?k ?all"]) (auto intro: subseq_rev_drop_many)
next
  case (rx_reading s received delivered lost pos sz out bs s')
  then obtain old where o: "received = old @ pending n s" "subseq delivered old" "length old = length delivered + lost"
    "rx_ready n s" by blast
  have r: "rx_ready n s'" "bs = take (unat sz) (pending n s)" "pending n s' = drop (unat sz) (pending n s)"
    using device_read_ready[OF o(4), of pos sz] rx_reading(2) by auto
  then show ?case using o(1-3)
    by (intro conjI exI[of _ "old @ bs"]) (auto intro: list_emb_append_mono)
next
  case (rx_other s received delivered lost s')
  then show ?case by (auto simp: rx_ready_def)
qed

text \<open>C38: reception.  The characters that have arrived at an open port are, in this order, those that were
  handed out or overwritten and those that are still in the ring.  What was handed out is a subsequence, and
  no character is missing from it but those that arrived when 63 were waiting; a read returns the waiting
  characters in order, as many as asked for, and reports an empty ring when there are fewer.\<close>

theorem serial_receive:
  assumes "rx_history n s received delivered lost"
  shows "(\<exists>old. received = old @ pending n s \<and> subseq delivered old \<and> length old = length delivered + lost) \<and>
    (lost = 0 \<longrightarrow> received = delivered @ pending n s) \<and> length (pending n s) \<le> 63 \<and>
    (\<exists>s'. rt_device_read serial_driver n pos sz s =
        (Io_Done (of_nat (min (unat sz) (length (pending n s)))), take (unat sz) (pending n s), s') \<and>
      pending n s' = drop (unat sz) (pending n s) \<and>
      rt_get_errno s' = (if length (pending n s) < unat sz then - RT_EEMPTY else RT_EOK))"
proof -
  obtain old where o: "received = old @ pending n s" "subseq delivered old" "length old = length delivered + lost"
    "rx_ready n s" using rx_history_inv[OF assms] by blast
  have "delivered = old" if "lost = 0" using o(2,3) that by (auto intro: subseq_same_length)
  moreover have "length (pending n s) \<le> 63" using rx_fill_less[of "int_rx (serial_of n s)"] by simp
  ultimately show ?thesis using o device_read_ready[OF o(4), of pos sz] by blast
qed


section \<open>The transmit queue\<close>

definition tx_data :: "stm32_serial_dma_tx \<Rightarrow> nat \<Rightarrow> nat \<times> u32" where
  "tx_data t p = (data_ptr (data_nodes t p), data_size (data_nodes t p))"

primrec node_chain :: "(nat \<Rightarrow> stm32_serial_data_node) \<Rightarrow> nat option \<Rightarrow> nat list \<Rightarrow> bool" where
  "node_chain nodes h [] \<longleftrightarrow> h = None"
| "node_chain nodes h (p # ps) \<longleftrightarrow> h = Some p \<and> node_chain nodes (node_next (nodes p)) ps"

text \<open>The queue \<open>ps\<close> of nodes: linked from head to tail, and exactly the blocks the pool has handed out.\<close>

definition tx_ok :: "stm32_serial_dma_tx \<Rightarrow> nat list \<Rightarrow> bool" where
  "tx_ok t ps \<longleftrightarrow>
    node_chain (data_nodes t) (list_head t) ps \<and> list_tail t = (if ps = [] then None else Some (last ps)) \<and>
    distinct ps \<and> (\<forall>p \<in> set ps. 4 \<le> p) \<and> (dma_enabled t \<longleftrightarrow> ps \<noteq> []) \<and> block_total_count (data_node_mp t) = 4 \<and>
    (\<exists>fs. pool_ok (data_node_mp_obj t) (data_node_mp t) fs ((\<lambda>p. p - 4) ` set ps))"

text \<open>The transfers started so far, followed by those that wait behind the first node, are the data written.\<close>

definition tx_log :: "stm32_serial_dma_tx \<Rightarrow> nat list \<Rightarrow> (nat \<times> u32) list \<Rightarrow> bool" where
  "tx_log t ps written \<longleftrightarrow> dma_started t @ map (tx_data t) (tl ps) = written \<and>
    (ps \<noteq> [] \<longrightarrow> dma_started t \<noteq> [] \<and> last (dma_started t) = tx_data t (hd ps))"

lemma node_chain_upd: "q \<notin> set ps \<Longrightarrow> node_chain (nodes(q := x)) h ps = node_chain nodes h ps"
  by (induction ps arbitrary: h) auto

lemma node_chain_snoc:
  assumes "node_chain nodes h ps" "distinct ps" "p \<notin> set ps" "ps \<noteq> []" "node_next (nodes p) = None"
  shows "node_chain (nodes(last ps := (nodes (last ps))\<lparr>node_next := Some p\<rparr>)) h (ps @ [p])"
  using assms
proof (induction ps arbitrary: h)
  case (Cons q ps)
  show ?case
  proof (cases "ps = []")
    case False
    then show ?thesis using Cons.IH[of "node_next (nodes q)"] Cons.prems by auto
  qed (use Cons.prems in auto)
qed simp

lemma link_node_ok:
  assumes "tx_ok t ps" "tx_log t ps written" "p \<notin> set ps" "4 \<le> p"
    "\<exists>fs. pool_ok (data_node_mp_obj t) mp fs (insert (p - 4) ((\<lambda>p. p - 4) ` set ps))" "block_total_count mp = 4"
  shows "tx_ok (link_node p a sz (t\<lparr>data_node_mp := mp\<rparr>)) (ps @ [p])"
    "tx_log (link_node p a sz (t\<lparr>data_node_mp := mp\<rparr>)) (ps @ [p]) (written @ [(a, sz)])"
proof -
  let ?t = "link_node p a sz (t\<lparr>data_node_mp := mp\<rparr>)"
  let ?new = "\<lparr>data_ptr = a, data_size = sz, node_next = None, node_prev = list_tail t\<rparr>"
  have i: "node_chain (data_nodes t) (list_head t) ps" "list_tail t = (if ps = [] then None else Some (last ps))"
    "distinct ps" "\<forall>p \<in> set ps. 4 \<le> p" "dma_enabled t \<longleftrightarrow> ps \<noteq> []" using assms(1) by (simp_all add: tx_ok_def)
  have "tx_ok ?t (ps @ [p]) \<and> tx_log ?t (ps @ [p]) (written @ [(a, sz)])"
  proof (cases "ps = []")
    case True
    then have "?t = t\<lparr>data_node_mp := mp, data_nodes := (data_nodes t)(p := ?new), list_tail := Some p, list_head := Some p,
        dma_enabled := True, dma_started := dma_started t @ [(a, sz)]\<rparr>"
      using i by (simp add: link_node_def rt_serial_enable_dma_def)
    then show ?thesis using True assms(2,4-6) by (simp add: tx_ok_def tx_log_def tx_data_def)
  next
    case False
    let ?nodes = "(data_nodes t)(p := ?new)"
    let ?nodes' = "?nodes(last ps := (?nodes (last ps))\<lparr>node_next := Some p\<rparr>)"
    obtain h where h: "list_head t = Some h" using i(1) False by (cases ps) auto
    have t: "?t = t\<lparr>data_node_mp := mp, data_nodes := ?nodes', list_tail := Some p\<rparr>"
      using i(2) False h by (simp add: link_node_def)
    have "node_chain ?nodes' (list_head t) (ps @ [p])"
      using i(1,3) False assms(3) by (intro node_chain_snoc) (simp_all add: node_chain_upd)
    then have "tx_ok ?t (ps @ [p])" using i assms(3-6) False by (auto simp: t tx_ok_def)
    moreover have d: "tx_data ?t q = tx_data t q" if "q \<in> set ps" for q
      using that assms(3) by (auto simp: t tx_data_def)
    moreover have "tx_data ?t p = (a, sz)" using assms(3) False by (auto simp: t tx_data_def)
    moreover have "map (tx_data ?t) (tl ps) = map (tx_data t) (tl ps)" using d False by (auto dest: list.set_sel(2))
    moreover have "dma_started ?t = dma_started t" by (simp add: t)
    ultimately show ?thesis using assms(2) False by (simp add: tx_log_def cong: map_cong)
  qed
  then show "tx_ok ?t (ps @ [p])" "tx_log ?t (ps @ [p]) (written @ [(a, sz)])" by blast+
qed

lemma handed_back:
  "distinct (p # ps) \<Longrightarrow> \<forall>q \<in> set (p # ps). 4 \<le> q \<Longrightarrow>
    (\<lambda>q. q - 4) ` set (p # ps) - {p - 4} = (\<lambda>q. q - (4 :: nat)) ` set ps"
  by (auto simp: eq_diff_iff)

lemma upd_dma_simps [simp]:
  "serial_of n (upd_dma n t s) = (serial_of n s)\<lparr>dma_tx := Some t\<rparr>"
  "dv_flag (devices (upd_dma n t s) m) = dv_flag (devices s m)"
  "dv_ref_count (devices (upd_dma n t s) m) = dv_ref_count (devices s m)"
  by (simp_all add: upd_dma_def)

text \<open>The flags and the reference count on which transmission depends.\<close>

definition tx_mode :: "nat \<Rightarrow> serial_kernel \<Rightarrow> u16 \<times> u16 \<times> u8" where
  "tx_mode n s = (dv_flag (devices s n) AND RT_DEVICE_FLAG_INT_TX, dv_flag (devices s n) AND RT_DEVICE_FLAG_DMA_TX,
    dv_ref_count (devices s n))"

lemma tx_isr_ok:
  assumes "dma_tx (serial_of n s) = Some t" "tx_ok t (p # ps)" "tx_log t (p # ps) written"
    "rt_hw_serial_dma_tx_isr n s = (call, s')"
  shows "\<exists>t'. dma_tx (serial_of n s') = Some t' \<and> tx_ok t' ps \<and> tx_log t' ps written" "tx_mode n s' = tx_mode n s"
proof -
  let ?A = "(\<lambda>q. q - 4) ` set (p # ps)"
  have i: "node_chain (data_nodes t) (list_head t) (p # ps)" "list_tail t = Some (last (p # ps))" "distinct (p # ps)"
    "\<forall>q \<in> set (p # ps). 4 \<le> q" "block_total_count (data_node_mp t) = 4" using assms(2) by (simp_all add: tx_ok_def)
  obtain fs where fs: "pool_ok (data_node_mp_obj t) (data_node_mp t) fs ?A" using assms(2) by (auto simp: tx_ok_def)
  have mem: "p - 4 \<in> ?A" "p - 4 + 4 = p" using i(4) by auto
  obtain mp s1 where f: "rt_mp_free (data_node_mp_obj t) p (data_node_mp t) s = (mp, s1)" by (rule prod.exhaust)
  obtain c where mp: "mp = (mp_pushed (p - 4) (data_node_mp t))\<lparr>suspend_thread_count := c\<rparr>"
    using free_eq[OF fs mem(1), of s] f mem(2) by auto
  have ok: "pool_ok (data_node_mp_obj t) mp ((p - 4) # fs) ((\<lambda>q. q - 4) ` set ps)"
    using pushed_ok[OF fs mem(1)] handed_back[OF i(3,4)] by (simp add: mp)
  have d: "devices s1 = devices s" using devices_pool(5)[of "data_node_mp_obj t" p "data_node_mp t" s] f by simp
  define t1 where "t1 = (if ps = [] then t\<lparr>list_head := None, list_tail := None, data_node_mp := mp\<rparr>
    else t\<lparr>list_head := node_next (data_nodes t p), data_node_mp := mp\<rparr>)"
  define t' where "t' = (case list_head t1 of
      Some q \<Rightarrow> rt_serial_enable_dma (data_ptr (data_nodes t1 q)) (data_size (data_nodes t1 q)) t1
    | None \<Rightarrow> t1\<lparr>dma_enabled := False\<rparr>)"
  have ne: "node_next (data_nodes t p) = None \<longleftrightarrow> ps = []" using i(1) by (cases ps) auto
  have s': "s' = upd_dma n t' s1"
    using assms(1,4) i(1,2) f ne
    by (cases ps) (auto simp: rt_hw_serial_dma_tx_isr_def t'_def t1_def Let_def)
  then have "dma_tx (serial_of n s') = Some t'" by simp
  moreover have "tx_ok t' ps" using i ok
    by (cases ps) (auto simp: tx_ok_def t'_def t1_def rt_serial_enable_dma_def mp mp_pushed_def)
  moreover have "tx_log t' ps written" using assms(3) i(1)
    by (cases ps) (auto simp: tx_log_def tx_data_def t'_def t1_def rt_serial_enable_dma_def)
  ultimately show "\<exists>t'. dma_tx (serial_of n s') = Some t' \<and> tx_ok t' ps \<and> tx_log t' ps written" by blast
  show "tx_mode n s' = tx_mode n s" by (simp add: s' tx_mode_def d)
qed

text \<open>A node taken from the pool is not in the queue.\<close>

lemma queue_taken:
  assumes "dma_tx (serial_of n s) = Some t" "tx_ok t ps" "tx_log t ps written"
    "pool_ok (data_node_mp_obj t) (data_node_mp t) (a # gs) ((\<lambda>p. p - 4) ` set ps)"
    "queue_data n address sz t (mp_take (data_node_mp_obj t) (data_node_mp t) s) = (out, s')"
  shows "out = Io_Done 0" "tx_mode n s' = tx_mode n s"
    "\<exists>t'. dma_tx (serial_of n s') = Some t' \<and> tx_ok t' (ps @ [a + 4]) \<and> tx_log t' (ps @ [a + 4]) (written @ [(address, sz)])"
proof -
  note tk = take_ok[OF assms(4), of s]
  obtain mp where mp: "mp_take (data_node_mp_obj t) (data_node_mp t) s = (Mp_Returned (Some (a + 4)), mp, s)"
    "block_total_count mp = block_total_count (data_node_mp t)" using tk(1) by simp
  have s': "out = Io_Done 0" "s' = rt_set_errno RT_EOK (upd_dma n (link_node (a + 4) address sz (t\<lparr>data_node_mp := mp\<rparr>)) s)"
    using assms(5) by (simp_all add: queue_data_def mp(1) Let_def)
  have a: "a \<notin> (\<lambda>p. p - 4) ` set ps" using assms(4) by (auto simp: pool_ok_def)
  then have new: "a + 4 \<notin> set ps" by (metis add_diff_cancel_right' imageI)
  have pool: "\<exists>fs. pool_ok (data_node_mp_obj t) mp fs (insert (a + 4 - 4) ((\<lambda>p. p - 4) ` set ps))"
    using tk(2) mp(1) by auto
  have "block_total_count mp = 4" using mp(2) assms(2) by (simp add: tx_ok_def)
  note l = link_node_ok[OF assms(2,3) new _ pool this, of address sz]
  show "out = Io_Done 0" "tx_mode n s' = tx_mode n s" using s' by (simp_all add: tx_mode_def)
  show "\<exists>t'. dma_tx (serial_of n s') = Some t' \<and> tx_ok t' (ps @ [a + 4]) \<and> tx_log t' (ps @ [a + 4]) (written @ [(address, sz)])"
    using l by (simp add: s'(2))
qed

lemma tx_ok_pool:
  "tx_ok (t\<lparr>data_node_mp := (data_node_mp t)\<lparr>suspend_thread_count := c\<rparr>\<rparr>) ps = tx_ok t ps"
  "tx_log (t\<lparr>data_node_mp := mp\<rparr>) ps written = tx_log t ps written"
  by (simp_all add: tx_ok_def tx_log_def tx_data_def[abs_def])

lemma tx_write_ok:
  assumes "dma_tx (serial_of n s) = Some t" "tx_ok t ps" "tx_log t ps written"
    "dv_flag (devices s n) AND RT_DEVICE_FLAG_INT_TX = 0" "dv_flag (devices s n) AND RT_DEVICE_FLAG_DMA_TX \<noteq> 0"
    "dv_ref_count (devices s n) \<noteq> 0" "rt_device_write serial_driver n pos buf sz s = (out, s')"
  shows "tx_mode n s' = tx_mode n s" "\<exists>t' ps'. dma_tx (serial_of n s') = Some t' \<and> tx_ok t' ps' \<and>
    tx_log t' ps' (if out = Io_Blocked then written else written @ [(fst buf, sz)])"
proof -
  let ?al = "rt_mp_alloc (data_node_mp_obj t) RT_WAITING_FOREVER (data_node_mp t) s"
  have q: "queue_data n (fst buf) sz t ?al = (out, s')"
    using assms(1,4-7) by (simp add: rt_device_write_def serial_driver_def rt_serial_write_def)
  obtain fs where fs: "pool_ok (data_node_mp_obj t) (data_node_mp t) fs ((\<lambda>p. p - 4) ` set ps)"
    using assms(2) by (auto simp: tx_ok_def)
  have "tx_mode n s' = tx_mode n s \<and> (\<exists>t' ps'. dma_tx (serial_of n s') = Some t' \<and> tx_ok t' ps' \<and>
    tx_log t' ps' (if out = Io_Blocked then written else written @ [(fst buf, sz)]))"
  proof (cases fs)
    case Nil
    then have z: "block_free_count (data_node_mp t) = 0" using pool_count(3)[OF fs] by simp
    obtain c s1 where al: "?al = (Mp_Blocked, (data_node_mp t)\<lparr>suspend_thread_count := c\<rparr>, s1)"
    proof (cases "rt_thread_self s")
      case None
      then show ?thesis using that[of "suspend_thread_count (data_node_mp t)"] z by (simp add: rt_mp_alloc_def)
    next
      case (Some th)
      then show ?thesis using that z by (simp add: rt_mp_alloc_def)
    qed
    have "devices s1 = devices s"
      using devices_pool(3)[of "data_node_mp_obj t" RT_WAITING_FOREVER "data_node_mp t" s] al by simp
    then show ?thesis using q assms(2,3) by (auto simp: al queue_data_def tx_mode_def tx_ok_pool Let_def)
  next
    case (Cons a gs)
    then have "?al = mp_take (data_node_mp_obj t) (data_node_mp t) s"
      using pool_count(3)[OF fs] by (simp add: rt_mp_alloc_def)
    then show ?thesis using queue_taken[OF assms(1-3), of a gs "fst buf" sz out s'] fs Cons q by auto
  qed
  then show "tx_mode n s' = tx_mode n s" "\<exists>t' ps'. dma_tx (serial_of n s') = Some t' \<and> tx_ok t' ps' \<and>
    tx_log t' ps' (if out = Io_Blocked then written else written @ [(fst buf, sz)])" by blast+
qed

lemma tx_resumed_ok:
  assumes "dma_tx (serial_of n s) = Some t" "tx_ok t ps" "tx_log t ps written" "block_free_count (data_node_mp t) \<noteq> 0"
    "rt_serial_write_resumed n th address sz s = (out, s')"
  shows "tx_mode n s' = tx_mode n s" "\<exists>t' ps'. dma_tx (serial_of n s') = Some t' \<and> tx_ok t' ps' \<and>
    tx_log t' ps' (if th_error (threads s th) \<noteq> RT_EOK then written else written @ [(address, sz)])"
proof -
  obtain fs where fs: "pool_ok (data_node_mp_obj t) (data_node_mp t) fs ((\<lambda>p. p - 4) ` set ps)"
    using assms(2) by (auto simp: tx_ok_def)
  then obtain a gs where c: "fs = a # gs" using pool_count(3)[OF fs] assms(4) by (cases fs) auto
  have "tx_mode n s' = tx_mode n s \<and> (\<exists>t' ps'. dma_tx (serial_of n s') = Some t' \<and> tx_ok t' ps' \<and>
    tx_log t' ps' (if th_error (threads s th) \<noteq> RT_EOK then written else written @ [(address, sz)]))"
  proof (cases "th_error (threads s th) = RT_EOK")
    case True
    then have "queue_data n address sz t (mp_take (data_node_mp_obj t) (data_node_mp t) s) = (out, s')"
      using assms(1,5) by (simp add: rt_serial_write_resumed_def rt_mp_alloc_resumed_def)
    then show ?thesis using queue_taken[OF assms(1-3), of a gs address sz out s'] fs c True by auto
  next
    case False
    then have "s' = rt_set_errno (- RT_ENOMEM) (upd_dma n (t\<lparr>data_node_mp := data_node_mp t\<rparr>) s)"
      using assms(1,5) by (simp add: rt_serial_write_resumed_def rt_mp_alloc_resumed_def queue_data_def Let_def)
    then show ?thesis using assms(2,3) False by (auto simp: tx_mode_def)
  qed
  then show "tx_mode n s' = tx_mode n s" "\<exists>t' ps'. dma_tx (serial_of n s') = Some t' \<and> tx_ok t' ps' \<and>
    tx_log t' ps' (if th_error (threads s th) \<noteq> RT_EOK then written else written @ [(address, sz)])" by blast+
qed

text \<open>
  What happens to a port that transmits by DMA, from its first open on: \<open>written\<close> is the data accepted by
  writes.  A transfer ends, and its interrupt runs, only while the stream is enabled; a thread that waited
  for a node and continues without an error finds one.
\<close>

inductive tx_history :: "nat \<Rightarrow> serial_kernel \<Rightarrow> (nat \<times> u32) list \<Rightarrow> bool" for n :: nat where
  tx_open: "rt_device_open serial_driver n oflag s = (RT_EOK, s') \<Longrightarrow>
    dv_flag (devices s n) AND RT_DEVICE_FLAG_ACTIVATED = 0 \<Longrightarrow> dv_flag (devices s n) AND RT_DEVICE_FLAG_INT_TX = 0 \<Longrightarrow>
    dv_flag (devices s n) AND RT_DEVICE_FLAG_DMA_TX \<noteq> 0 \<Longrightarrow> dv_ref_count (devices s n) \<noteq> 255 \<Longrightarrow>
    dma_tx (serial_of n s) = Some t \<Longrightarrow> dma_started t = [] \<Longrightarrow> \<not> dma_enabled t \<Longrightarrow> tx_history n s' []"
| tx_writing: "tx_history n s written \<Longrightarrow> rt_device_write serial_driver n pos buf sz s = (out, s') \<Longrightarrow>
    tx_history n s' (if out = Io_Blocked then written else written @ [(fst buf, sz)])"
| tx_resumed: "tx_history n s written \<Longrightarrow> dma_tx (serial_of n s) = Some t \<Longrightarrow> block_free_count (data_node_mp t) \<noteq> 0 \<Longrightarrow>
    rt_serial_write_resumed n th address sz s = (out, s') \<Longrightarrow>
    tx_history n s' (if th_error (threads s th) \<noteq> RT_EOK then written else written @ [(address, sz)])"
| tx_interrupt: "tx_history n s written \<Longrightarrow> dma_tx (serial_of n s) = Some t \<Longrightarrow> dma_enabled t \<Longrightarrow>
    rt_hw_serial_dma_tx_isr n s = (call, s') \<Longrightarrow> tx_history n s' written"
| tx_other: "tx_history n s written \<Longrightarrow> dma_tx (serial_of n s') = dma_tx (serial_of n s) \<Longrightarrow>
    tx_mode n s' = tx_mode n s \<Longrightarrow> tx_history n s' written"

definition tx_inv :: "nat \<Rightarrow> serial_kernel \<Rightarrow> (nat \<times> u32) list \<Rightarrow> bool" where
  "tx_inv n s written \<longleftrightarrow> dv_flag (devices s n) AND RT_DEVICE_FLAG_INT_TX = 0 \<and>
    dv_flag (devices s n) AND RT_DEVICE_FLAG_DMA_TX \<noteq> 0 \<and> dv_ref_count (devices s n) \<noteq> 0 \<and>
    (\<exists>t ps. dma_tx (serial_of n s) = Some t \<and> tx_ok t ps \<and> tx_log t ps written)"

lemma tx_inv_cong:
  assumes "tx_inv n s written" "tx_mode n s' = tx_mode n s"
    "\<exists>t ps. dma_tx (serial_of n s') = Some t \<and> tx_ok t ps \<and> tx_log t ps written'"
  shows "tx_inv n s' written'"
  using assms by (simp add: tx_inv_def tx_mode_def)

lemma open_tx_inv:
  assumes "rt_device_open serial_driver n oflag s = (RT_EOK, s')"
    "dv_flag (devices s n) AND RT_DEVICE_FLAG_ACTIVATED = 0" "dv_flag (devices s n) AND RT_DEVICE_FLAG_INT_TX = 0"
    "dv_flag (devices s n) AND RT_DEVICE_FLAG_DMA_TX \<noteq> 0" "dv_ref_count (devices s n) \<noteq> 255"
    "dma_tx (serial_of n s) = Some t" "dma_started t = []" "\<not> dma_enabled t"
  shows "tx_inv n s' []"
proof -
  note o = serial_open_effect[OF assms(1,2)]
  define s0 where "s0 = (if dv_flag (devices s n) AND RT_DEVICE_FLAG_INT_RX \<noteq> 0
    then upd_serial n (\<lambda>u. u\<lparr>int_rx := \<lparr>rx_buffer = replicate UART_RX_BUFFER_SIZE 0, read_index = 0, save_index = 0\<rparr>\<rparr>) s else s)"
  have t0: "dma_tx (serial_of n s0) = Some t" using assms(6) by (simp add: s0_def)
  obtain mp s1 where m: "rt_mp_init (data_node_mp_obj t) ''dn'' (data_node_mem_pool t) 80 16 (block_ptr (data_node_mp t)) s0 = (mp, s1)"
    by (rule prod.exhaust)
  have mp: "mp = new_pool (data_node_mem_pool t) 80 16 4 (block_ptr (data_node_mp t))"
    using m by (simp add: rt_mp_init_def RT_ALIGN_def RT_ALIGN_DOWN_def Let_def)
  let ?t = "t\<lparr>list_head := None, list_tail := None, data_node_mp := mp\<rparr>"
  have "dma_tx (serial_of n s') = Some ?t"
    using assms(2,4) m t0 unfolding o(1) by (simp add: rt_serial_init_def s0_def[symmetric] init_dma_def Let_def)
  moreover have "\<exists>fs. pool_ok (data_node_mp_obj t) mp fs {}" unfolding mp by (rule exI, rule new_pool_ok) simp
  then have "tx_ok ?t []" using assms(8) by (simp add: tx_ok_def) (simp add: mp new_pool_def)
  moreover have "tx_log ?t [] []" using assms(7) by (simp add: tx_log_def)
  ultimately show ?thesis using assms(3,4) o(2,3) ref_count_inc[OF assms(5)] by (auto simp: tx_inv_def mode_bits)
qed

lemma tx_history_inv: "tx_history n s written \<Longrightarrow> tx_inv n s written"
proof (induction rule: tx_history.induct)
  case (tx_open oflag s s' t)
  then show ?case by (rule open_tx_inv)
next
  case (tx_writing s written pos buf sz out s')
  then obtain t ps where t: "dma_tx (serial_of n s) = Some t" "tx_ok t ps" "tx_log t ps written"
    "dv_flag (devices s n) AND RT_DEVICE_FLAG_INT_TX = 0" "dv_flag (devices s n) AND RT_DEVICE_FLAG_DMA_TX \<noteq> 0"
    "dv_ref_count (devices s n) \<noteq> 0" by (auto simp: tx_inv_def)
  show ?case using tx_write_ok[OF t tx_writing(2)] tx_inv_cong[OF tx_writing(3)] by blast
next
  case (tx_resumed s written t th address sz out s')
  then obtain ps where "tx_ok t ps" "tx_log t ps written" by (auto simp: tx_inv_def)
  then show ?case using tx_resumed_ok[OF tx_resumed(2) _ _ tx_resumed(3,4)] tx_inv_cong[OF tx_resumed(5)] by blast
next
  case (tx_interrupt s written t call s')
  then obtain ps where ps: "tx_ok t ps" "tx_log t ps written" by (auto simp: tx_inv_def)
  then obtain p qs where "ps = p # qs" using tx_interrupt(3) by (cases ps) (auto simp: tx_ok_def)
  then show ?case using tx_isr_ok[OF tx_interrupt(2) _ _ tx_interrupt(4)] ps tx_inv_cong[OF tx_interrupt(5)] by blast
next
  case (tx_other s written s')
  then show ?case by (auto simp: tx_inv_def tx_mode_def)
qed



section \<open>Sessions of a serial port\<close>

text \<open>C40: sessions.  From its registration on, the reference count of a serial port is the number of opens that
  succeeded and are not yet closed (below 256); the port is marked open exactly when there is one, and
  is then initialised; a stand-alone port is never open twice, a second open is refused as busy; a port that
  is not open refuses reads, writes and closes without reaching the driver; and no transfer, of whatever port,
  changes the session.\<close>

theorem device_sessions:
  assumes "sessions serial_driver n s c"
  shows "unat (dv_ref_count (devices s n)) = c \<and>
    (dv_open_flag (devices s n) AND RT_DEVICE_OFLAG_OPEN \<noteq> 0 \<longleftrightarrow> 0 < c) \<and>
    (0 < c \<longrightarrow> dv_flag (devices s n) AND RT_DEVICE_FLAG_ACTIVATED \<noteq> 0) \<and>
    (dv_flag (devices s n) AND RT_DEVICE_FLAG_STANDALONE \<noteq> 0 \<longrightarrow> c \<le> 1 \<and>
      (c = 1 \<longrightarrow> rt_device_open serial_driver n oflag s = (- RT_EBUSY, s))) \<and>
    (c = 0 \<longrightarrow> rt_device_read serial_driver n pos sz s = (Io_Done 0, [], rt_set_errno (- RT_ERROR) s) \<and>
      rt_device_write serial_driver n pos buf sz s = (Io_Done 0, rt_set_errno (- RT_ERROR) s) \<and>
      rt_device_close serial_driver n s = (- RT_ERROR, s)) \<and>
    sessions serial_driver n (snd (snd (rt_device_read serial_driver m pos sz s))) c \<and>
    sessions serial_driver n (snd (rt_device_write serial_driver m pos buf sz s)) c \<and>
    sessions serial_driver n (snd (rt_device_control serial_driver m cmd s)) c"
proof -
  have ok: "session_ok n s c" by (rule serial.sessions_ok[OF assms])
  have "rt_device_open serial_driver n oflag s = (- RT_EBUSY, s)"
    if "dv_flag (devices s n) AND RT_DEVICE_FLAG_STANDALONE \<noteq> 0" "c = 1"
    using ok that by (simp add: session_ok_def rt_device_open_def activate_def)
  moreover have "rt_device_write serial_driver n pos buf sz s = (Io_Done 0, rt_set_errno (- RT_ERROR) s)" if "c = 0"
    using serial.closed_refuses(2) assms that by blast
  moreover note serial.io_session(1)[OF assms, of m pos sz] serial.io_session(2)[OF assms, where m = m and pos = pos and buf = buf and sz = sz]
    serial.io_session(3)[OF assms, of m cmd]
  ultimately show ?thesis using ok serial.closed_refuses(1,3)[of n s] assms
    unfolding session_ok_def by blast
qed


section \<open>An example\<close>

text \<open>A port with reception by interrupt and transmission by DMA, in a running kernel.\<close>

definition demo_dma :: stm32_serial_dma_tx where
  "demo_dma = \<lparr>list_head = None, list_tail = None,
     data_nodes = (\<lambda>_. \<lparr>data_ptr = 0, data_size = 0, node_next = None, node_prev = None\<rparr>),
     data_node_mp = new_pool 0x3000 80 16 4 (\<lambda>_. Mp_Null), data_node_mp_obj = 7, data_node_mem_pool = 0x3000,
     dma_enabled = False, dma_started = []\<rparr>"

definition demo_uart :: stm32_serial_device where
  "demo_uart = \<lparr>int_rx = \<lparr>rx_buffer = [], read_index = 0, save_index = 0\<rparr>, dma_tx = Some demo_dma,
     uart_enabled = False, uart_sent = [], uart_polls = []\<rparr>"

definition demo_devices :: serial_kernel where
  "demo_devices = kernel.extend demo_kernel (device_kernel.fields 0
     (\<lambda>_. \<lparr>dv_flag = 0x908, dv_open_flag = 0, dv_ref_count = 0, dv_rx_indicate = None, dv_tx_complete = None,
       dv_user_data = demo_uart\<rparr>))"

lemma demo_devices_fields [simp]:
  "devices demo_devices n = \<lparr>dv_flag = 0x908, dv_open_flag = 0, dv_ref_count = 0, dv_rx_indicate = None,
     dv_tx_complete = None, dv_user_data = demo_uart\<rparr>"
  "serial_of n demo_devices = demo_uart"
  "rt_object_container demo_devices RT_Object_Class_Device = []"
proof -
  show d: "devices demo_devices n = \<lparr>dv_flag = 0x908, dv_open_flag = 0, dv_ref_count = 0, dv_rx_indicate = None,
     dv_tx_complete = None, dv_user_data = demo_uart\<rparr>" for n
    by (simp add: demo_devices_def kernel.defs device_kernel.defs)
  then show "serial_of n demo_devices = demo_uart" by (simp add: serial_of_def)
  have "rt_object_container demo_kernel RT_Object_Class_Device = []" by code_simp
  then show "rt_object_container demo_devices RT_Object_Class_Device = []"
    by (simp add: demo_devices_def kernel.defs device_kernel.defs)
qed

lemma demo_open: "\<exists>s. rt_device_open serial_driver 0 0 demo_devices = (RT_EOK, s)"
proof -
  obtain s1 where a: "activate serial_driver 0 demo_devices = (RT_EOK, s1)"
    by (simp add: activate_def serial_driver_def rt_serial_init_def Let_def)
  have "dv_open_flag (devices s1 0) = 0" using serial.activate_session(1)[OF a] by (simp add: same_session_def)
  then show ?thesis by (simp add: rt_device_open_def a serial_driver_def rt_serial_open_def Let_def)
qed

theorem device_sessions_witness:
  "\<exists>s. sessions serial_driver 0 s 1 \<and> dv_ref_count (devices s 0) = 1 \<and> rt_device_open serial_driver 0 0 s = (- RT_EBUSY, s)"
proof -
  let ?r = "rt_device_register (Some 0) ''uart2'' 0x908 demo_devices"
  have reg: "fst ?r = RT_EOK" "devices (snd ?r) 0 = devices demo_devices 0"
    by (simp_all add: rt_device_register_def rt_device_find_def rt_enter_critical_def Let_def)
  have "?r = (RT_EOK, snd ?r)" using reg(1) by (simp add: prod_eq_iff)
  then have s0: "sessions serial_driver 0 (snd ?r) 0" by (rule ses_register) simp
  obtain s1 where a: "activate serial_driver 0 (snd ?r) = (RT_EOK, s1)"
    using reg(2) by (simp add: activate_def serial_driver_def rt_serial_init_def Let_def)
  have f: "dv_open_flag (devices s1 0) = 0" "dv_flag (devices s1 0) AND 8 \<noteq> 0"
    using serial.activate_session(1)[OF a] reg(2) by (simp_all add: same_session_def)
  obtain s where o: "rt_device_open serial_driver 0 0 (snd ?r) = (RT_EOK, s)"
    "dv_flag (devices s 0) = dv_flag (devices s1 0)"
    using f by (simp add: rt_device_open_def a serial_driver_def rt_serial_open_def Let_def)
  have "sessions serial_driver 0 s 1" using ses_open[OF s0 _ o(1)] by simp
  from device_sessions[OF this, of 0] this show ?thesis using f(2) o(2)
    by (intro exI[of _ s]) (simp add: word_unat_eq_iff)
qed

theorem serial_receive_witness:
  "\<exists>s. rx_history 0 s [0x41, 0x42] [0x41] 0 \<and> pending 0 s = [0x42]"
proof -
  obtain s1 where o: "rt_device_open serial_driver 0 0 demo_devices = (RT_EOK, s1)" using demo_open by blast
  have h1: "rx_history 0 s1 [] [] 0" by (rule rx_open[OF o]) simp_all
  have p1: "pending 0 s1 = []" using open_rx_ready[OF o] by simp
  obtain call s2 where i: "rt_hw_serial_isr 0 True [0x41, 0x42] s1 = (call, s2)" by (rule prod.exhaust)
  have h2: "rx_history 0 s2 [0x41, 0x42] [] 0" using rx_interrupt[OF h1 i] p1 by simp
  then have p2: "pending 0 s2 = [0x41, 0x42]" using serial_receive[OF h2] by simp
  obtain s3 where r: "rt_device_read serial_driver 0 0 1 s2 = (Io_Done 1, [0x41], s3)"
    using serial_receive[OF h2, of 0 1] p2 by auto
  have h3: "rx_history 0 s3 [0x41, 0x42] [0x41] 0" using rx_reading[OF h2 r] by simp
  then show ?thesis using serial_receive[OF h3] by auto
qed

lemma tx_first_write:
  assumes "tx_inv n s []"
  shows "fst (rt_device_write serial_driver n pos buf sz s) = Io_Done 0"
proof -
  obtain t ps where t: "dma_tx (serial_of n s) = Some t" "tx_ok t ps" "tx_log t ps []"
    using assms by (auto simp: tx_inv_def)
  have e: "ps = []" using t(3) by (auto simp: tx_log_def)
  then obtain fs where fs: "pool_ok (data_node_mp_obj t) (data_node_mp t) fs {}" using t(2) by (auto simp: tx_ok_def)
  then have "length fs = 4" using pool_count(1)[OF fs] t(2) by (simp add: tx_ok_def)
  then obtain a gs where fs': "fs = a # gs" by (cases fs) auto
  let ?q = "queue_data n (fst buf) sz t (mp_take (data_node_mp_obj t) (data_node_mp t) s)"
  have "rt_device_write serial_driver n pos buf sz s = ?q"
    using assms t(1) pool_count(3)[OF fs] fs'
    by (simp add: tx_inv_def rt_device_write_def serial_driver_def rt_serial_write_def rt_mp_alloc_def)
  moreover obtain out s' where q: "?q = (out, s')" by (rule prod.exhaust)
  moreover have "out = Io_Done 0" by (rule queue_taken(1)[OF t _ q]) (use fs fs' e in simp)
  ultimately show ?thesis by simp
qed


end
