(* ===== verification/Spec2Isabelle.thy ===== *)
theory Spec2Isabelle
  imports Kernel Relay Serial
begin

text \<open>
  A verification of the firmware of a badminton robot: the RT-Thread real-time kernel
  (\<^verbatim>\<open>src/src\<close>, \<^verbatim>\<open>src/include\<close>) and the robot's own code on an STM32F407
  (\<^verbatim>\<open>src/bsp/stm32f40x\<close>).

  \<^bold>\<open>The program.\<close>  The kernel schedules threads of 32 priorities with ready queues and a bitmap
  (\<^verbatim>\<open>scheduler.c\<close>, \<^verbatim>\<open>thread.c\<close>, \<^verbatim>\<open>kservice.c\<close>), runs timers from the clock tick (\<^verbatim>\<open>timer.c\<close>, \<^verbatim>\<open>clock.c\<close>),
  offers semaphores, mutexes, events, mailboxes and message queues (\<^verbatim>\<open>ipc.c\<close>), and manages memory
  (\<^verbatim>\<open>mem.c\<close>, \<^verbatim>\<open>mempool.c\<close>) and devices (\<^verbatim>\<open>device.c\<close>).  All its queues are intrusive lists (\<^verbatim>\<open>rtservice.h\<close>) and all its objects are
  registered in containers (\<^verbatim>\<open>object.c\<close>).  The robot's main board talks to motor boxes, valve boards,
  sonic sensors and cameras over two CAN buses.  A table of messages (\<^verbatim>\<open>can_database.c\<close>) determines
  what is sent, which frames the controller accepts (\<^verbatim>\<open>can.c\<close>) and which handler the receive
  interrupts call (\<^verbatim>\<open>stm32f4xx_it.c\<close>, \<^verbatim>\<open>Command.c\<close>); on top of it are the valves (\<^verbatim>\<open>relay.c\<close>) and the
  transfer of camera images to the SD card (\<^verbatim>\<open>sd_save.c\<close>).  The serial ports (\<^verbatim>\<open>serial.c\<close>) are devices of the
  kernel that receive by interrupt and transmit by DMA from nodes of a memory pool.

  \<^bold>\<open>The model.\<close>  Integers are words of the width the C code uses, so arithmetic wraps as on the target.
  The state of the kernel is one record, built by extension: \<^verbatim>\<open>kobj\<close> (\<open>Object\<close>: names and containers),
  \<^verbatim>\<open>ktimer\<close> (\<open>Timer\<close>: timers and tick) and \<^verbatim>\<open>kernel\<close> (\<open>Sched\<close>: threads, thread lists, current thread,
  ready bitmap, lock and interrupt counters).  IPC objects and pools are records of their own, and
  each operation maps the object and the kernel to their new values.  Regions with interrupts
  disabled are atomic.  A call that may wait is one definition up to the context switch (outcome
  \<open>Blocked\<close>) and a second one, with the suffix \<^verbatim>\<open>_resumed\<close>, for what runs when the thread continues.
  Error codes are the integers of the source.  An access outside the objects of the program does not
  disappear: it sets a status field that no operation resets (\<open>k_status\<close>, \<open>can_status\<close>).  Debug
  assertions are compiled out (\<^verbatim>\<open>RT_DEBUG\<close> is off) and hooks are not set, as in the configuration
  \<^verbatim>\<open>rtconfig.h\<close>: 32 priorities, 200 ticks a second, names of 32 characters, alignment 8, one timer
  list, no soft timers, the small-memory heap.

  \<^bold>\<open>The theories.\<close>
  \<^item> \<open>Prelude\<close>: integer types, error codes, \<^verbatim>\<open>RT_ALIGN\<close>, facts on words and lists, and the collections
    \<open>kernel_keeps\<close> and \<open>kernel_calls\<close>, in which each component puts the lemmas that its operations keep
    the kernel invariant.
  \<^item> \<open>RtList\<close>: the list primitives as pointer updates on a store, and their refinement to
    operations on mathematical lists.  The locale \<open>list_interface\<close> is what the kernel relies on; it is
    interpreted for the pointers and for the lists (\<open>push_back\<close>, \<open>push_front\<close>, \<open>unlink\<close>) the
    other theories use.  The locale \<open>ordered_insertion\<close> is shared by the timer list and the waiting
    lists by priority.
  \<^item> \<open>KService\<close>: \<^verbatim>\<open>__rt_ffs\<close> and its table.  \<open>KString\<close>: the memory and string routines, including the
    word-wise copying, on a byte-addressed memory.
  \<^item> \<open>Object\<close>, \<open>Timer\<close>, \<open>Sched\<close>, \<open>Thread\<close>, \<open>Clock\<close>: the objects, timers, scheduler, threads with the idle
    thread, and the tick, one definition for each function of the files of the same names.  \<open>Thread\<close>
    has the invariant \<open>kinv\<close> of the kernel: no thread on two lists, the bitmap exact, thread
    state and list in agreement, timers in order and running only for suspended threads.  The
    locale \<open>timeout_dispatch\<close> states what the timer check relies on of the timeout functions, and
    \<open>Clock\<close> interprets it for the timeout of threads.
  \<^item> \<open>Ipc\<close>, \<open>Semaphore\<close>, \<open>Mutex\<close>, \<open>Event\<close>, \<open>Mailbox\<close>, \<open>MsgQueue\<close>: \<^verbatim>\<open>ipc.c\<close>.  \<open>Fifo\<close> has the contract of a
    bounded queue (locale \<open>bounded_fifo\<close>) with the theorem that every history delivers in order;
    it is interpreted for mailboxes, message queues and the image buffer.  In \<open>MsgQueue\<close> the pieces of
    a send or receive that run with interrupts disabled interleave arbitrarily.
  \<^item> \<open>Mem\<close>: the heap, with the chain of blocks, its invariant and the histories of requests.
    \<open>Mempool\<close>: the pools on top of the heap and the kernel.
  \<^item> \<open>Device\<close>: the device layer and the error numbers.  The locale \<open>device_driver\<close> is what it relies on of a
    driver.  \<open>Serial\<close>: the serial driver, for which the locale is interpreted, with its receive ring and its
    transmit queue.
  \<^item> \<open>Kernel\<close>: the relation \<open>kstep\<close> of everything that can happen to the kernel, the reachable states
    \<open>kreach\<close>, and the properties of scheduling and timers.
  \<^item> \<open>BxCan\<close>: transmission, reception and retries at the level of the controller's registers.
    \<open>CanDatabase\<close>: the message table, the hash index and \<^verbatim>\<open>Write_Database\<close>.  \<open>CanFilter\<close>:
    \<^verbatim>\<open>Can_FILTER_Config\<close>.  \<open>Command\<close>: commands, handlers and receive interrupts.  \<open>ImageSave\<close>: image
    transfer.  \<open>Relay\<close>: valves, the firing sequence, the LED and Hall codes, with the locale
    \<open>port_driver\<close> for histories of switching operations, interpreted for the relay code.

  \<^bold>\<open>What is shown.\<close> For the kernel: the invariant of all reachable states,
  the refinement of the lists, that the best thread runs and that threads of equal priority take
  turns, order, firing and exactness of timers and sleeps across the wrap-around of the tick.
  For IPC: conservation of tokens, mutual exclusion with exact hold counts, priority
  inheritance, wake-up of exactly the satisfied event waiters, delivery in order, and the effect
  of each call on every branch.  For memory: exactness of the memory and string routines,
  disjointness and alignment of heap blocks with exact statistics, contents kept by resizing,
  and the partition of a pool into free and allocated blocks (with what becomes of a thread that
  waits for one).  For devices: sessions of a serial port, reception in order up to the overrun
  of the ring, transmission in order by DMA.  For the robot: round trip of a frame through
  mailbox and FIFO, the hash index equal to a search of the table, filters that accept exactly
  the identifiers read, accepted frames handled inside the tables, exact motor commands and
  feedback, images saved as received, the valve image in agreement with the boards, and the
  interlock of the firing valves.

  \<^bold>\<open>Loops and bounds.\<close>  Loops over data are structural recursion.  Loops that may not end in C are
  \<^verbatim>\<open>partial_function (option)\<close>, with \<open>None\<close> for not returning, and are proved to return where a property speaks
  of their results: the timer check, the resumption of all waiting threads and the reset of a message queue
  under the kernel invariant, the heap search in every reachable heap, the string routines on
  terminated strings.  The polled read of a serial port ends or not with the characters the hardware
  delivers.  No loop is cut off by fuel.  Ticks are compared modulo \<open>2 ^ 32\<close>, and
  statements on time ask for waits below half of the range, as the code does.  Counters of
  limited width are kept at their width.

  \<^bold>\<open>Parameters.\<close> What the hardware does between two accesses (empty
  mailboxes, received frames and characters), the functions of a device driver in
  \<open>Device\<close>, and the results of allocations for kernel objects are arguments of the
  definitions.  Floating-point values that are only stored or transmitted are bit patterns.

  \<^bold>\<open>Not modelled.\<close>  The control laws of the drive and of the routes (\<^verbatim>\<open>Route\<close>, \<^verbatim>\<open>pid.c\<close>, \<^verbatim>\<open>mymath.c\<close>,
  \<^verbatim>\<open>mecanum.c\<close>) compute in double precision with trigonometric functions and depend on the physics of
  the robot.  The menu, the display and the keyboard are interactive input and output, and the threads
  of the application, the automatic programs and the arm actions are sequences of
  such calls with timed waits.  The register settings of the other peripherals, the assembly code of
  the context switch, formatted printing, and the third-party packages in the tree (FatFS, DFS, lwIP and
  others) are left out; so is kernel code that the configuration does not compile
  (\<^verbatim>\<open>memheap.c\<close>, \<^verbatim>\<open>slab.c\<close>, \<^verbatim>\<open>module.c\<close>).
\<close>

end
